(* ===== verification/Prelude.thy ===== *)
theory Prelude
  imports Main "HOL-Library.Word" "HOL-Library.Sublist" "HOL-Library.Code_Target_Nat"
begin

text \<open>
  Shared vocabulary of the development: bytes, I/O errors, the result of a poll, the
  \<^emph>\<open>ready\<close> combinator that stands for the source's \<^verbatim>\<open>ready!(..)?\<close>, the printing and parsing of
  numbers by the Rust standard library that the source relies on, and generic list facts.
  The proofs of the components draw on three collections: \<open>poll_simps\<close> for the combinators,
  \<open>io_simps\<close> for the byte streams of a connection, and \<open>chan_simps\<close> for the channels.
\<close>

named_theorems poll_simps \<open>unfolding of the poll combinators\<close>
named_theorems io_simps \<open>byte streams of a buffered connection\<close>
named_theorems chan_simps \<open>channel operations\<close>

section \<open>Bytes and errors\<close>

text \<open>
  A \<^verbatim>\<open>u8\<close> is only ever compared or copied by the source, never computed with, so it is the
  256-element type \<^typ>\<open>char\<close>; a \<^verbatim>\<open>Vec<u8>\<close>, a slice and a string are then all lists of bytes.
\<close>

type_synonym byte = char
type_synonym bytes = "char list"

abbreviation CR :: byte where "CR \<equiv> CHR 0x0D"
abbreviation LF :: byte where "LF \<equiv> CHR 0x0A"
abbreviation CRLF :: bytes where "CRLF \<equiv> [CR, LF]"

text \<open>\<^verbatim>\<open>std::io::ErrorKind\<close> and \<^verbatim>\<open>std::io::Error\<close> (a kind and what it displays as).\<close>

datatype io_kind =
    NotFound | PermissionDenied | ConnectionRefused | ConnectionReset | ConnectionAborted
  | NotConnected | AddrInUse | AddrNotAvailable | BrokenPipe | AlreadyExists | WouldBlock
  | InvalidInput | InvalidData | TimedOut | WriteZero | Interrupted | OtherKind | UnexpectedEof

datatype io_error = IoError (io_kind: io_kind) (io_msg: string)

section \<open>Results of a poll\<close>

text \<open>
  One call of a \<^verbatim>\<open>poll_*\<close> function either produces a value, fails with an I/O error, is
  pending, or panics (a failed assertion, an \<^verbatim>\<open>unwrap\<close> of \<^verbatim>\<open>None\<close>, an \<^verbatim>\<open>unreachable!\<close>).
  \<^verbatim>\<open>Poll<io::Result<T>>\<close>, \<^verbatim>\<open>io::Result<T>\<close>, \<^verbatim>\<open>Poll<T>\<close> and a plain \<^verbatim>\<open>T\<close> whose computation may
  panic are all read into this type; the last three leave some constructors unused.
\<close>

datatype 'a res = Ok 'a | Err io_error | Pending | Panic string

text \<open>\<^verbatim>\<open>ready!(f(..))?\<close>: go on with the value, return anything else to the caller.\<close>

definition ready :: "'a res \<times> 's \<Rightarrow> ('a \<Rightarrow> 's \<Rightarrow> 'b res \<times> 's) \<Rightarrow> 'b res \<times> 's" where
  "ready m k = (case m of
      (Ok a, s) \<Rightarrow> k a s
    | (Err e, s) \<Rightarrow> (Err e, s)
    | (Pending, s) \<Rightarrow> (Pending, s)
    | (Panic p, s) \<Rightarrow> (Panic p, s))"

lemma ready_simps [simp, poll_simps]:
  "ready (Ok a, s) k = k a s"
  "ready (Err e, s) k = (Err e, s)"
  "ready (Pending, s) k = (Pending, s)"
  "ready (Panic p, s) k = (Panic p, s)"
  by (simp_all add: ready_def)

lemma ready_cong [fundef_cong]:
  assumes "m = m'" and "\<And>a s. m' = (Ok a, s) \<Longrightarrow> k a s = k' a s"
  shows "ready m k = ready m' k'"
  using assms by (cases m'; cases "fst m'") (auto simp: ready_def)

lemma ready_eq_Ok:
  "ready m k = (Ok b, t) \<longleftrightarrow> (\<exists>a s. m = (Ok a, s) \<and> k a s = (Ok b, t))"
  by (cases m; cases "fst m") (auto simp: ready_def)

lemma ready_eq_Pending:
  "ready m k = (Pending, t) \<longleftrightarrow> m = (Pending, t) \<or> (\<exists>a s. m = (Ok a, s) \<and> k a s = (Pending, t))"
  by (cases m; cases "fst m") (auto simp: ready_def)

lemma ready_eq_Err:
  "ready m k = (Err e, t) \<longleftrightarrow> m = (Err e, t) \<or> (\<exists>a s. m = (Ok a, s) \<and> k a s = (Err e, t))"
  by (cases m; cases "fst m") (auto simp: ready_def)

lemma ready_eq_Panic:
  "ready m k = (Panic p, t) \<longleftrightarrow> m = (Panic p, t) \<or> (\<exists>a s. m = (Ok a, s) \<and> k a s = (Panic p, t))"
  by (cases m; cases "fst m") (auto simp: ready_def)

lemmas ready_eqs = ready_eq_Ok ready_eq_Pending ready_eq_Err ready_eq_Panic

text \<open>A panic of a pure step aborts the poll that runs it.\<close>

definition pure_step :: "'a res \<Rightarrow> 's \<Rightarrow> ('a \<Rightarrow> 'b res \<times> 's) \<Rightarrow> 'b res \<times> 's" where
  "pure_step r s k = ready (r, s) (\<lambda>a _. k a)"

lemma pure_step_simps [simp, poll_simps]:
  "pure_step (Ok a) s k = k a"
  "pure_step (Err e) s k = (Err e, s)"
  "pure_step Pending s k = (Pending, s)"
  "pure_step (Panic p) s k = (Panic p, s)"
  by (simp_all add: pure_step_def)

lemma pure_step_cong [fundef_cong]:
  assumes "r = r'" and "s = s'" and "\<And>a. r' = Ok a \<Longrightarrow> k a = k' a"
  shows "pure_step r s k = pure_step r' s' k'"
  using assms by (cases r') auto

text \<open>Sequencing of computations without a state.\<close>

definition rbind :: "'a res \<Rightarrow> ('a \<Rightarrow> 'b res) \<Rightarrow> 'b res" where
  "rbind r k = (case r of Ok a \<Rightarrow> k a | Err e \<Rightarrow> Err e | Pending \<Rightarrow> Pending | Panic p \<Rightarrow> Panic p)"

lemma rbind_simps [simp, poll_simps]:
  "rbind (Ok a) k = k a" "rbind (Err e) k = Err e" "rbind Pending k = Pending"
  "rbind (Panic p) k = Panic p"
  by (simp_all add: rbind_def)

definition panics :: "'a res \<times> 's \<Rightarrow> bool" where
  "panics m = (case fst m of Panic _ \<Rightarrow> True | _ \<Rightarrow> False)"

lemma panics_simps [simp]:
  "\<not> panics (Ok a, s)" "\<not> panics (Err e, s)" "\<not> panics (Pending, s)" "panics (Panic p, s)"
  by (simp_all add: panics_def)

end
