(* ===== verification/Rust_Std.thy ===== *)
theory Rust_Std
  imports Prelude
begin

text \<open>
  The parts of the Rust standard library the source computes with: \<^verbatim>\<open>char::to_digit\<close>,
  \<^verbatim>\<open>from_str_radix\<close> and \<^verbatim>\<open>str::parse::<u64>\<close>, the \<^verbatim>\<open>{}\<close> and \<^verbatim>\<open>{:x}\<close> formats of an unsigned
  integer, \<^verbatim>\<open>str::trim\<close> and \<^verbatim>\<open>str::contains\<close>. The main facts are that parsing inverts
  printing, that a parsed number stays below the bound of its type, and how long a printed
  number can be.
\<close>

section \<open>Digits\<close>

abbreviation USIZE_BOUND :: nat where "USIZE_BOUND \<equiv> 2 ^ 64"
abbreviation U64_BOUND :: nat where "U64_BOUND \<equiv> 2 ^ 64"

definition to_digit :: "nat \<Rightarrow> char \<Rightarrow> nat option" where
  "to_digit radix c =
     (let n = of_char c :: nat;
          d = (if 48 \<le> n \<and> n \<le> 57 then n - 48
               else if 97 \<le> n \<and> n \<le> 122 then n - 87
               else if 65 \<le> n \<and> n \<le> 90 then n - 55
               else radix)
      in if d < radix then Some d else None)"

definition digit_char :: "nat \<Rightarrow> char" where
  "digit_char d = (if d < 10 then char_of (48 + d) else char_of (87 + d))"

lemma to_digit_lt: "to_digit r c = Some d \<Longrightarrow> d < r"
  by (auto simp: to_digit_def Let_def split: if_splits)

lemma to_digit_char: "d < r \<Longrightarrow> r \<le> 36 \<Longrightarrow> to_digit r (digit_char d) = Some d"
  by (auto simp: to_digit_def digit_char_def Let_def of_char_of)

section \<open>Printing and parsing unsigned integers\<close>

text \<open>\<^verbatim>\<open>{}\<close> is \<open>show_radix 10\<close>, \<^verbatim>\<open>{:x}\<close> is \<open>show_radix 16\<close>.\<close>

function show_radix :: "nat \<Rightarrow> nat \<Rightarrow> string" where
  "show_radix r n =
     (if n < r \<or> r < 2 then [digit_char n]
      else show_radix r (n div r) @ [digit_char (n mod r)])"
  by pat_completeness auto
termination
  by (relation "measure snd") (auto intro: div_less_dividend)

declare show_radix.simps [simp del]

text \<open>
  The checked loop of \<^verbatim>\<open>from_str_radix\<close>: a character that is no digit and a value that
  reaches the bound of the type are both errors. A leading plus sign is accepted.
\<close>

fun parse_digits :: "nat \<Rightarrow> nat \<Rightarrow> nat \<Rightarrow> string \<Rightarrow> nat option" where
  "parse_digits r b acc [] = Some acc"
| "parse_digits r b acc (c # cs) =
     (case to_digit r c of
        None \<Rightarrow> None
      | Some d \<Rightarrow> if acc * r + d < b then parse_digits r b (acc * r + d) cs else None)"

definition from_str_radix :: "nat \<Rightarrow> nat \<Rightarrow> string \<Rightarrow> nat option" where
  "from_str_radix r b s =
     (case s of
        [] \<Rightarrow> None
      | c # cs \<Rightarrow> if c = CHR ''+'' \<and> cs \<noteq> [] then parse_digits r b 0 cs
                 else parse_digits r b 0 s)"

definition parse_u64 :: "string \<Rightarrow> nat option" where
  "parse_u64 s = from_str_radix 10 U64_BOUND s"

lemma parse_digits_bound: "parse_digits r b acc s = Some n \<Longrightarrow> acc < b \<Longrightarrow> n < b"
  by (induction s arbitrary: acc) (auto split: option.splits if_splits)

lemma from_str_radix_bound: "from_str_radix r b s = Some n \<Longrightarrow> 0 < b \<Longrightarrow> n < b"
  by (auto simp: from_str_radix_def dest: parse_digits_bound split: list.splits if_splits
      simp del: parse_digits.simps)

lemma parse_digits_append:
  "parse_digits r b acc (xs @ ys) = Option.bind (parse_digits r b acc xs) (\<lambda>a. parse_digits r b a ys)"
  by (induction xs arbitrary: acc) (auto split: option.splits)

lemma parse_digits_mono:
  "parse_digits r b acc s = Some n \<Longrightarrow> acc < b \<Longrightarrow> n < b' \<Longrightarrow> 0 < r \<Longrightarrow> parse_digits r b' acc s = Some n"
proof (induction s arbitrary: acc)
  case (Cons c cs)
  obtain d where d: "to_digit r c = Some d" and lt: "acc * r + d < b"
    and rest: "parse_digits r b (acc * r + d) cs = Some n"
    using Cons.prems(1) by (auto split: option.splits if_splits)
  have "acc * r + d \<le> n"
    using rest \<open>0 < r\<close>
  proof (induction cs arbitrary: acc d)
    case (Cons c' cs')
    then obtain d' where "parse_digits r b ((acc * r + d) * r + d') cs' = Some n"
      by (auto split: option.splits if_splits)
    then have "(acc * r + d) * r + d' \<le> n" using Cons.IH Cons.prems(2) by blast
    moreover have "acc * r + d \<le> (acc * r + d) * r" using Cons.prems(2) by simp
    ultimately show ?case by linarith
  qed simp
  with Cons d lt rest show ?case by simp
qed simp

lemma parse_digits_show:
  assumes "2 \<le> r" "r \<le> 36" "n < b"
  shows "parse_digits r b 0 (show_radix r n) = Some n"
  using assms
proof (induction r n rule: show_radix.induct)
  case (1 r n)
  show ?case
  proof (cases "n < r")
    case True
    with 1 show ?thesis by (subst show_radix.simps) (simp add: to_digit_char)
  next
    case False
    have "n div r \<le> n" by simp
    with 1 False have "parse_digits r b 0 (show_radix r (n div r)) = Some (n div r)"
      by (simp add: le_less_trans)
    with 1 False show ?thesis
      by (subst show_radix.simps) (simp add: parse_digits_append to_digit_char)
  qed
qed

lemma show_radix_nonempty [simp]: "show_radix r n \<noteq> []"
  by (subst show_radix.simps) simp

lemma digit_char_inj_plus: "d < 36 \<Longrightarrow> digit_char d \<noteq> CHR ''+''"
proof
  assume "d < 36" and "digit_char d = CHR ''+''"
  then have "to_digit 36 (CHR ''+'') = Some d" using to_digit_char[of d 36] by simp
  then show False by (simp add: to_digit_def)
qed

lemma show_radix_set:
  "2 \<le> r \<Longrightarrow> set (show_radix r n) \<subseteq> digit_char ` {..<r}"
proof (induction r n rule: show_radix.induct)
  case (1 r n)
  then show ?case by (subst show_radix.simps) auto
qed

theorem from_str_radix_show:
  assumes "2 \<le> r" "r \<le> 36" "n < b"
  shows "from_str_radix r b (show_radix r n) = Some n"
proof -
  obtain c cs where s: "show_radix r n = c # cs"
    by (cases "show_radix r n") auto
  then have "c \<in> digit_char ` {..<r}" using show_radix_set[of r n] assms by auto
  then have "c \<noteq> CHR ''+''" using digit_char_inj_plus assms by auto
  with s show ?thesis using parse_digits_show[OF assms] by (simp add: from_str_radix_def)
qed

lemma length_show_radix:
  "2 \<le> r \<Longrightarrow> n < r ^ k \<Longrightarrow> 0 < k \<Longrightarrow> length (show_radix r n) \<le> k"
proof (induction r n arbitrary: k rule: show_radix.induct)
  case (1 r n)
  show ?case
  proof (cases "n < r")
    case True
    with 1 show ?thesis by (subst show_radix.simps) simp
  next
    case False
    then obtain k' where k: "k = Suc k'" "0 < k'"
      using "1.prems" by (cases k; cases "k - 1") auto
    have "n div r < r ^ k'"
      using "1.prems" k by (simp add: less_mult_imp_div_less mult.commute)
    with 1 False k have "length (show_radix r (n div r)) \<le> k'" by simp
    with False k show ?thesis using "1.prems" by (subst show_radix.simps) simp
  qed
qed

section \<open>Strings\<close>

definition is_ws :: "char \<Rightarrow> bool" where
  "is_ws c \<longleftrightarrow> c \<in> {CHR '' '', CHR 0x09, CHR 0x0A, CHR 0x0B, CHR 0x0C, CHR 0x0D}"

definition trim :: "string \<Rightarrow> string" where
  "trim s = rev (dropWhile is_ws (rev (dropWhile is_ws s)))"

lemma trim_id: "(\<And>c. c \<in> set s \<Longrightarrow> \<not> is_ws c) \<Longrightarrow> trim s = s"
proof -
  assume *: "\<And>c. c \<in> set s \<Longrightarrow> \<not> is_ws c"
  have drop: "dropWhile is_ws xs = xs" if "\<And>c. c \<in> set xs \<Longrightarrow> \<not> is_ws c" for xs
    using that by (cases xs) auto
  have "dropWhile is_ws s = s" and "dropWhile is_ws (rev s) = rev s"
    by (auto intro!: drop dest: *)
  then show ?thesis by (simp add: trim_def)
qed

fun contains_str :: "string \<Rightarrow> string \<Rightarrow> bool" where
  "contains_str p [] = (p = [])"
| "contains_str p (c # cs) = (prefix p (c # cs) \<or> contains_str p cs)"

lemma contains_str_iff: "contains_str p s \<longleftrightarrow> (\<exists>a b. s = a @ p @ b)"
proof (induction s)
  case (Cons c cs)
  have "(\<exists>a b. c # cs = a @ p @ b) \<longleftrightarrow> (\<exists>b. c # cs = p @ b) \<or> (\<exists>a b. cs = a @ p @ b)"
    by (metis append_Cons append_Nil list.exhaust_sel list.sel(3))
  then show ?case by (simp add: Cons.IH prefix_def)
qed auto

end
