(* ===== verification/Errors.thy ===== *)
theory Errors
  imports Rust_Std
begin

text \<open>
  The crate's error type (\<^verbatim>\<open>src/error.rs\<close>) and \<^verbatim>\<open>err_closed\<close> of \<^verbatim>\<open>src/lib.rs\<close>. The values of the
  foreign error types \<^verbatim>\<open>httparse::Error\<close> and \<^verbatim>\<open>http::Error\<close> are known to the crate only through
  what they display as, and are that string here.
\<close>

datatype error =
    User string
  | Io io_error
  | Http11Parser string
  | Http string

definition into_io :: "error \<Rightarrow> io_error" where
  "into_io self = (case self of
      Io i \<Rightarrow> i
    | User e \<Rightarrow> IoError OtherKind e
    | Http11Parser e \<Rightarrow> IoError OtherKind e
    | Http e \<Rightarrow> IoError OtherKind e)"

definition error_display :: "error \<Rightarrow> string" where
  "error_display self = (case self of
      User v \<Rightarrow> v
    | Io v \<Rightarrow> io_msg v
    | Http11Parser v \<Rightarrow> ''http11 parser: '' @ v
    | Http v \<Rightarrow> ''http api: '' @ v)"

definition from_io :: "io_error \<Rightarrow> error" where
  "from_io e = Io e"

definition err_closed :: "string \<Rightarrow> error + 'a" where
  "err_closed msg = Inl (from_io (IoError NotConnected msg))"

text \<open>\<^verbatim>\<open>is_closed_kind\<close> of \<^verbatim>\<open>src/share.rs\<close>: the kinds that mean the peer hung up.\<close>

definition is_closed_kind :: "io_kind \<Rightarrow> bool" where
  "is_closed_kind kind \<longleftrightarrow>
     kind = UnexpectedEof \<or> kind = ConnectionReset \<or> kind = ConnectionAborted"

text \<open>
  Wrapping an I/O error and turning it back loses nothing, and converting any other error
  keeps the text of a user error.
\<close>

lemma into_io_from_io [simp]: "into_io (from_io e) = e"
  by (simp add: into_io_def from_io_def)

lemma into_io_display:
  "(case e of Io i \<Rightarrow> into_io e = i | User m \<Rightarrow> io_msg (into_io e) = error_display e
    | _ \<Rightarrow> io_kind (into_io e) = OtherKind)"
  by (cases e) (auto simp: into_io_def error_display_def)

lemma into_io_not_closed: "is_closed_kind (io_kind (into_io (User m))) = False"
  by (simp add: into_io_def is_closed_kind_def)

end
