(* ===== verification/Fast_Buf.thy ===== *)
theory Fast_Buf
  imports Rust_Std
begin

text \<open>
  \<^verbatim>\<open>src/fast_buf.rs\<close>: \<open>ConsumeBuf\<close>, a buffer with a read position, and \<open>FastBuf\<close>, a vector
  whose length is moved by \<^verbatim>\<open>set_len\<close> without zeroing. The model keeps apart what the unsafe
  code keeps apart: the bytes of the allocation that have been written (\<open>fb_init\<close>, a prefix
  of the allocation), the length the vector claims (\<open>fb_len\<close>) and its capacity. The
  invariant \<open>fb_ok\<close> says that no claimed byte is uninitialised; the lemmas show that the
  borrow / extend / drop protocol keeps it and appends exactly the bytes written. While a borrow
  lasts, the reference hands out the whole capacity as a slice of bytes, also where nothing has
  been written yet: \<open>fr_deref\<close> shows these places as \<open>None\<close>.
\<close>

section \<open>ConsumeBuf\<close>

record consume_buf =
  cb_buf :: bytes
  cb_pos :: nat

definition consume_buf_new :: "bytes \<Rightarrow> consume_buf" where
  "consume_buf_new buf = \<lparr>cb_buf = buf, cb_pos = 0\<rparr>"

definition cb_consume :: "nat \<Rightarrow> consume_buf \<Rightarrow> consume_buf res" where
  "cb_consume amount self =
     (let new_pos = cb_pos self + amount in
      if new_pos \<le> length (cb_buf self) then Ok (self\<lparr>cb_pos := new_pos\<rparr>)
      else Panic ''assertion failed: new_pos <= self.buf.len()'')"

definition cb_len :: "consume_buf \<Rightarrow> nat" where
  "cb_len self = length (cb_buf self) - cb_pos self"

definition cb_is_empty :: "consume_buf \<Rightarrow> bool" where
  "cb_is_empty self \<longleftrightarrow> cb_len self = 0"

definition cb_deref :: "consume_buf \<Rightarrow> bytes" where
  "cb_deref self = drop (cb_pos self) (cb_buf self)"

definition cb_ok :: "consume_buf \<Rightarrow> bool" where
  "cb_ok cb \<longleftrightarrow> cb_pos cb \<le> length (cb_buf cb)"

lemma cb_new [simp]: "cb_ok (consume_buf_new bs)" "cb_deref (consume_buf_new bs) = bs"
  by (simp_all add: consume_buf_new_def cb_ok_def cb_deref_def)

lemma length_cb_deref [simp]: "length (cb_deref cb) = cb_len cb"
  by (simp add: cb_deref_def cb_len_def)

lemma cb_is_empty_iff: "cb_is_empty cb \<longleftrightarrow> cb_deref cb = []"
  by (simp add: cb_is_empty_def cb_deref_def cb_len_def)

lemma cb_consume_Ok:
  assumes "cb_ok cb" "n \<le> cb_len cb"
  shows "\<exists>cb'. cb_consume n cb = Ok cb' \<and> cb_ok cb' \<and> cb_deref cb' = drop n (cb_deref cb)"
  using assms by (auto simp: cb_consume_def cb_ok_def cb_deref_def cb_len_def Let_def add.commute)

section \<open>FastBuf\<close>

abbreviation MAX_CAPACITY :: nat where "MAX_CAPACITY \<equiv> 10 * 1024 * 1024"

record fast_buf =
  fb_init :: bytes
  fb_len :: nat
  fb_cap :: nat

text \<open>
  \<^verbatim>\<open>Vec::reserve\<close>: nothing when the spare capacity suffices, otherwise the amortised growth of
  the standard library (at least double, at least 8). Reallocation keeps the first
  \<^verbatim>\<open>len\<close> bytes.
\<close>

definition vec_reserve :: "nat \<Rightarrow> fast_buf \<Rightarrow> fast_buf" where
  "vec_reserve additional v =
     (if additional \<le> fb_cap v - fb_len v then v
      else v\<lparr>fb_init := take (fb_len v) (fb_init v),
             fb_cap := max 8 (max (2 * fb_cap v) (fb_len v + additional))\<rparr>)"

definition set_len :: "nat \<Rightarrow> fast_buf \<Rightarrow> fast_buf" where
  "set_len n v = v\<lparr>fb_len := n\<rparr>"

definition fb_with_capacity :: "nat \<Rightarrow> fast_buf" where
  "fb_with_capacity capacity = \<lparr>fb_init = [], fb_len = 0, fb_cap = capacity\<rparr>"

definition fb_ensure_capacity :: "nat \<Rightarrow> fast_buf \<Rightarrow> fast_buf" where
  "fb_ensure_capacity capacity self =
     (if capacity > fb_cap self then vec_reserve (capacity - fb_cap self) self else self)"

definition fb_empty :: "fast_buf \<Rightarrow> fast_buf" where
  "fb_empty self = set_len 0 self"

definition fb_deref :: "fast_buf \<Rightarrow> bytes" where
  "fb_deref self = take (fb_len self) (fb_init self)"

definition fb_into_vec :: "fast_buf \<Rightarrow> bytes" where
  "fb_into_vec self = fb_deref self"

text \<open>
  A \<open>FastBufRef\<close> holds the vector, resized to its full capacity, and the length it will be
  given back when the reference is dropped.
\<close>

record fast_buf_ref =
  fr_buf :: fast_buf
  fr_cur_len :: nat

definition fb_borrow :: "fast_buf \<Rightarrow> fast_buf_ref res" where
  "fb_borrow self =
     (if fb_cap self = 0 then Panic ''FastBuf::borrow() with 0 capacity''
      else
        let len_at_start = fb_len self;
            max_cap = min MAX_CAPACITY (fb_cap self * 2)
        in if len_at_start = fb_cap self \<and> max_cap < fb_cap self
           then Panic ''attempt to subtract with overflow''
           else
             let v = (if len_at_start = fb_cap self
                      then vec_reserve (max_cap - fb_cap self) self else self)
             in if fb_cap v > len_at_start
                then Ok \<lparr>fr_buf = set_len (fb_cap v) v, fr_cur_len = len_at_start\<rparr>
                else Panic ''assertion failed: self.0.capacity() > len_at_start'')"

text \<open>
  \<^verbatim>\<open>Deref\<close> and \<^verbatim>\<open>DerefMut\<close> of a \<^verbatim>\<open>FastBufRef\<close> give the vector's whole slice. What has been written
  reads as a byte, the rest of the allocation as \<open>None\<close>: a place the language leaves undefined.
\<close>

definition fr_deref :: "fast_buf_ref \<Rightarrow> byte option list" where
  "fr_deref self = (let v = fr_buf self in
     map Some (take (fb_len v) (fb_init v)) @ replicate (fb_len v - length (fb_init v)) None)"

text \<open>Copying bytes into the exposed slice at an offset, as \<^verbatim>\<open>copy_from_slice\<close> or a reader does.\<close>

definition fr_fill :: "nat \<Rightarrow> bytes \<Rightarrow> fast_buf_ref \<Rightarrow> fast_buf_ref" where
  "fr_fill off bs self =
     self\<lparr>fr_buf := (fr_buf self)
       \<lparr>fb_init := take off (fb_init (fr_buf self)) @ bs @ drop (off + length bs) (fb_init (fr_buf self))\<rparr>\<rparr>"

definition fr_extend_from_slice :: "bytes \<Rightarrow> fast_buf_ref \<Rightarrow> fast_buf_ref res" where
  "fr_extend_from_slice data self =
     (if fr_cur_len self + length data \<le> fb_len (fr_buf self)
      then Ok ((fr_fill (fr_cur_len self) data self)
                 \<lparr>fr_cur_len := fr_cur_len self + length data\<rparr>)
      else Panic ''FastBuf::extend_from_slice not enough len'')"

definition fr_drop :: "fast_buf_ref \<Rightarrow> fast_buf" where
  "fr_drop self = set_len (fr_cur_len self) (fr_buf self)"

text \<open>\<^verbatim>\<open>unsafe fn extend(mut self, amount)\<close> consumes the reference, so it also drops it.\<close>

definition fr_extend :: "nat \<Rightarrow> fast_buf_ref \<Rightarrow> fast_buf res" where
  "fr_extend amount self =
     (if fr_cur_len self + amount \<le> fb_len (fr_buf self)
      then Ok (fr_drop (self\<lparr>fr_cur_len := fr_cur_len self + amount\<rparr>))
      else Panic ''FastBuf::extend with not enough len'')"

section \<open>No uninitialised byte is visible outside a borrow\<close>

definition fb_ok :: "fast_buf \<Rightarrow> bool" where
  "fb_ok b \<longleftrightarrow> fb_len b \<le> length (fb_init b) \<and> length (fb_init b) \<le> fb_cap b"

definition fr_ok :: "fast_buf_ref \<Rightarrow> bool" where
  "fr_ok r \<longleftrightarrow> fr_cur_len r \<le> length (fb_init (fr_buf r))
     \<and> length (fb_init (fr_buf r)) \<le> fb_cap (fr_buf r) \<and> fb_len (fr_buf r) = fb_cap (fr_buf r)"

text \<open>The bytes that will be visible once the reference is dropped.\<close>

definition fr_bytes :: "fast_buf_ref \<Rightarrow> bytes" where
  "fr_bytes r = take (fr_cur_len r) (fb_init (fr_buf r))"

lemma length_fb_deref [simp]: "fb_ok b \<Longrightarrow> length (fb_deref b) = fb_len b"
  by (simp add: fb_ok_def fb_deref_def)

lemma fb_with_capacity_ok [simp]:
  "fb_ok (fb_with_capacity n)" "fb_deref (fb_with_capacity n) = []"
  "fb_cap (fb_with_capacity n) = n" "fb_len (fb_with_capacity n) = 0"
  by (simp_all add: fb_with_capacity_def fb_ok_def fb_deref_def)

lemma fb_empty_ok [simp]:
  "fb_ok b \<Longrightarrow> fb_ok (fb_empty b)" "fb_deref (fb_empty b) = []"
  "fb_cap (fb_empty b) = fb_cap b" "fb_len (fb_empty b) = 0"
  by (simp_all add: fb_empty_def set_len_def fb_ok_def fb_deref_def)

lemma vec_reserve_ok [simp]:
  assumes "fb_ok b"
  shows "fb_ok (vec_reserve n b)" "fb_deref (vec_reserve n b) = fb_deref b"
    "fb_len (vec_reserve n b) = fb_len b" "fb_cap b \<le> fb_cap (vec_reserve n b)"
    "fb_len b + n \<le> fb_cap (vec_reserve n b)"
  using assms by (auto simp: vec_reserve_def fb_ok_def fb_deref_def)

lemma fb_ensure_capacity_ok [simp]:
  assumes "fb_ok b"
  shows "fb_ok (fb_ensure_capacity n b)" "fb_deref (fb_ensure_capacity n b) = fb_deref b"
    "fb_len (fb_ensure_capacity n b) = fb_len b" "fb_cap b \<le> fb_cap (fb_ensure_capacity n b)"
  using assms by (auto simp: fb_ensure_capacity_def)

lemma fb_ensure_capacity_pos [simp]: "fb_ok b \<Longrightarrow> 0 < fb_cap b \<Longrightarrow> 0 < fb_cap (fb_ensure_capacity n b)"
  by (meson fb_ensure_capacity_ok(4) less_le_trans)

text \<open>
  A borrow succeeds as long as the buffer has room or can grow below the 10 MiB limit; it
  then exposes at least one byte beyond the current contents, and dropping the reference
  unused gives the contents back unchanged.
\<close>

lemma fb_borrow_Ok:
  assumes "fb_ok b" "0 < fb_cap b" "fb_len b < fb_cap b \<or> fb_cap b < MAX_CAPACITY"
  obtains r where "fb_borrow b = Ok r" "fr_ok r" "fr_bytes r = fb_deref b"
    "fr_cur_len r = fb_len b" "fb_len b < fb_len (fr_buf r)" "fb_cap b \<le> fb_cap (fr_buf r)"
proof -
  let ?v = "if fb_len b = fb_cap b
    then vec_reserve (min MAX_CAPACITY (fb_cap b * 2) - fb_cap b) b else b"
  have v: "fb_ok ?v" "fb_deref ?v = fb_deref b" "fb_len ?v = fb_len b" "fb_cap b \<le> fb_cap ?v"
    using assms(1) by auto
  have "fb_len b + (min MAX_CAPACITY (fb_cap b * 2) - fb_cap b) \<le> fb_cap ?v" if "fb_len b = fb_cap b"
    using vec_reserve_ok(5)[OF assms(1)] that by simp
  then have gt: "fb_len b < fb_cap ?v"
    using assms by (cases "fb_len b = fb_cap b") (auto simp: fb_ok_def)
  have eq: "fb_borrow b = Ok \<lparr>fr_buf = set_len (fb_cap ?v) ?v, fr_cur_len = fb_len b\<rparr>"
    using assms(2,3) gt by (auto simp: fb_borrow_def Let_def)
  show ?thesis
    by (rule that[OF eq]) (use v gt in \<open>auto simp: fr_ok_def fb_ok_def fr_bytes_def fb_deref_def set_len_def\<close>)
qed

lemma fb_borrow_not_pending [simp]: "fb_borrow b \<noteq> Pending" "fb_borrow b \<noteq> Err e"
  by (auto simp: fb_borrow_def Let_def)

lemma fb_borrow_OkD:
  assumes "fb_borrow b = Ok r" "fb_ok b"
  shows "fr_ok r" "fr_bytes r = fb_deref b" "fr_cur_len r = fb_len b"
    "fb_len b < fb_len (fr_buf r)" "fb_cap b \<le> fb_cap (fr_buf r)"
proof -
  have cap: "0 < fb_cap b" "fb_len b < fb_cap b \<or> fb_cap b < MAX_CAPACITY"
    using assms by (auto simp: fb_borrow_def Let_def fb_ok_def vec_reserve_def split: if_splits)
  obtain r' where "fb_borrow b = Ok r'" "fr_ok r'" "fr_bytes r' = fb_deref b"
    "fr_cur_len r' = fb_len b" "fb_len b < fb_len (fr_buf r')" "fb_cap b \<le> fb_cap (fr_buf r')"
    using fb_borrow_Ok[OF assms(2) cap] by blast
  then show "fr_ok r" "fr_bytes r = fb_deref b" "fr_cur_len r = fb_len b"
    "fb_len b < fb_len (fr_buf r)" "fb_cap b \<le> fb_cap (fr_buf r)"
    using assms(1) by auto
qed

lemma fr_drop_ok [simp]: "fr_ok r \<Longrightarrow> fb_ok (fr_drop r)" "fb_deref (fr_drop r) = fr_bytes r"
  "fb_cap (fr_drop r) = fb_cap (fr_buf r)" "fb_len (fr_drop r) = fr_cur_len r"
  by (auto simp: fr_ok_def fb_ok_def fr_drop_def set_len_def fb_deref_def fr_bytes_def)

lemma fr_extend_from_slice_Ok:
  assumes "fr_ok r" "fr_cur_len r + length bs \<le> fb_len (fr_buf r)"
  obtains r' where "fr_extend_from_slice bs r = Ok r'" "fr_ok r'" "fr_bytes r' = fr_bytes r @ bs"
    "fr_cur_len r' = fr_cur_len r + length bs" "fb_len (fr_buf r') = fb_len (fr_buf r)"
    "fb_cap (fr_buf r') = fb_cap (fr_buf r)"
  using assms
  by (auto simp: fr_extend_from_slice_def fr_fill_def fr_ok_def fr_bytes_def intro!: that)

text \<open>A reader that wrote \<open>bs\<close> at the end of the contents, followed by \<^verbatim>\<open>extend(bs.len())\<close>.\<close>

lemma fr_fill_extend:
  assumes "fr_ok r" "fr_cur_len r + length bs \<le> fb_len (fr_buf r)"
  obtains b where "fr_extend (length bs) (fr_fill (fr_cur_len r) bs r) = Ok b" "fb_ok b"
    "fb_deref b = fr_bytes r @ bs" "fb_cap b = fb_cap (fr_buf r)"
  using assms
  by (auto simp: fr_extend_def fr_fill_def fr_ok_def fr_bytes_def fr_drop_def set_len_def
      fb_ok_def fb_deref_def intro!: that)

text \<open>What the reference exposes: as many places as the capacity, the contents first.\<close>

lemma fr_deref_exposed:
  assumes "fr_ok r"
  shows "length (fr_deref r) = fb_cap (fr_buf r)" "take (fr_cur_len r) (fr_deref r) = map Some (fr_bytes r)"
    "i < fb_cap (fr_buf r) \<Longrightarrow> fr_deref r ! i = None \<longleftrightarrow> length (fb_init (fr_buf r)) \<le> i"
  using assms by (auto simp: fr_deref_def fr_ok_def fr_bytes_def Let_def take_map nth_append min_def)

lemma fr_fill_exposed:
  assumes "fr_ok r" "fr_cur_len r + length bs \<le> fb_len (fr_buf r)"
  shows "take (fr_cur_len r + length bs) (fr_deref (fr_fill (fr_cur_len r) bs r)) = map Some (fr_bytes r @ bs)"
proof -
  have "length (take (fr_cur_len r) (fb_init (fr_buf r))) = fr_cur_len r" using assms(1) by (simp add: fr_ok_def)
  then show ?thesis
    using assms(2) by (simp add: fr_deref_def fr_fill_def fr_bytes_def Let_def take_map min_absorb1)
qed

section \<open>Properties\<close>

text \<open>
  C37. What the unsafe borrow exposes, and what it leaves behind. Let a well-formed buffer be borrowed, and let \<open>bs\<close>
  be bytes that fit into the room behind its contents.

  While the borrow lasts the reference gives a slice of the whole capacity, longer than the contents. The contents come
  first, and a place of the slice is uninitialised exactly when nothing was ever written there: the borrow does
  hand out uninitialised memory. Once a reader has put \<open>bs\<close> behind the contents, the slice is initialised up to the
  end of \<open>bs\<close>.

  After the borrow nothing uninitialised is left visible. Extending by the length of \<open>bs\<close>, once \<open>bs\<close> is written,
  succeeds and gives a well-formed buffer, all of it initialised, with the old contents followed by \<open>bs\<close>; dropping the
  reference without extending gives a well-formed buffer with the old contents.
\<close>

theorem fast_buf_borrow_exact:
  assumes "fb_ok b" "fb_borrow b = Ok r" "length bs \<le> fb_len (fr_buf r) - fr_cur_len r"
  shows "length (fr_deref r) = fb_cap (fr_buf r) \<and> fb_len b < length (fr_deref r)
    \<and> take (fb_len b) (fr_deref r) = map Some (fb_deref b)
    \<and> (\<forall>i < length (fr_deref r). fr_deref r ! i = None \<longleftrightarrow> length (fb_init (fr_buf r)) \<le> i)
    \<and> take (fb_len b + length bs) (fr_deref (fr_fill (fr_cur_len r) bs r)) = map Some (fb_deref b @ bs)
    \<and> (\<exists>b'. fr_extend (length bs) (fr_fill (fr_cur_len r) bs r) = Ok b' \<and> fb_ok b' \<and> fb_deref b' = fb_deref b @ bs)
    \<and> fb_ok (fr_drop r) \<and> fb_deref (fr_drop r) = fb_deref b"
proof -
  note r = fb_borrow_OkD[OF assms(2,1)]
  have fits: "fr_cur_len r + length bs \<le> fb_len (fr_buf r)" using assms(3) r(3,4) by simp
  then obtain b' where "fr_extend (length bs) (fr_fill (fr_cur_len r) bs r) = Ok b'" "fb_ok b'"
    "fb_deref b' = fr_bytes r @ bs"
    using fr_fill_extend[OF r(1)] by blast
  moreover have "fb_len b < length (fr_deref r)" using r fr_deref_exposed(1)[OF r(1)] by (simp add: fr_ok_def)
  ultimately show ?thesis using r fr_deref_exposed[OF r(1)] fr_fill_exposed[OF r(1) fits] by simp
qed

theorem fast_buf_borrow_exact_witness:
  "\<exists>r b'. fb_borrow \<lparr>fb_init = ''hexx'', fb_len = 2, fb_cap = 8\<rparr> = Ok r
    \<and> length (fr_deref r) = 8 \<and> fr_deref r ! 4 = None
    \<and> take 5 (fr_deref (fr_fill (fr_cur_len r) ''llo'' r)) = map Some ''hello''
    \<and> fr_extend (length ''llo'') (fr_fill (fr_cur_len r) ''llo'' r) = Ok b' \<and> fb_deref b' = ''hello''"
proof -
  let ?b = "\<lparr>fb_init = ''hexx'', fb_len = 2, fb_cap = 8\<rparr>"
  let ?r = "\<lparr>fr_buf = \<lparr>fb_init = ''hexx'', fb_len = 8, fb_cap = 8\<rparr>, fr_cur_len = 2\<rparr>"
  have a: "fb_ok ?b" "fb_borrow ?b = Ok ?r" "length ''llo'' \<le> fb_len (fr_buf ?r) - fr_cur_len ?r" by code_simp+
  have d: "fb_deref ?b = ''he''" by code_simp
  note ex = fast_buf_borrow_exact[OF a, unfolded d]
  have len: "length (fr_deref ?r) = 8" using ex by simp
  have none: "fr_deref ?r ! 4 = None" using ex len by simp
  from ex len none a(2) show ?thesis by (intro exI[of _ ?r]) auto
qed

text \<open>
  \<^verbatim>\<open>ensure_capacity\<close> need not ensure the capacity. It reserves the difference to the current
  capacity, which \<^verbatim>\<open>Vec::reserve\<close> counts from the length: when that difference fits into the spare room,
  the buffer stays as it is, smaller than asked for.
\<close>

theorem ensure_capacity_short:
  assumes "fb_cap b < capacity" "capacity - fb_cap b \<le> fb_cap b - fb_len b"
  shows "fb_ensure_capacity capacity b = b \<and> fb_cap (fb_ensure_capacity capacity b) < capacity"
  using assms by (simp add: fb_ensure_capacity_def vec_reserve_def)

theorem ensure_capacity_short_witness:
  "fb_cap (fb_ensure_capacity 20000 (fb_with_capacity 16384)) < 20000"
  using ensure_capacity_short[of "fb_with_capacity 16384" 20000] by simp

end
