(* ===== verification/Transport.thy ===== *)
theory Transport
  imports Prelude
begin

text \<open>
  The transport under a connection (the \<^verbatim>\<open>S: AsyncRead + AsyncWrite\<close> the user hands in) is
  not part of the crate. It enters the model as a parameter: the sequences of answers it will
  give to successive polls, over which every theorem quantifies. The contract of the two
  traits is built into how an answer is read: a read delivers at most as many bytes as the
  buffer holds, a write accepts at most the bytes it is given, an empty read of a non-empty
  buffer is the end of the stream. When the answers run out the transport is pending.
  Two locales state what the crate relies on; they are interpreted here and for every
  reader and writer built on top.
\<close>

datatype rx_event = RxPending | RxErr io_error | RxData bytes

datatype tx_event = TxPending | TxErr io_error | TxAccept nat

datatype ctl_event = CtlPending | CtlErr io_error | CtlDone

record transport =
  tr_rx :: "rx_event list"
  tr_tx :: "tx_event list"
  tr_flush :: "ctl_event list"
  tr_close :: "ctl_event list"
  tr_sent :: bytes
  tr_flushed :: nat
  tr_closed :: bool

text \<open>\<open>tr_sent\<close> logs the bytes accepted so far, \<open>tr_flushed\<close> how many of them were flushed.\<close>

fun tr_poll_read :: "nat \<Rightarrow> transport \<Rightarrow> bytes res \<times> transport" where
  "tr_poll_read n t = (case tr_rx t of
      [] \<Rightarrow> (Pending, t)
    | RxPending # es \<Rightarrow> (Pending, t\<lparr>tr_rx := es\<rparr>)
    | RxErr e # es \<Rightarrow> (Err e, t\<lparr>tr_rx := es\<rparr>)
    | RxData bs # es \<Rightarrow>
        if length bs \<le> n then (Ok bs, t\<lparr>tr_rx := es\<rparr>)
        else (Ok (take n bs), t\<lparr>tr_rx := RxData (drop n bs) # es\<rparr>))"

fun tr_poll_write :: "bytes \<Rightarrow> transport \<Rightarrow> nat res \<times> transport" where
  "tr_poll_write buf t = (case tr_tx t of
      [] \<Rightarrow> (Pending, t)
    | TxPending # es \<Rightarrow> (Pending, t\<lparr>tr_tx := es\<rparr>)
    | TxErr e # es \<Rightarrow> (Err e, t\<lparr>tr_tx := es\<rparr>)
    | TxAccept n # es \<Rightarrow>
        (Ok (min n (length buf)), t\<lparr>tr_tx := es, tr_sent := tr_sent t @ take n buf\<rparr>))"

fun tr_poll_flush :: "transport \<Rightarrow> unit res \<times> transport" where
  "tr_poll_flush t = (case tr_flush t of
      [] \<Rightarrow> (Pending, t)
    | CtlPending # es \<Rightarrow> (Pending, t\<lparr>tr_flush := es\<rparr>)
    | CtlErr e # es \<Rightarrow> (Err e, t\<lparr>tr_flush := es\<rparr>)
    | CtlDone # es \<Rightarrow> (Ok (), t\<lparr>tr_flush := es, tr_flushed := length (tr_sent t)\<rparr>))"

fun tr_poll_close :: "transport \<Rightarrow> unit res \<times> transport" where
  "tr_poll_close t = (case tr_close t of
      [] \<Rightarrow> (Pending, t)
    | CtlPending # es \<Rightarrow> (Pending, t\<lparr>tr_close := es\<rparr>)
    | CtlErr e # es \<Rightarrow> (Err e, t\<lparr>tr_close := es\<rparr>)
    | CtlDone # es \<Rightarrow> (Ok (), t\<lparr>tr_close := es, tr_closed := True\<rparr>))"

declare tr_poll_read.simps [simp del] tr_poll_write.simps [simp del]
  tr_poll_flush.simps [simp del] tr_poll_close.simps [simp del]

text \<open>The bytes still to come, and a measure that every productive read decreases.\<close>

fun rx_bytes :: "rx_event list \<Rightarrow> bytes" where
  "rx_bytes [] = []"
| "rx_bytes (RxData bs # es) = bs @ rx_bytes es"
| "rx_bytes (_ # es) = rx_bytes es"

fun rx_size :: "rx_event list \<Rightarrow> nat" where
  "rx_size [] = 0"
| "rx_size (RxData bs # es) = Suc (length bs) + rx_size es"
| "rx_size (_ # es) = Suc (rx_size es)"

lemma length_rx_bytes: "length (rx_bytes es) \<le> rx_size es"
  by (induction es rule: rx_bytes.induct) auto

section \<open>Sources of bytes\<close>

text \<open>
  What a reader of the crate promises: a read yields the next bytes of a stream that is fixed
  once and for all, a pending read changes nothing in what is still to come, and no read with
  a non-empty buffer panics.
\<close>

locale byte_source =
  fixes rd :: "nat \<Rightarrow> 's \<Rightarrow> bytes res \<times> 's"
    and stream :: "'s \<Rightarrow> bytes"
    and inv :: "'s \<Rightarrow> bool"
  assumes rd_Ok: "inv s \<Longrightarrow> 0 < n \<Longrightarrow> rd n s = (Ok bs, s') \<Longrightarrow>
      inv s' \<and> length bs \<le> n \<and> stream s = bs @ stream s'"
    and rd_Pending: "inv s \<Longrightarrow> 0 < n \<Longrightarrow> rd n s = (Pending, s') \<Longrightarrow> inv s' \<and> stream s' = stream s"
    and rd_no_panic: "inv s \<Longrightarrow> 0 < n \<Longrightarrow> rd n s \<noteq> (Panic p, s')"

text \<open>
  A task that polls a reader with buffers of the given sizes, again after each pending, and
  stops at the first error. It returns what it has read.
\<close>

fun poll_all :: "(nat \<Rightarrow> 's \<Rightarrow> bytes res \<times> 's) \<Rightarrow> nat list \<Rightarrow> 's \<Rightarrow> bytes \<times> 's" where
  "poll_all rd [] s = ([], s)"
| "poll_all rd (n # ns) s = (case rd n s of
      (Ok bs, s') \<Rightarrow> (let (bs', t) = poll_all rd ns s' in (bs @ bs', t))
    | (Pending, s') \<Rightarrow> poll_all rd ns s'
    | (_, s') \<Rightarrow> ([], s'))"

fun poll_clean :: "(nat \<Rightarrow> 's \<Rightarrow> bytes res \<times> 's) \<Rightarrow> nat list \<Rightarrow> 's \<Rightarrow> bool" where
  "poll_clean rd [] s = True"
| "poll_clean rd (n # ns) s = (case rd n s of
      (Ok bs, s') \<Rightarrow> poll_clean rd ns s'
    | (Pending, s') \<Rightarrow> poll_clean rd ns s'
    | (_, s') \<Rightarrow> False)"

context byte_source
begin

lemma rd_cases [consumes 2, case_names Ok Pending Err]:
  assumes "inv s" "0 < n"
  obtains bs s' where "rd n s = (Ok bs, s')" "inv s'" "length bs \<le> n" "stream s = bs @ stream s'"
  | s' where "rd n s = (Pending, s')" "inv s'" "stream s' = stream s"
  | e s' where "rd n s = (Err e, s')"
proof -
  obtain r s' where rs: "rd n s = (r, s')" by (cases "rd n s")
  show ?thesis
    by (cases r) (use rs that rd_Ok[OF assms] rd_Pending[OF assms] rd_no_panic[OF assms] in blast)+
qed

lemma poll_all_stream:
  "inv s \<Longrightarrow> 0 \<notin> set ns \<Longrightarrow> poll_clean rd ns s \<Longrightarrow>
    inv (snd (poll_all rd ns s)) \<and> stream s = fst (poll_all rd ns s) @ stream (snd (poll_all rd ns s))"
proof (induction ns arbitrary: s)
  case (Cons n ns)
  then have n: "0 < n" "0 \<notin> set ns" by auto
  from Cons.prems(1) n(1) show ?case
  proof (cases rule: rd_cases)
    case (Ok bs s')
    with Cons.IH[of s'] Cons.prems n show ?thesis by (simp add: split_def Let_def)
  next
    case (Pending s')
    with Cons.IH[of s'] Cons.prems n show ?thesis by simp
  next
    case (Err e s')
    with Cons.prems show ?thesis by simp
  qed
qed simp

lemma poll_all_prefix:
  "inv s \<Longrightarrow> 0 \<notin> set ns \<Longrightarrow> prefix (fst (poll_all rd ns s)) (stream s)"
proof (induction ns arbitrary: s)
  case (Cons n ns)
  then have n: "0 < n" "0 \<notin> set ns" by auto
  from Cons.prems(1) n(1) show ?case
  proof (cases rule: rd_cases)
    case (Ok bs s')
    with Cons.IH[of s'] n show ?thesis by (simp add: split_def Let_def)
  next
    case (Pending s')
    with Cons.IH[of s'] n show ?thesis by simp
  next
    case (Err e s')
    then show ?thesis by simp
  qed
qed simp

end

text \<open>
  A source that ends: under a condition on what is still to come (\<open>fine\<close>), every poll makes
  progress until the source is \<open>finished\<close>, and what follows the source on the connection
  (\<open>beyond\<close>) is never touched. Polling it often enough then yields the whole stream.
\<close>

locale draining_source = byte_source +
  fixes togo :: "'a \<Rightarrow> nat"
    and fine :: "'a \<Rightarrow> bool"
    and finished :: "'a \<Rightarrow> bool"
    and beyond :: "'a \<Rightarrow> bytes"
  assumes rd_progress: "inv s \<Longrightarrow> 0 < n \<Longrightarrow> fine s \<Longrightarrow> \<not> finished s \<Longrightarrow> rd n s = (r, s') \<Longrightarrow>
      (\<forall>e. r \<noteq> Err e) \<and> fine s' \<and> beyond s' = beyond s \<and> (finished s' \<or> togo s' < togo s)"
    and rd_finished: "inv s \<Longrightarrow> 0 < n \<Longrightarrow> finished s \<Longrightarrow> rd n s = (Ok [], s)"
    and finished_stream: "finished s \<Longrightarrow> stream s = []"
begin

lemma poll_all_finished:
  "inv s \<Longrightarrow> 0 < n \<Longrightarrow> finished s \<Longrightarrow> poll_all rd (replicate k n) s = ([], s)"
  by (induction k) (auto simp: rd_finished)

lemma poll_all_complete:
  "inv s \<Longrightarrow> 0 < n \<Longrightarrow> fine s \<Longrightarrow> togo s < k \<Longrightarrow>
    \<exists>t. poll_all rd (replicate k n) s = (stream s, t) \<and> finished t \<and> inv t \<and> beyond t = beyond s"
proof (induction k arbitrary: s)
  case (Suc k)
  show ?case
  proof (cases "finished s")
    case True
    with Suc.prems show ?thesis using poll_all_finished[of s n "Suc k"] finished_stream by auto
  next
    case False
    obtain r s1 where r: "rd n s = (r, s1)" by fastforce
    note prog = rd_progress[OF Suc.prems(1,2,3) False r]
    have rest: "\<exists>t. poll_all rd (replicate k n) s1 = (stream s1, t) \<and> finished t \<and> inv t \<and> beyond t = beyond s"
      if "inv s1"
    proof (cases "finished s1")
      case True
      with that prog Suc.prems(2) show ?thesis using poll_all_finished finished_stream by auto
    next
      case False
      with that prog Suc.prems(2,4) Suc.IH[of s1] show ?thesis by auto
    qed
    from Suc.prems(1,2) show ?thesis
    proof (cases rule: rd_cases)
      case (Ok bs s')
      with r rest show ?thesis by auto
    next
      case (Pending s')
      with r rest show ?thesis by auto
    next
      case (Err e s')
      with r prog show ?thesis by auto
    qed
  qed
qed simp

end

section \<open>Sinks of bytes\<close>

locale byte_sink =
  fixes wr :: "bytes \<Rightarrow> 's \<Rightarrow> nat res \<times> 's"
    and sent :: "'s \<Rightarrow> bytes"
  assumes wr_Ok: "wr buf s = (Ok n, s') \<Longrightarrow> n \<le> length buf \<and> sent s' = sent s @ take n buf"
    and wr_Pending: "wr buf s = (Pending, s') \<Longrightarrow> sent s' = sent s"
    and wr_Err: "wr buf s = (Err e, s') \<Longrightarrow> sent s' = sent s"
    and wr_no_panic: "wr buf s \<noteq> (Panic p, s')"
begin

lemma wr_cases:
  obtains n s' where "wr buf s = (Ok n, s')" "n \<le> length buf" "sent s' = sent s @ take n buf"
  | s' where "wr buf s = (Pending, s')" "sent s' = sent s"
  | e s' where "wr buf s = (Err e, s')" "sent s' = sent s"
proof -
  obtain r s' where rs: "wr buf s = (r, s')" by (cases "wr buf s")
  show ?thesis
    by (cases r) (use rs that wr_Ok wr_Pending wr_Err wr_no_panic in blast)+
qed

end

section \<open>The transport keeps both contracts\<close>

lemma tr_poll_read_frame:
  "tr_poll_read n t = (r, t') \<Longrightarrow>
    tr_tx t' = tr_tx t \<and> tr_flush t' = tr_flush t \<and> tr_close t' = tr_close t \<and> tr_sent t' = tr_sent t
    \<and> tr_flushed t' = tr_flushed t \<and> tr_closed t' = tr_closed t"
  by (auto simp: tr_poll_read.simps split: list.splits rx_event.splits if_splits)

lemma tr_poll_read_size:
  "tr_poll_read n t = (r, t') \<Longrightarrow> rx_size (tr_rx t') \<le> rx_size (tr_rx t)"
  "tr_poll_read n t = (Ok bs, t') \<Longrightarrow> bs \<noteq> [] \<Longrightarrow> rx_size (tr_rx t') + length bs \<le> rx_size (tr_rx t)"
  by (auto simp: tr_poll_read.simps split: list.splits rx_event.splits if_splits)

text \<open>
  A transport that neither fails nor ends in what is still to come. It stays so, and a read
  from it with a non-empty buffer either delivers something or is pending; when it is pending
  it has used up an answer, or has none left.
\<close>

fun rx_clean :: "rx_event list \<Rightarrow> bool" where
  "rx_clean [] = True"
| "rx_clean (RxPending # es) = rx_clean es"
| "rx_clean (RxErr e # es) = False"
| "rx_clean (RxData bs # es) = (bs \<noteq> [] \<and> rx_clean es)"

lemma tr_poll_read_clean:
  assumes "tr_poll_read n t = (r, t')" "0 < n" "rx_clean (tr_rx t)"
  shows "rx_clean (tr_rx t') \<and> r \<noteq> Ok [] \<and> (\<forall>e. r \<noteq> Err e)"
  using assms by (auto simp: tr_poll_read.simps split: list.splits rx_event.splits if_splits)

lemma tr_poll_read_pending:
  "tr_poll_read n t = (Pending, t') \<Longrightarrow> rx_size (tr_rx t') < rx_size (tr_rx t) \<or> tr_rx t' = []"
  by (auto simp: tr_poll_read.simps split: list.splits rx_event.splits if_splits)

lemma tr_poll_read_stream:
  "tr_poll_read n t = (Ok bs, t') \<Longrightarrow> length bs \<le> n \<and> rx_bytes (tr_rx t) = bs @ rx_bytes (tr_rx t')"
  "tr_poll_read n t = (Pending, t') \<Longrightarrow> rx_bytes (tr_rx t') = rx_bytes (tr_rx t)"
  "tr_poll_read n t = (Err e, t') \<Longrightarrow> rx_bytes (tr_rx t') = rx_bytes (tr_rx t)"
  "tr_poll_read n t \<noteq> (Panic p, t')"
  by (auto simp: tr_poll_read.simps split: list.splits rx_event.splits if_splits)

interpretation tr_source: byte_source tr_poll_read "\<lambda>t. rx_bytes (tr_rx t)" "\<lambda>_. True"
  by unfold_locales (use tr_poll_read_stream in auto)

interpretation tr_sink: byte_sink tr_poll_write tr_sent
  by unfold_locales (auto simp: tr_poll_write.simps min_def split: list.splits tx_event.splits if_splits)

lemma tr_poll_write_frame:
  "tr_poll_write b t = (r, t') \<Longrightarrow>
    tr_rx t' = tr_rx t \<and> tr_flush t' = tr_flush t \<and> tr_close t' = tr_close t
    \<and> tr_flushed t' = tr_flushed t \<and> tr_closed t' = tr_closed t"
  by (auto simp: tr_poll_write.simps split: list.splits tx_event.splits if_splits)

lemma tr_poll_write_consumes:
  "tr_poll_write b t = (Ok n, t') \<Longrightarrow> length (tr_tx t') < length (tr_tx t)"
  by (auto simp: tr_poll_write.simps split: list.splits tx_event.splits if_splits)

lemma tr_poll_flush_frame:
  "tr_poll_flush t = (r, t') \<Longrightarrow>
    tr_rx t' = tr_rx t \<and> tr_tx t' = tr_tx t \<and> tr_close t' = tr_close t \<and> tr_sent t' = tr_sent t
    \<and> tr_closed t' = tr_closed t"
  by (auto simp: tr_poll_flush.simps split: list.splits ctl_event.splits if_splits)

lemma tr_poll_flush_result:
  "tr_poll_flush t = (Ok u, t') \<Longrightarrow> tr_flushed t' = length (tr_sent t')"
  "tr_poll_flush t \<noteq> (Panic p, t')"
  by (auto simp: tr_poll_flush.simps split: list.splits ctl_event.splits)

lemma tr_poll_close_frame:
  "tr_poll_close t = (r, t') \<Longrightarrow>
    tr_rx t' = tr_rx t \<and> tr_tx t' = tr_tx t \<and> tr_flush t' = tr_flush t \<and> tr_sent t' = tr_sent t
    \<and> tr_flushed t' = tr_flushed t"
  by (auto simp: tr_poll_close.simps split: list.splits ctl_event.splits if_splits)

end
