(* ===== verification/Buf_Reader.thy ===== *)
theory Buf_Reader
  imports Fast_Buf Transport
begin

text \<open>
  \<^verbatim>\<open>src/buf_reader.rs\<close>: \<open>BufIo\<close>, the buffered connection every state of the client and the
  server reads from and writes to. Every method is modelled on the record \<open>buf_io\<close>, with the
  inner transport, the read buffer and its position, the two pending flags, the half-written
  buffer and the owed flush. Reading is shown to deliver the bytes of the transport in order
  (\<open>in_stream\<close>), writing to be all-or-nothing with respect to \<open>out_stream\<close>, and a finished
  pending write to leave the connection writable, which is what the assertions
  \<^verbatim>\<open>assert!(io.can_poll_write())\<close> in the client and the server need.
\<close>

record buf_io =
  bi_inner :: transport
  bi_buf :: fast_buf
  bi_pos :: nat
  bi_pending_rx :: bool
  bi_pending_tx :: bool
  bi_write_buf :: "consume_buf option"
  bi_need_flush :: bool

definition bi_with_capacity :: "nat \<Rightarrow> transport \<Rightarrow> buf_io" where
  "bi_with_capacity capacity inner =
     \<lparr>bi_inner = inner, bi_buf = fb_with_capacity capacity, bi_pos = 0, bi_pending_rx = False,
      bi_pending_tx = False, bi_write_buf = None, bi_need_flush = False\<rparr>"

definition ensure_read_capacity :: "nat \<Rightarrow> buf_io \<Rightarrow> buf_io" where
  "ensure_read_capacity capacity io = io\<lparr>bi_buf := fb_ensure_capacity capacity (bi_buf io)\<rparr>"

section \<open>Writing\<close>

text \<open>The loop of \<^verbatim>\<open>poll_finish_pending_write\<close> over the half-written buffer.\<close>

function finish_write_loop :: "consume_buf \<Rightarrow> buf_io \<Rightarrow> unit res \<times> buf_io" where
  "finish_write_loop cb io =
     (if cb_is_empty cb then (Ok (), io\<lparr>bi_write_buf := Some cb\<rparr>)
      else case tr_poll_write (cb_deref cb) (bi_inner io) of
        (Pending, t) \<Rightarrow>
          (Pending, io\<lparr>bi_inner := t, bi_pending_tx := True, bi_write_buf := Some cb\<rparr>)
      | (Ok amount, t) \<Rightarrow>
          (let io' = io\<lparr>bi_inner := t, bi_pending_tx := False, bi_write_buf := Some cb\<rparr> in
           pure_step (cb_consume amount cb) io' (\<lambda>cb'. finish_write_loop cb' io'))
      | (Err e, t) \<Rightarrow>
          (Err e, io\<lparr>bi_inner := t, bi_pending_tx := False, bi_write_buf := Some cb\<rparr>)
      | (Panic p, t) \<Rightarrow> (Panic p, io\<lparr>bi_inner := t, bi_write_buf := Some cb\<rparr>))"
  by pat_completeness auto
termination
  by (relation "measure (\<lambda>(cb, io). length (tr_tx (bi_inner io)))")
    (auto dest: tr_poll_write_consumes[OF sym])

declare finish_write_loop.simps [simp del]

definition finish_flush :: "buf_io \<Rightarrow> unit res \<times> buf_io" where
  "finish_flush io =
     (if bi_need_flush io then
        (case tr_poll_flush (bi_inner io) of
           (Pending, t) \<Rightarrow> (Pending, io\<lparr>bi_inner := t, bi_pending_tx := True\<rparr>)
         | (r, t) \<Rightarrow>
             ready (r, io\<lparr>bi_inner := t, bi_pending_tx := False\<rparr>)
               (\<lambda>_ io'. (Ok (), io'\<lparr>bi_need_flush := False\<rparr>)))
      else (Ok (), io))"

definition poll_finish_pending_write :: "buf_io \<Rightarrow> unit res \<times> buf_io" where
  "poll_finish_pending_write io =
     ready (case bi_write_buf io of
              Some cb \<Rightarrow> ready (finish_write_loop cb io) (\<lambda>_ io'. (Ok (), io'\<lparr>bi_write_buf := None\<rparr>))
            | None \<Rightarrow> (Ok (), io))
       (\<lambda>_ io'. finish_flush io')"

definition can_poll_write :: "buf_io \<Rightarrow> bool" where
  "can_poll_write io \<longleftrightarrow> bi_write_buf io = None \<and> \<not> bi_need_flush io \<and> \<not> bi_pending_tx io"

text \<open>The loop of \<^verbatim>\<open>poll_write_all\<close>; \<open>pos\<close> counts what has been accepted.\<close>

function write_all_loop :: "bytes \<Rightarrow> bool \<Rightarrow> nat \<Rightarrow> buf_io \<Rightarrow> unit res \<times> buf_io" where
  "write_all_loop buf flush pos io =
     (if pos = length buf then (Ok (), io)
      else case tr_poll_write (drop pos buf) (bi_inner io) of
        (Pending, t) \<Rightarrow>
          (Pending, io\<lparr>bi_inner := t, bi_pending_tx := True,
                       bi_write_buf := Some (consume_buf_new (drop pos buf)),
                       bi_need_flush := flush\<rparr>)
      | (Err e, t) \<Rightarrow> (Err e, io\<lparr>bi_inner := t, bi_pending_tx := False\<rparr>)
      | (Ok amount, t) \<Rightarrow>
          write_all_loop buf flush (pos + amount) (io\<lparr>bi_inner := t, bi_pending_tx := False\<rparr>)
      | (Panic p, t) \<Rightarrow> (Panic p, io\<lparr>bi_inner := t\<rparr>))"
  by pat_completeness auto
termination
  by (relation "measure (\<lambda>(buf, flush, pos, io). length (tr_tx (bi_inner io)))")
    (auto dest: tr_poll_write_consumes[OF sym])

declare write_all_loop.simps [simp del]

definition write_all_flush :: "bool \<Rightarrow> buf_io \<Rightarrow> unit res \<times> buf_io" where
  "write_all_flush flush io =
     (if flush then
        (case tr_poll_flush (bi_inner io) of
           (Pending, t) \<Rightarrow>
             (Pending, io\<lparr>bi_inner := t, bi_pending_tx := True, bi_need_flush := True\<rparr>)
         | (r, t) \<Rightarrow> (r, io\<lparr>bi_inner := t, bi_pending_tx := False\<rparr>))
      else (Ok (), io))"

text \<open>
  \<^verbatim>\<open>poll_write_all\<close> takes the buffer out of an \<^verbatim>\<open>Option\<close>; what is left in it is part of the
  result.
\<close>

definition poll_write_all ::
  "bytes option \<Rightarrow> bool \<Rightarrow> buf_io \<Rightarrow> unit res \<times> bytes option \<times> buf_io" where
  "poll_write_all buf flush io =
     (case poll_finish_pending_write io of
        (Ok _, io1) \<Rightarrow>
          if bi_write_buf io1 \<noteq> None then (Panic ''assertion failed: this.write_buf.is_none()'', buf, io1)
          else if bi_need_flush io1 then (Panic ''assertion failed: !this.need_flush'', buf, io1)
          else (case buf of
              None \<Rightarrow> (Ok (), None, io1)
            | Some b \<Rightarrow>
                (let (r, io2) = ready (write_all_loop b flush 0 io1) (\<lambda>_ io'. write_all_flush flush io')
                 in (r, None, io2)))
      | (r, io1) \<Rightarrow> (r, buf, io1))"

section \<open>Reading\<close>

definition unread :: "buf_io \<Rightarrow> bytes" where
  "unread io = drop (bi_pos io) (fb_deref (bi_buf io))"

definition poll_fill_buf :: "bool \<Rightarrow> buf_io \<Rightarrow> bytes res \<times> buf_io" where
  "poll_fill_buf force_append io =
     (let cur_len = fb_len (bi_buf io) in
      if cur_len = 0 \<or> force_append then
        pure_step (fb_borrow (bi_buf io)) io (\<lambda>bref.
          case tr_poll_read (fb_len (fr_buf bref) - cur_len) (bi_inner io) of
            (Pending, t) \<Rightarrow>
              (Pending, io\<lparr>bi_inner := t, bi_buf := fr_drop bref, bi_pending_rx := True\<rparr>)
          | (Err e, t) \<Rightarrow>
              (Err e, io\<lparr>bi_inner := t, bi_buf := fr_drop bref, bi_pending_rx := False\<rparr>)
          | (Ok bs, t) \<Rightarrow>
              pure_step (fr_extend (length bs) (fr_fill cur_len bs bref)) io (\<lambda>b.
                let io' = io\<lparr>bi_inner := t, bi_buf := b, bi_pending_rx := False\<rparr>
                in (Ok (unread io'), io'))
          | (Panic p, t) \<Rightarrow> (Panic p, io\<lparr>bi_inner := t\<rparr>))
      else (Ok (unread io), io))"

definition can_take_read_buf :: "buf_io \<Rightarrow> bool" where
  "can_take_read_buf io \<longleftrightarrow> bi_pos io = 0"

definition take_read_buf :: "buf_io \<Rightarrow> bytes \<times> buf_io" where
  "take_read_buf io =
     (fb_into_vec (bi_buf io),
      io\<lparr>bi_buf := fb_with_capacity (fb_cap (bi_buf io)), bi_pos := 0\<rparr>)"

definition consume :: "nat \<Rightarrow> buf_io \<Rightarrow> unit res \<times> buf_io" where
  "consume amount io =
     (let new_pos = bi_pos io + amount in
      if new_pos \<le> fb_len (bi_buf io) then
        if new_pos = fb_len (bi_buf io)
        then (Ok (), io\<lparr>bi_pos := 0, bi_buf := fb_empty (bi_buf io)\<rparr>)
        else (Ok (), io\<lparr>bi_pos := new_pos\<rparr>)
      else (Panic ''assertion failed: new_pos <= this.buf.len()'', io))"

text \<open>
  A read into a buffer of \<open>n\<close> bytes returns the bytes it put there; their number is the
  \<^verbatim>\<open>usize\<close> of the source.
\<close>

definition poll_read_buf :: "nat \<Rightarrow> buf_io \<Rightarrow> bytes res \<times> buf_io" where
  "poll_read_buf n io =
     (let has_amount = fb_len (bi_buf io) - bi_pos io in
      if has_amount > 0 then
        (let bs = take n (unread io);
             new_pos = bi_pos io + length bs
         in if new_pos = fb_len (bi_buf io)
            then (Ok bs, io\<lparr>bi_pos := 0, bi_buf := fb_empty (bi_buf io)\<rparr>)
            else (Ok bs, io\<lparr>bi_pos := new_pos\<rparr>))
      else case tr_poll_read n (bi_inner io) of
          (Pending, t) \<Rightarrow> (Pending, io\<lparr>bi_inner := t, bi_pending_rx := True\<rparr>)
        | (r, t) \<Rightarrow> (r, io\<lparr>bi_inner := t, bi_pending_rx := False\<rparr>))"

definition poll_read :: "nat \<Rightarrow> buf_io \<Rightarrow> bytes res \<times> buf_io" where
  "poll_read n io = poll_read_buf n io"

section \<open>The AsyncWrite implementation\<close>

definition poll_write :: "bytes \<Rightarrow> buf_io \<Rightarrow> nat res \<times> buf_io" where
  "poll_write buf io =
     ready (poll_finish_pending_write io) (\<lambda>_ io1.
       case tr_poll_write buf (bi_inner io1) of
         (Pending, t) \<Rightarrow> (Pending, io1\<lparr>bi_inner := t, bi_pending_tx := True\<rparr>)
       | (r, t) \<Rightarrow> (r, io1\<lparr>bi_inner := t, bi_pending_tx := False\<rparr>))"

definition poll_flush :: "buf_io \<Rightarrow> unit res \<times> buf_io" where
  "poll_flush io =
     ready (poll_finish_pending_write io) (\<lambda>_ io1.
       case tr_poll_flush (bi_inner io1) of
         (Pending, t) \<Rightarrow> (Pending, io1\<lparr>bi_inner := t, bi_pending_tx := True\<rparr>)
       | (r, t) \<Rightarrow> (r, io1\<lparr>bi_inner := t, bi_pending_tx := False\<rparr>))"

definition poll_close :: "buf_io \<Rightarrow> unit res \<times> buf_io" where
  "poll_close io =
     ready (poll_finish_pending_write io) (\<lambda>_ io1.
       case tr_poll_close (bi_inner io1) of
         (Pending, t) \<Rightarrow> (Pending, io1\<lparr>bi_inner := t, bi_pending_tx := True\<rparr>)
       | (r, t) \<Rightarrow> (r, io1\<lparr>bi_inner := t, bi_pending_tx := False\<rparr>))"

section \<open>Streams and invariants\<close>

text \<open>What is still to be read, and what has been handed to the connection for writing.\<close>

definition in_stream :: "buf_io \<Rightarrow> bytes" where
  "in_stream io = unread io @ rx_bytes (tr_rx (bi_inner io))"

definition pending_bytes :: "buf_io \<Rightarrow> bytes" where
  "pending_bytes io = (case bi_write_buf io of None \<Rightarrow> [] | Some cb \<Rightarrow> cb_deref cb)"

definition out_stream :: "buf_io \<Rightarrow> bytes" where
  "out_stream io = tr_sent (bi_inner io) @ pending_bytes io"

definition io_size :: "buf_io \<Rightarrow> nat" where
  "io_size io = length (unread io) + rx_size (tr_rx (bi_inner io))"

definition rx_ok :: "buf_io \<Rightarrow> bool" where
  "rx_ok io \<longleftrightarrow> fb_ok (bi_buf io) \<and> 0 < fb_cap (bi_buf io)
     \<and> (bi_pos io < fb_len (bi_buf io) \<or> bi_pos io = 0 \<and> fb_len (bi_buf io) = 0)"

definition tx_ok :: "buf_io \<Rightarrow> bool" where
  "tx_ok io \<longleftrightarrow>
     (case bi_write_buf io of None \<Rightarrow> True | Some cb \<Rightarrow> cb_ok cb \<and> cb_deref cb \<noteq> [])
     \<and> (bi_pending_tx io \<longrightarrow> bi_write_buf io \<noteq> None \<or> bi_need_flush io)"

text \<open>The parts of the connection that writing leaves alone, and those reading leaves alone.\<close>

definition same_rx :: "buf_io \<Rightarrow> buf_io \<Rightarrow> bool" where
  "same_rx io io' \<longleftrightarrow> bi_buf io' = bi_buf io \<and> bi_pos io' = bi_pos io
     \<and> bi_pending_rx io' = bi_pending_rx io \<and> tr_rx (bi_inner io') = tr_rx (bi_inner io)"

definition same_tx :: "buf_io \<Rightarrow> buf_io \<Rightarrow> bool" where
  "same_tx io io' \<longleftrightarrow> bi_write_buf io' = bi_write_buf io \<and> bi_need_flush io' = bi_need_flush io
     \<and> bi_pending_tx io' = bi_pending_tx io \<and> tr_tx (bi_inner io') = tr_tx (bi_inner io)
     \<and> tr_flush (bi_inner io') = tr_flush (bi_inner io) \<and> tr_sent (bi_inner io') = tr_sent (bi_inner io)
     \<and> tr_flushed (bi_inner io') = tr_flushed (bi_inner io)"

lemma same_rx_refl [simp]: "same_rx io io" by (simp add: same_rx_def)
lemma same_tx_refl [simp]: "same_tx io io" by (simp add: same_tx_def)

lemma same_rx_trans: "same_rx a b \<Longrightarrow> same_rx b c \<Longrightarrow> same_rx a c"
  by (simp add: same_rx_def)

lemma same_tx_trans: "same_tx a b \<Longrightarrow> same_tx b c \<Longrightarrow> same_tx a c"
  by (simp add: same_tx_def)

lemma same_rxD:
  "same_rx io io' \<Longrightarrow> in_stream io' = in_stream io" "same_rx io io' \<Longrightarrow> rx_ok io' = rx_ok io"
  "same_rx io io' \<Longrightarrow> unread io' = unread io" "same_rx io io' \<Longrightarrow> io_size io' = io_size io"
  by (simp_all add: same_rx_def in_stream_def rx_ok_def unread_def io_size_def)

lemma same_txD:
  "same_tx io io' \<Longrightarrow> out_stream io' = out_stream io" "same_tx io io' \<Longrightarrow> tx_ok io' = tx_ok io"
  "same_tx io io' \<Longrightarrow> can_poll_write io' = can_poll_write io"
  by (simp_all add: same_tx_def out_stream_def pending_bytes_def tx_ok_def can_poll_write_def)

lemma rx_ok_pos: "rx_ok io \<Longrightarrow> bi_pos io \<le> fb_len (bi_buf io)"
  by (auto simp: rx_ok_def)

lemma length_unread: "rx_ok io \<Longrightarrow> length (unread io) = fb_len (bi_buf io) - bi_pos io"
  by (auto simp: unread_def rx_ok_def)

lemma with_capacity_ok [simp]:
  assumes "0 < n"
  shows "rx_ok (bi_with_capacity n t)" "tx_ok (bi_with_capacity n t)"
    "in_stream (bi_with_capacity n t) = rx_bytes (tr_rx t)"
    "out_stream (bi_with_capacity n t) = tr_sent t" "can_poll_write (bi_with_capacity n t)"
  using assms
  by (simp_all add: bi_with_capacity_def rx_ok_def tx_ok_def in_stream_def unread_def
      out_stream_def pending_bytes_def can_poll_write_def)

section \<open>Writing is all or nothing\<close>

lemma finish_write_loop_spec:
  assumes "cb_ok cb" "finish_write_loop cb io = (r, io')"
  shows "same_rx io io' \<and> bi_need_flush io' = bi_need_flush io
    \<and> tr_flushed (bi_inner io') = tr_flushed (bi_inner io)
    \<and> (\<forall>p. r \<noteq> Panic p)
    \<and> (\<exists>cb'. bi_write_buf io' = Some cb' \<and> cb_ok cb'
         \<and> tr_sent (bi_inner io') @ cb_deref cb' = tr_sent (bi_inner io) @ cb_deref cb
         \<and> (cb_deref cb' = [] \<longleftrightarrow> r = Ok ()))
    \<and> (r = Pending \<longrightarrow> bi_pending_tx io') \<and> (\<forall>e. r = Err e \<longrightarrow> \<not> bi_pending_tx io')
    \<and> (r = Ok () \<longrightarrow> cb_deref cb \<noteq> [] \<longrightarrow> \<not> bi_pending_tx io')"
  using assms
proof (induction cb io arbitrary: r io' rule: finish_write_loop.induct)
  case (1 cb io)
  show ?case
  proof (cases "cb_is_empty cb")
    case True
    with "1.prems" show ?thesis
      by (auto simp: finish_write_loop.simps[of cb io] cb_is_empty_iff same_rx_def)
  next
    case False
    then have ne: "cb_deref cb \<noteq> []" by (simp add: cb_is_empty_iff)
    show ?thesis
    proof (cases rule: tr_sink.wr_cases[of "cb_deref cb" "bi_inner io"])
      case (1 n t)
      let ?io = "io\<lparr>bi_inner := t, bi_pending_tx := False, bi_write_buf := Some cb\<rparr>"
      obtain cb1 where cb1: "cb_consume n cb = Ok cb1" "cb_ok cb1" "cb_deref cb1 = drop n (cb_deref cb)"
        using cb_consume_Ok[OF "1.prems"(1), of n] 1 by auto
      have eq: "finish_write_loop cb1 ?io = (r, io')"
        using "1.prems"(2) False 1 cb1 by (simp add: finish_write_loop.simps[of cb io])
      note IH = "1.IH"[OF False 1(1)[symmetric] refl refl cb1(1,2) eq]
      have "r = Ok () \<Longrightarrow> \<not> bi_pending_tx io'"
        using IH eq by (cases "cb_deref cb1 = []") (auto simp: finish_write_loop.simps[of cb1] cb_is_empty_iff)
      with IH 1 cb1 tr_poll_write_frame[OF 1(1)] show ?thesis
        by (auto simp: same_rx_def)
    next
      case (2 t)
      with "1.prems" False ne tr_poll_write_frame[OF 2(1)] show ?thesis
        by (auto simp: finish_write_loop.simps[of cb io] same_rx_def)
    next
      case (3 e t)
      with "1.prems" False ne tr_poll_write_frame[OF 3(1)] show ?thesis
        by (auto simp: finish_write_loop.simps[of cb io] same_rx_def)
    qed
  qed
qed

lemma finish_flush_spec:
  assumes "finish_flush io = (r, io')"
  shows "same_rx io io' \<and> bi_write_buf io' = bi_write_buf io
    \<and> tr_sent (bi_inner io') = tr_sent (bi_inner io) \<and> (\<forall>p. r \<noteq> Panic p)
    \<and> (r = Ok () \<longrightarrow> \<not> bi_need_flush io'
         \<and> (bi_need_flush io \<longrightarrow> \<not> bi_pending_tx io' \<and> tr_flushed (bi_inner io') = length (tr_sent (bi_inner io')))
         \<and> (\<not> bi_need_flush io \<longrightarrow> io' = io))
    \<and> (r = Pending \<longrightarrow> bi_need_flush io' \<and> bi_pending_tx io')
    \<and> (\<forall>e. r = Err e \<longrightarrow> bi_need_flush io' \<and> \<not> bi_pending_tx io')"
proof (cases "bi_need_flush io")
  case True
  obtain q t where qt: "tr_poll_flush (bi_inner io) = (q, t)" by fastforce
  with assms True tr_poll_flush_frame[OF qt] tr_poll_flush_result[of "bi_inner io"] show ?thesis
    by (cases q) (auto simp: finish_flush_def same_rx_def)
qed (use assms in \<open>auto simp: finish_flush_def\<close>)

lemma poll_finish_pending_write_spec:
  assumes "tx_ok io" "poll_finish_pending_write io = (r, io')"
  shows "same_rx io io' \<and> tx_ok io' \<and> out_stream io' = out_stream io \<and> (\<forall>p. r \<noteq> Panic p)
    \<and> (r = Ok () \<longrightarrow> can_poll_write io' \<and> pending_bytes io' = []
         \<and> (bi_need_flush io \<longrightarrow> tr_flushed (bi_inner io') = length (out_stream io')))"
proof (cases "bi_write_buf io")
  case None
  with assms finish_flush_spec[of io r io'] show ?thesis
    by (cases r) (auto simp: poll_finish_pending_write_def tx_ok_def out_stream_def pending_bytes_def
        can_poll_write_def)
next
  case (Some cb)
  with assms have cb: "cb_ok cb" "cb_deref cb \<noteq> []" by (auto simp: tx_ok_def)
  obtain q io1 where q: "finish_write_loop cb io = (q, io1)" by fastforce
  note loop = finish_write_loop_spec[OF cb(1) q]
  show ?thesis
  proof (cases "q = Ok ()")
    case True
    let ?io = "io1\<lparr>bi_write_buf := None\<rparr>"
    have ff: "finish_flush ?io = (r, io')"
      using assms Some q True by (simp add: poll_finish_pending_write_def)
    have sent: "tr_sent (bi_inner io1) = tr_sent (bi_inner io) @ cb_deref cb"
      and np: "\<not> bi_pending_tx io1" and rx: "same_rx io io1" using loop True cb by auto
    from rx have "same_rx io ?io" by (simp add: same_rx_def)
    with finish_flush_spec[OF ff] loop sent np Some show ?thesis
      by (cases r) (auto simp: tx_ok_def out_stream_def pending_bytes_def can_poll_write_def
          intro: same_rx_trans)
  next
    case False
    then have "r = q" "io' = io1"
      using assms Some q by (cases q; simp add: poll_finish_pending_write_def)+
    with loop False Some show ?thesis
      by (cases q) (auto simp: tx_ok_def out_stream_def pending_bytes_def)
  qed
qed

lemma poll_finish_idle [io_simps]: "can_poll_write io \<Longrightarrow> poll_finish_pending_write io = (Ok (), io)"
  by (simp add: can_poll_write_def poll_finish_pending_write_def finish_flush_def)

lemma write_all_loop_spec:
  assumes "pos \<le> length buf" "bi_write_buf io = None" "\<not> bi_pending_tx io"
    "write_all_loop buf flush pos io = (r, io')"
  shows "same_rx io io' \<and> (\<forall>p. r \<noteq> Panic p) \<and> tr_flushed (bi_inner io') = tr_flushed (bi_inner io)
    \<and> (r = Ok () \<longrightarrow> bi_write_buf io' = None \<and> bi_need_flush io' = bi_need_flush io
         \<and> \<not> bi_pending_tx io' \<and> tr_sent (bi_inner io') = tr_sent (bi_inner io) @ drop pos buf)
    \<and> (r = Pending \<longrightarrow> (\<exists>cb. bi_write_buf io' = Some cb \<and> cb_ok cb \<and> cb_deref cb \<noteq> []
         \<and> bi_need_flush io' = flush \<and> bi_pending_tx io'
         \<and> tr_sent (bi_inner io') @ cb_deref cb = tr_sent (bi_inner io) @ drop pos buf))
    \<and> (\<forall>e. r = Err e \<longrightarrow> bi_write_buf io' = None \<and> bi_need_flush io' = bi_need_flush io
         \<and> \<not> bi_pending_tx io'
         \<and> prefix (tr_sent (bi_inner io)) (tr_sent (bi_inner io'))
         \<and> prefix (tr_sent (bi_inner io')) (tr_sent (bi_inner io) @ drop pos buf))"
  using assms
proof (induction buf flush pos io arbitrary: r io' rule: write_all_loop.induct)
  case (1 buf flush pos io)
  show ?case
  proof (cases "pos = length buf")
    case True
    with "1.prems" show ?thesis by (auto simp: write_all_loop.simps[of buf flush "length buf" io])
  next
    case False
    with "1.prems" have lt: "pos < length buf" by simp
    show ?thesis
    proof (cases rule: tr_sink.wr_cases[of "drop pos buf" "bi_inner io"])
      case (1 n t)
      let ?io = "io\<lparr>bi_inner := t, bi_pending_tx := False\<rparr>"
      have eq: "write_all_loop buf flush (pos + n) ?io = (r, io')"
        using "1.prems" False 1 by (simp add: write_all_loop.simps[of buf flush pos io])
      have split: "tr_sent t @ drop (pos + n) buf = tr_sent (bi_inner io) @ drop pos buf"
        using 1(3) by (metis append.assoc append_take_drop_id drop_drop add.commute)
      have "pos + n \<le> length buf" using 1 lt by simp
      from "1.IH"[OF False 1(1)[symmetric] refl this _ _ eq] "1.prems"(2) split
        tr_poll_write_frame[OF 1(1)] 1(3)
      show ?thesis by (auto simp: same_rx_def intro: append_prefixD)
    next
      case (2 t)
      with "1.prems" False lt tr_poll_write_frame[OF 2(1)] show ?thesis
        by (auto simp: write_all_loop.simps[of buf flush pos io] same_rx_def)
    next
      case (3 e t)
      with "1.prems" False tr_poll_write_frame[OF 3(1)] show ?thesis
        by (auto simp: write_all_loop.simps[of buf flush pos io] same_rx_def)
    qed
  qed
qed

lemma write_all_flush_spec:
  assumes "write_all_flush flush io = (r, io')" "can_poll_write io"
  shows "same_rx io io' \<and> tr_sent (bi_inner io') = tr_sent (bi_inner io) \<and> bi_write_buf io' = None
    \<and> tx_ok io' \<and> (\<forall>p. r \<noteq> Panic p)
    \<and> (r = Ok () \<longrightarrow> can_poll_write io'
         \<and> (flush \<longrightarrow> tr_flushed (bi_inner io') = length (tr_sent (bi_inner io'))))"
proof (cases flush)
  case True
  obtain q t where qt: "tr_poll_flush (bi_inner io) = (q, t)" by fastforce
  with assms True tr_poll_flush_frame[OF qt] tr_poll_flush_result[of "bi_inner io"] show ?thesis
    by (cases q) (auto simp: write_all_flush_def same_rx_def tx_ok_def can_poll_write_def)
qed (use assms in \<open>auto simp: write_all_flush_def tx_ok_def can_poll_write_def\<close>)

text \<open>
  The contract of \<open>poll_write_all\<close>: either the buffer is refused and the connection's output
  is unchanged, or it is taken, and then (short of an error of the transport) all of it follows
  what was handed over before, even if only a part has left yet.
\<close>

lemma poll_write_all_spec:
  assumes "tx_ok io" "poll_write_all (Some b) flush io = (r, rest, io')"
  shows "same_rx io io' \<and> tx_ok io' \<and> (\<forall>p. r \<noteq> Panic p)
    \<and> (rest = Some b \<and> r \<noteq> Ok () \<and> out_stream io' = out_stream io \<and> \<not> can_poll_write io
       \<or> rest = None \<and> prefix (out_stream io) (out_stream io')
          \<and> (r = Ok () \<or> r = Pending \<longrightarrow> out_stream io' = out_stream io @ b)
          \<and> (\<forall>e. r = Err e \<longrightarrow> prefix (out_stream io') (out_stream io @ b)))
    \<and> (r = Ok () \<longrightarrow> can_poll_write io'
         \<and> (flush \<longrightarrow> tr_flushed (bi_inner io') = length (out_stream io')))"
proof -
  obtain q io1 where q: "poll_finish_pending_write io = (q, io1)" by fastforce
  note fin = poll_finish_pending_write_spec[OF assms(1) q]
  have busy: "\<not> can_poll_write io" if "q \<noteq> Ok ()"
    using that q poll_finish_idle[of io] by auto
  show ?thesis
  proof (cases "q = Ok ()")
    case False
    then have "r = q" "rest = Some b" "io' = io1"
      using assms q by (cases q; simp add: poll_write_all_def)+
    with fin False busy show ?thesis by auto
  next
    case True
    with fin have cpw: "can_poll_write io1" and out1: "out_stream io1 = tr_sent (bi_inner io1)"
      by (auto simp: out_stream_def)
    then have io1: "bi_write_buf io1 = None" "\<not> bi_need_flush io1" "\<not> bi_pending_tx io1"
      by (auto simp: can_poll_write_def)
    obtain w io2 where w: "write_all_loop b flush 0 io1 = (w, io2)" by fastforce
    note loop = write_all_loop_spec[OF _ io1(1,3) w, simplified]
    have eq: "rest = None" "ready (w, io2) (\<lambda>_ io'. write_all_flush flush io') = (r, io')"
      using assms q True io1 w by (auto simp: poll_write_all_def split: prod.splits)
    have out: "prefix (out_stream io1) (out_stream io')
        \<and> (r = Ok () \<or> r = Pending \<longrightarrow> out_stream io' = out_stream io1 @ b)
        \<and> (\<forall>e. r = Err e \<longrightarrow> prefix (out_stream io') (out_stream io1 @ b))
        \<and> same_rx io1 io' \<and> tx_ok io' \<and> (\<forall>p. r \<noteq> Panic p)
        \<and> (r = Ok () \<longrightarrow> can_poll_write io'
             \<and> (flush \<longrightarrow> tr_flushed (bi_inner io') = length (out_stream io')))"
    proof (cases w)
      case (Ok u)
      with loop io1 have c2: "can_poll_write io2" and s2: "tr_sent (bi_inner io2) = out_stream io1 @ b"
        and rx: "same_rx io1 io2"
        by (auto simp: can_poll_write_def out1)
      from eq Ok have "write_all_flush flush io2 = (r, io')" by simp
      from write_all_flush_spec[OF this c2] s2 rx show ?thesis
        by (auto simp: out_stream_def pending_bytes_def intro: same_rx_trans)
    next
      case (Err e)
      with eq loop io1 out1 show ?thesis
        by (auto simp: out_stream_def pending_bytes_def tx_ok_def)
    next
      case Pending
      with eq loop io1 out1 show ?thesis
        by (auto simp: out_stream_def pending_bytes_def tx_ok_def prefix_def)
    next
      case (Panic p)
      with loop show ?thesis by simp
    qed
    with fin eq show ?thesis by (auto intro: same_rx_trans)
  qed
qed

section \<open>What a pending write waits for\<close>

text \<open>A write or a flush that is pending has left the flag that says so, and waits for the transport.\<close>

lemma finish_write_loop_waits: "finish_write_loop cb io = (Pending, io') \<Longrightarrow> bi_pending_tx io'"
proof (induction cb io rule: finish_write_loop.induct)
  case (1 cb io)
  obtain q t where q: "tr_poll_write (cb_deref cb) (bi_inner io) = (q, t)" by fastforce
  show ?case
  proof (cases q)
    case (Ok amount)
    with "1.prems" q "1.IH"[OF _ q[symmetric, unfolded Ok] refl] show ?thesis
      by (cases "cb_consume amount cb") (auto simp: finish_write_loop.simps[of cb io] cb_consume_def Let_def split: if_splits)
  qed (use "1.prems" q in \<open>auto simp: finish_write_loop.simps[of cb io] split: if_splits\<close>)
qed

lemma finish_flush_waits: "finish_flush io = (Pending, io') \<Longrightarrow> bi_pending_tx io'"
  using tr_poll_flush_result(2)[of "bi_inner io"]
  by (auto simp: finish_flush_def split: if_splits res.splits prod.splits)

lemma poll_finish_waits:
  assumes "poll_finish_pending_write io = (Pending, io')"
  shows "bi_pending_tx io'"
proof (cases "bi_write_buf io")
  case None
  with assms finish_flush_waits show ?thesis by (simp add: poll_finish_pending_write_def)
next
  case (Some cb)
  obtain q io1 where q: "finish_write_loop cb io = (q, io1)" by fastforce
  with assms Some finish_write_loop_waits[of cb io io1] finish_flush_waits[of "io1\<lparr>bi_write_buf := None\<rparr>" io'] show ?thesis
    by (cases q) (auto simp: poll_finish_pending_write_def)
qed

lemma write_all_loop_waits: "write_all_loop b flush pos io = (Pending, io') \<Longrightarrow> bi_pending_tx io'"
proof (induction b flush pos io rule: write_all_loop.induct)
  case (1 b flush pos io)
  obtain q t where q: "tr_poll_write (drop pos b) (bi_inner io) = (q, t)" by fastforce
  show ?case
  proof (cases q)
    case (Ok amount)
    with "1.prems" q "1.IH"[OF _ q[symmetric, unfolded Ok] refl] show ?thesis
      by (auto simp: write_all_loop.simps[of b flush pos io] split: if_splits)
  qed (use "1.prems" q in \<open>auto simp: write_all_loop.simps[of b flush pos io] split: if_splits\<close>)
qed

lemma write_all_flush_waits: "write_all_flush flush io = (Pending, io') \<Longrightarrow> bi_pending_tx io'"
  by (auto simp: write_all_flush_def split: if_splits res.splits prod.splits)

lemma poll_write_all_waits:
  assumes "poll_write_all (Some b) flush io = (Pending, rest, io')"
  shows "bi_pending_tx io'"
proof -
  obtain q io1 where q: "poll_finish_pending_write io = (q, io1)" by fastforce
  obtain r io2 where r: "write_all_loop b flush 0 io1 = (r, io2)" by fastforce
  show ?thesis
  proof (cases q)
    case (Ok u)
    with assms q r have "ready (r, io2) (\<lambda>_ io'. write_all_flush flush io') = (Pending, io')"
      by (auto simp: poll_write_all_def split: prod.splits if_splits)
    with write_all_loop_waits[of b flush 0 io1 io2] write_all_flush_waits r show ?thesis by (cases r) auto
  qed (use assms q poll_finish_waits in \<open>auto simp: poll_write_all_def\<close>)
qed

text \<open>On a connection with nothing pending the buffer is always taken.\<close>

lemma poll_write_all_idle:
  assumes "tx_ok io" "can_poll_write io" "poll_write_all (Some b) flush io = (r, rest, io')"
  shows "rest = None" "same_rx io io'" "tx_ok io'" "r \<noteq> Panic p" "r = Ok () \<Longrightarrow> can_poll_write io'"
    "r = Pending \<Longrightarrow> bi_pending_tx io'" "r = Ok () \<or> r = Pending \<Longrightarrow> out_stream io' = out_stream io @ b"
    "prefix (out_stream io) (out_stream io')" "r = Err e \<Longrightarrow> prefix (out_stream io') (out_stream io @ b)"
  using poll_write_all_spec[OF assms(1,3)] poll_write_all_waits[of b flush io rest io'] assms(2,3) by auto

section \<open>Reading delivers the stream in order\<close>

lemma unread_empty [simp]: "unread (io\<lparr>bi_pos := 0, bi_buf := fb_empty b\<rparr>) = []"
  by (simp add: unread_def)

lemma unread_nil_iff: "rx_ok io \<Longrightarrow> unread io = [] \<longleftrightarrow> fb_len (bi_buf io) - bi_pos io = 0"
  by (metis length_0_conv length_unread)

lemma poll_read_buf_spec:
  assumes "rx_ok io" "poll_read_buf n io = (r, io')"
  shows "rx_ok io' \<and> same_tx io io' \<and> (\<forall>p. r \<noteq> Panic p)
    \<and> (\<forall>bs. r = Ok bs \<longrightarrow> length bs \<le> n \<and> in_stream io = bs @ in_stream io')
    \<and> (r = Pending \<longrightarrow> in_stream io' = in_stream io \<and> bi_pending_rx io')
    \<and> (\<forall>e. r = Err e \<longrightarrow> in_stream io' = in_stream io)
    \<and> fb_cap (bi_buf io') = fb_cap (bi_buf io)"
proof (cases "unread io = []")
  case True
  then have no: "fb_len (bi_buf io) - bi_pos io = 0" using assms(1) by (simp add: unread_nil_iff)
  obtain q t where q: "tr_poll_read n (bi_inner io) = (q, t)" by fastforce
  let ?io = "\<lambda>p. io\<lparr>bi_inner := t, bi_pending_rx := p\<rparr>"
  have "poll_read_buf n io = (q, ?io (q = Pending))"
    using q by (cases q) (simp_all add: poll_read_buf_def no)
  with assms(2) have io': "r = q" "io' = ?io (q = Pending)" by auto
  have frame: "rx_ok (?io p)" "same_tx io (?io p)" "in_stream (?io p) = rx_bytes (tr_rx t)" for p
    using tr_poll_read_frame[OF q] assms(1) True by (auto simp: rx_ok_def same_tx_def in_stream_def unread_def fb_deref_def)
  have "in_stream io = rx_bytes (tr_rx (bi_inner io))" using True by (simp add: in_stream_def)
  with io' frame q show ?thesis
    by (cases q) (auto dest: tr_poll_read_stream(1-3) simp: tr_poll_read_stream(4))
next
  case False
  then have has: "0 < fb_len (bi_buf io) - bi_pos io" using assms(1) by (auto simp: unread_nil_iff)
  let ?bs = "take n (unread io)"
  have r: "r = Ok ?bs" using assms has by (auto simp: poll_read_buf_def Let_def split: if_splits)
  show ?thesis
  proof (cases "bi_pos io + length ?bs = fb_len (bi_buf io)")
    case True
    then have "io' = io\<lparr>bi_pos := 0, bi_buf := fb_empty (bi_buf io)\<rparr>" "?bs = unread io"
      using assms has by (auto simp: poll_read_buf_def Let_def length_unread min_def split: if_splits)
    with r assms(1) show ?thesis by (auto simp: rx_ok_def same_tx_def in_stream_def)
  next
    case ne: False
    then have io': "io' = io\<lparr>bi_pos := bi_pos io + length ?bs\<rparr>"
      using assms has by (auto simp: poll_read_buf_def Let_def split: if_splits)
    have "unread io = ?bs @ drop (length ?bs) (unread io)"
      by (metis append_take_drop_id length_take min.commute take_all_iff min_def append_eq_conv_conj)
    then have "unread io = ?bs @ unread io'"
      by (simp add: io' unread_def add.commute)
    moreover have "bi_pos io + length ?bs < fb_len (bi_buf io)"
      using ne assms(1) has length_unread[OF assms(1)] by auto
    ultimately show ?thesis using r assms(1) io'
      by (auto simp: rx_ok_def same_tx_def in_stream_def)
  qed
qed

interpretation bi_source: byte_source poll_read in_stream rx_ok
  by unfold_locales (auto dest: poll_read_buf_spec simp: poll_read_def)

lemma poll_fill_buf_spec:
  assumes "rx_ok io" "poll_fill_buf force io = (r, io')"
  shows "same_tx io io'
    \<and> (\<forall>bs. r = Ok bs \<longrightarrow> rx_ok io' \<and> bs = unread io' \<and> in_stream io' = in_stream io
          \<and> prefix (unread io) bs)
    \<and> (r = Pending \<longrightarrow> rx_ok io' \<and> in_stream io' = in_stream io \<and> unread io' = unread io \<and> bi_pending_rx io')
    \<and> (\<forall>e. r = Err e \<longrightarrow> rx_ok io' \<and> in_stream io' = in_stream io \<and> unread io' = unread io)
    \<and> ((\<exists>p. r = Panic p) \<longrightarrow> fb_len (bi_buf io) = fb_cap (bi_buf io) \<and> MAX_CAPACITY \<le> fb_cap (bi_buf io))"
proof (cases "fb_len (bi_buf io) = 0 \<or> force")
  case False
  with assms show ?thesis by (auto simp: poll_fill_buf_def Let_def)
next
  case True
  let ?len = "fb_len (bi_buf io)"
  have ok: "fb_ok (bi_buf io)" "0 < fb_cap (bi_buf io)" using assms by (auto simp: rx_ok_def)
  show ?thesis
  proof (cases "fb_borrow (bi_buf io)")
    case (Ok br)
    note br = fb_borrow_OkD[OF Ok ok(1)]
    obtain q t where q: "tr_poll_read (fb_len (fr_buf br) - ?len) (bi_inner io) = (q, t)" by fastforce
    note fr = tr_poll_read_frame[OF q] and st = tr_poll_read_stream[of "fb_len (fr_buf br) - ?len" "bi_inner io"]
    have same: "rx_ok (io\<lparr>bi_inner := t, bi_buf := fr_drop br, bi_pending_rx := p\<rparr>)
        \<and> unread (io\<lparr>bi_inner := t, bi_buf := fr_drop br, bi_pending_rx := p\<rparr>) = unread io" for p
      using br assms(1) by (auto simp: rx_ok_def unread_def)
    show ?thesis
    proof (cases q)
      case (Ok bs)
      then have "fr_cur_len br + length bs \<le> fb_len (fr_buf br)" using st(1) q br by auto
      then obtain b where b: "fr_extend (length bs) (fr_fill ?len bs br) = Ok b" "fb_ok b"
        "fb_deref b = fr_bytes br @ bs" "fb_cap b = fb_cap (fr_buf br)"
        using fr_fill_extend[OF br(1)] br(3) by metis
      let ?io = "io\<lparr>bi_inner := t, bi_buf := b, bi_pending_rx := False\<rparr>"
      have r: "r = Ok (unread ?io)" "io' = ?io"
        using assms True \<open>fb_borrow _ = _\<close> q Ok b by (auto simp: poll_fill_buf_def Let_def)
      have un: "unread ?io = unread io @ bs"
        using b br rx_ok_pos[OF assms(1)] ok(1) by (simp add: unread_def)
      moreover have "rx_ok ?io"
        using b br assms(1) length_fb_deref[OF b(2)] ok by (auto simp: rx_ok_def)
      ultimately show ?thesis using r fr st(1) q Ok
        by (auto simp: same_tx_def in_stream_def)
    next
      case Pending
      then show ?thesis using assms True \<open>fb_borrow _ = _\<close> q same fr st(2)
        by (auto simp: poll_fill_buf_def Let_def same_tx_def in_stream_def)
    next
      case (Err e)
      then show ?thesis using assms True \<open>fb_borrow _ = _\<close> q same fr st(3)
        by (auto simp: poll_fill_buf_def Let_def same_tx_def in_stream_def)
    next
      case (Panic p)
      then show ?thesis using q st(4) by simp
    qed
  next
    case (Panic p)
    then have "?len = fb_cap (bi_buf io)" "MAX_CAPACITY \<le> fb_cap (bi_buf io)"
      using fb_borrow_Ok[OF ok] by (metis not_less le_less fb_ok_def le_trans ok(1) res.distinct(5))+
    with Panic assms True show ?thesis by (auto simp: poll_fill_buf_def Let_def)
  qed auto
qed

lemma consume_spec:
  assumes "rx_ok io" "n \<le> length (unread io)"
  obtains io' where "consume n io = (Ok (), io')" "rx_ok io'" "same_tx io io'"
    "in_stream io' = drop n (in_stream io)" "unread io' = drop n (unread io)"
proof (cases "bi_pos io + n = fb_len (bi_buf io)")
  case True
  then have "n = length (unread io)" using assms length_unread by fastforce
  with True assms(1) show ?thesis
    by (intro that[of "io\<lparr>bi_pos := 0, bi_buf := fb_empty (bi_buf io)\<rparr>"])
      (auto simp: consume_def rx_ok_def same_tx_def in_stream_def Let_def)
next
  case False
  then have "bi_pos io + n < fb_len (bi_buf io)"
    using assms length_unread[OF assms(1)] rx_ok_pos[OF assms(1)] by linarith
  with False assms show ?thesis
    by (intro that[of "io\<lparr>bi_pos := bi_pos io + n\<rparr>"])
      (auto simp: consume_def rx_ok_def same_tx_def in_stream_def Let_def unread_def add.commute)
qed

lemma take_read_buf_spec:
  assumes "rx_ok io" "can_take_read_buf io" "take_read_buf io = (bs, io')"
  shows "rx_ok io'" "same_tx io io'" "in_stream io = bs @ in_stream io'" "bs = unread io" "unread io' = []"
  using assms
  by (auto simp: take_read_buf_def can_take_read_buf_def rx_ok_def same_tx_def in_stream_def unread_def
      fb_into_vec_def)

lemma ensure_read_capacity_spec:
  assumes "rx_ok io"
  shows "rx_ok (ensure_read_capacity n io)" "same_tx io (ensure_read_capacity n io)"
    "in_stream (ensure_read_capacity n io) = in_stream io" "unread (ensure_read_capacity n io) = unread io"
  using assms fb_ensure_capacity_ok[of "bi_buf io" n]
  by (auto simp: ensure_read_capacity_def rx_ok_def same_tx_def in_stream_def unread_def
      dest: less_le_trans)

text \<open>A read that delivers something makes the remaining input smaller.\<close>

lemma poll_read_size:
  assumes "poll_read n io = (Ok bs, io')" "bs \<noteq> []"
  shows "io_size io' < io_size io"
proof (cases "fb_len (bi_buf io) - bi_pos io = 0")
  case True
  obtain q t where q: "tr_poll_read n (bi_inner io) = (q, t)" by fastforce
  have "poll_read n io = (q, io\<lparr>bi_inner := t, bi_pending_rx := (q = Pending)\<rparr>)"
    using q by (cases q) (simp_all add: poll_read_def poll_read_buf_def True)
  with assms(1) have "q = Ok bs" "io' = io\<lparr>bi_inner := t, bi_pending_rx := False\<rparr>" by auto
  with q assms(2) tr_poll_read_size(2)[of n "bi_inner io" bs t] show ?thesis
    by (cases bs) (auto simp: io_size_def unread_def)
next
  case False
  then have io': "bi_inner io' = bi_inner io" "bs = take n (unread io)"
    "unread io' = [] \<or> unread io' = drop (length bs) (unread io)"
    using assms(1) by (auto simp: poll_read_def poll_read_buf_def Let_def unread_def add.commute split: if_splits)
  moreover from io'(2) assms(2) have "0 < length bs" "0 < length (unread io)" by auto
  ultimately show ?thesis by (auto simp: io_size_def)
qed

definition io_clean :: "buf_io \<Rightarrow> bool" where
  "io_clean io \<longleftrightarrow> rx_clean (tr_rx (bi_inner io))"

text \<open>\<open>calm\<close>: a step that neither spoils a clean transport nor adds input.\<close>

definition calm :: "buf_io \<Rightarrow> buf_io \<Rightarrow> bool" where
  "calm io io' \<longleftrightarrow> (io_clean io \<longrightarrow> io_clean io') \<and> io_size io' \<le> io_size io"

lemma calm_refl [simp]: "calm io io" by (simp add: calm_def)

lemma calm_trans: "calm a b \<Longrightarrow> calm b c \<Longrightarrow> calm a c"
  by (auto simp: calm_def)

lemma poll_read_calm:
  assumes "poll_read n io = (r, io')" "0 < n" "rx_ok io"
  shows "calm io io' \<and> (r = Pending \<longrightarrow> io_size io' < io_size io \<or> in_stream io' = [])
    \<and> (io_clean io \<longrightarrow> r \<noteq> Ok [] \<and> (\<forall>e. r \<noteq> Err e))"
proof (cases "fb_len (bi_buf io) - bi_pos io = 0")
  case True
  obtain q t where q: "tr_poll_read n (bi_inner io) = (q, t)" by fastforce
  have un: "unread (io\<lparr>bi_inner := t, bi_pending_rx := p\<rparr>) = []" for p
    using True by (simp add: unread_def fb_deref_def)
  have "poll_read n io = (q, io\<lparr>bi_inner := t, bi_pending_rx := (q = Pending)\<rparr>)"
    using q by (cases q) (simp_all add: poll_read_def poll_read_buf_def True)
  with assms(1) have "r = q" "io' = io\<lparr>bi_inner := t, bi_pending_rx := (q = Pending)\<rparr>" by auto
  moreover have "q = Pending \<Longrightarrow> rx_size (tr_rx t) < rx_size (tr_rx (bi_inner io)) \<or> tr_rx t = []"
    using tr_poll_read_pending q by simp
  ultimately show ?thesis
    using tr_poll_read_size(1)[OF q] tr_poll_read_clean[OF q assms(2)] un[of "q = Pending"]
    by (auto simp: calm_def io_size_def io_clean_def in_stream_def)
next
  case False
  then have "r = Ok (take n (unread io))" "bi_inner io' = bi_inner io"
    "unread io' = [] \<or> unread io' = drop (length (take n (unread io))) (unread io)"
    using assms(1) by (auto simp: poll_read_def poll_read_buf_def Let_def unread_def add.commute split: if_splits)
  moreover have "unread io \<noteq> []" using assms(3) False by (simp add: unread_nil_iff)
  ultimately show ?thesis using assms(2) by (auto simp: calm_def io_size_def io_clean_def)
qed

section \<open>Writing through AsyncWrite\<close>

text \<open>
  Through the \<^verbatim>\<open>AsyncWrite\<close> implementation a connection with nothing pending is a sink of
  bytes like the transport under it, except that half-written data goes first.
\<close>

lemma poll_write_sink:
  assumes "tx_ok io" "poll_write buf io = (r, io')"
  shows "same_rx io io' \<and> (\<forall>p. r \<noteq> Panic p)
    \<and> (\<forall>n. r = Ok n \<longrightarrow> n \<le> length buf \<and> out_stream io' = out_stream io @ take n buf \<and> can_poll_write io')
    \<and> ((\<exists>e. r = Err e) \<or> r = Pending \<longrightarrow> out_stream io' = out_stream io)"
proof -
  obtain q io1 where q: "poll_finish_pending_write io = (q, io1)" by fastforce
  note fin = poll_finish_pending_write_spec[OF assms(1) q]
  show ?thesis
  proof (cases "q = Ok ()")
    case False
    with assms(2) q have "io' = io1 \<and> (q = Pending \<and> r = Pending
        \<or> (\<exists>e. q = Err e \<and> r = Err e) \<or> (\<exists>p. q = Panic p \<and> r = Panic p))"
      by (cases q) (auto simp: poll_write_def)
    with fin show ?thesis by auto
  next
    case True
    with fin have io1: "can_poll_write io1" "out_stream io = tr_sent (bi_inner io1)"
      by (auto simp: out_stream_def)
    from tr_sink.wr_cases[of buf "bi_inner io1"] show ?thesis
    proof cases
      case (1 n t)
      with assms q True io1 fin tr_poll_write_frame[OF 1(1)] show ?thesis
        by (auto simp: poll_write_def same_rx_def out_stream_def pending_bytes_def can_poll_write_def)
    next
      case (2 t)
      with assms q True io1 fin tr_poll_write_frame[OF 2(1)] show ?thesis
        by (auto simp: poll_write_def same_rx_def out_stream_def pending_bytes_def can_poll_write_def)
    next
      case (3 e t)
      with assms q True io1 fin tr_poll_write_frame[OF 3(1)] show ?thesis
        by (auto simp: poll_write_def same_rx_def out_stream_def pending_bytes_def can_poll_write_def)
    qed
  qed
qed

lemma poll_flush_spec:
  assumes "tx_ok io" "poll_flush io = (r, io')"
  shows "same_rx io io' \<and> (\<forall>p. r \<noteq> Panic p) \<and> out_stream io' = out_stream io
    \<and> (r = Ok () \<longrightarrow> can_poll_write io' \<and> tr_flushed (bi_inner io') = length (out_stream io'))"
proof -
  obtain q io1 where q: "poll_finish_pending_write io = (q, io1)" by fastforce
  note fin = poll_finish_pending_write_spec[OF assms(1) q]
  show ?thesis
  proof (cases "q = Ok ()")
    case False
    with assms(2) q have "io' = io1 \<and> r = q" by (cases q) (auto simp: poll_flush_def)
    with fin False show ?thesis by auto
  next
    case True
    obtain f t where f: "tr_poll_flush (bi_inner io1) = (f, t)" by fastforce
    let ?io = "io1\<lparr>bi_inner := t, bi_pending_tx := (f = Pending)\<rparr>"
    have "poll_flush io = (f, ?io)" using q True f by (cases f) (simp_all add: poll_flush_def)
    with assms(2) have io': "r = f" "io' = ?io" by auto
    have "out_stream ?io = out_stream io1" "same_rx io1 ?io"
      using tr_poll_flush_frame[OF f] by (simp_all add: out_stream_def pending_bytes_def same_rx_def)
    moreover have "f = Ok () \<Longrightarrow> tr_flushed t = length (tr_sent t)" "f \<noteq> Panic p" for p
      using tr_poll_flush_result f by blast+
    moreover have "pending_bytes ?io = []" using fin True by (simp add: pending_bytes_def)
    ultimately show ?thesis using fin True io' same_rx_trans[of io io1 ?io]
      by (auto simp: out_stream_def can_poll_write_def)
  qed
qed

section \<open>Properties\<close>

text \<open>
  C28. A write is all or nothing. On a well-formed connection, \<^verbatim>\<open>poll_write_all\<close> never panics and
  never touches the input. Either the data is refused because an earlier write is unfinished, and
  the output is as before; or it is taken, and then, ready or pending, the output is what it was
  followed by all of the data, while an error of the transport leaves a prefix of that. When it is
  ready the connection can be written again, and what was asked to be flushed is flushed.
\<close>

theorem poll_write_all_atomic:
  assumes "tx_ok io" "poll_write_all (Some b) flush io = (r, rest, io')"
  shows "same_rx io io' \<and> tx_ok io' \<and> (\<forall>p. r \<noteq> Panic p)
    \<and> (rest = Some b \<and> r \<noteq> Ok () \<and> out_stream io' = out_stream io \<and> \<not> can_poll_write io
       \<or> rest = None \<and> prefix (out_stream io) (out_stream io')
          \<and> (r = Ok () \<or> r = Pending \<longrightarrow> out_stream io' = out_stream io @ b)
          \<and> (\<forall>e. r = Err e \<longrightarrow> prefix (out_stream io') (out_stream io @ b)))
    \<and> (r = Ok () \<longrightarrow> can_poll_write io'
         \<and> (flush \<longrightarrow> tr_flushed (bi_inner io') = length (out_stream io')))"
  using assms by (rule poll_write_all_spec)

theorem poll_write_all_atomic_witness:
  "\<exists>r rest io'. poll_write_all (Some ''hello'') True (bi_with_capacity 8
       \<lparr>tr_rx = [], tr_tx = [TxAccept 2, TxPending], tr_flush = [], tr_close = [], tr_sent = ''x'', tr_flushed = 0, tr_closed = False\<rparr>)
     = (r, rest, io') \<and> r = Pending \<and> out_stream io' = ''xhello'' \<and> tx_ok io'"
proof -
  let ?io = "bi_with_capacity 8
       \<lparr>tr_rx = [], tr_tx = [TxAccept 2, TxPending], tr_flush = [], tr_close = [], tr_sent = ''x'', tr_flushed = 0, tr_closed = False\<rparr>"
  obtain r rest io' where w: "poll_write_all (Some ''hello'') True ?io = (r, rest, io')" by (metis prod_cases3)
  have ok: "tx_ok ?io" "can_poll_write ?io" "out_stream ?io = ''x''" by code_simp+
  have "fst (poll_write_all (Some ''hello'') True ?io) = Pending" by code_simp
  with w have "r = Pending" by simp
  with poll_write_all_atomic[OF ok(1) w] ok w show ?thesis by auto
qed

text \<open>The ways the crate takes input off a connection; the result is what was taken, \<open>None\<close> a panic.\<close>

datatype read_call = OpRead nat | OpFill bool | OpConsume nat | OpTake | OpEnsure nat

fun do_read :: "read_call \<Rightarrow> buf_io \<Rightarrow> bytes \<times> buf_io option" where
  "do_read (OpRead n) io = (case poll_read n io of
      (Ok bs, io') \<Rightarrow> (bs, Some io') | (Panic _, _) \<Rightarrow> ([], None) | (_, io') \<Rightarrow> ([], Some io'))"
| "do_read (OpFill force) io = (case poll_fill_buf force io of
      (Panic _, _) \<Rightarrow> ([], None) | (_, io') \<Rightarrow> ([], Some io'))"
| "do_read (OpConsume n) io = (case consume n io of
      (Ok _, io') \<Rightarrow> (take n (unread io), Some io') | _ \<Rightarrow> ([], None))"
| "do_read OpTake io = (if can_take_read_buf io
      then (case take_read_buf io of (bs, io') \<Rightarrow> (bs, Some io')) else ([], Some io))"
| "do_read (OpEnsure n) io = ([], Some (ensure_read_capacity n io))"

fun read_run :: "read_call list \<Rightarrow> buf_io \<Rightarrow> bytes \<times> buf_io option" where
  "read_run [] io = ([], Some io)"
| "read_run (op # ops) io = (case do_read op io of
      (bs, None) \<Rightarrow> (bs, None)
    | (bs, Some io1) \<Rightarrow> (case read_run ops io1 of (bs', r) \<Rightarrow> (bs @ bs', r)))"

lemma consume_Ok_bound: "consume n io = (Ok (), io') \<Longrightarrow> rx_ok io \<Longrightarrow> n \<le> length (unread io)"
  by (auto simp: consume_def Let_def length_unread rx_ok_pos split: if_splits)

lemma read_op_stream:
  assumes "rx_ok io" "do_read op io = (bs, Some io')"
  shows "rx_ok io' \<and> same_tx io io' \<and> in_stream io = bs @ in_stream io'"
proof (cases op)
  case (OpRead n)
  obtain r io1 where "poll_read n io = (r, io1)" by fastforce
  with assms OpRead poll_read_buf_spec[OF assms(1), of n r io1, folded poll_read_def] show ?thesis
    by (cases r) auto
next
  case (OpFill f)
  obtain r io1 where "poll_fill_buf f io = (r, io1)" by fastforce
  with assms OpFill poll_fill_buf_spec[OF assms(1), of f r io1] show ?thesis by (cases r) auto
next
  case (OpConsume n)
  obtain r io1 where c: "consume n io = (r, io1)" by fastforce
  with assms OpConsume have r: "r = Ok ()" "bs = take n (unread io)" "io' = io1" by (cases r; auto)+
  have n: "n \<le> length (unread io)" using consume_Ok_bound c r assms(1) by simp
  obtain io2 where "consume n io = (Ok (), io2)" "rx_ok io2" "same_tx io io2"
    "in_stream io2 = drop n (in_stream io)"
    by (rule consume_spec[OF assms(1) n])
  moreover have "take n (unread io) = take n (in_stream io)" using n by (simp add: in_stream_def)
  ultimately show ?thesis using c r by simp
next
  case OpTake
  with assms take_read_buf_spec[OF assms(1)] show ?thesis by (auto split: if_splits prod.splits)
next
  case (OpEnsure n)
  with assms ensure_read_capacity_spec[OF assms(1)] show ?thesis by auto
qed

text \<open>
  C29. Input comes out once and in order. Let the input of a well-formed connection be taken in
  any order by reads with buffers of any sizes, fills of the buffer, consumption of filled bytes
  and taking of the whole buffer, however the transport delivers it and whatever errors
  it reports in between. As long as no call panics, what was taken followed by what is still to come is what was to
  come at the start, and nothing that is written is affected.
\<close>

theorem read_order:
  assumes "rx_ok io" "read_run ops io = (out, Some io')"
  shows "rx_ok io' \<and> same_tx io io' \<and> in_stream io = out @ in_stream io'"
  using assms
proof (induction ops arbitrary: io out)
  case (Cons op ops)
  obtain bs io1 where op: "do_read op io = (bs, Some io1)"
    using Cons.prems(2) by (auto split: prod.splits option.splits)
  obtain out1 where rest: "read_run ops io1 = (out1, Some io')" "out = bs @ out1"
    using Cons.prems(2) op by (auto split: prod.splits)
  from read_op_stream[OF Cons.prems(1) op] Cons.IH[OF _ rest(1)] rest(2) show ?case
    by (auto intro: same_tx_trans)
qed simp

theorem read_order_witness:
  "\<exists>out io'. read_run [OpFill False, OpConsume 2, OpRead 1, OpFill True, OpRead 9, OpTake]
      (bi_with_capacity 4 \<lparr>tr_rx = [RxData ''hello'', RxPending, RxErr (IoError TimedOut ''t''), RxData ''!''],
        tr_tx = [], tr_flush = [], tr_close = [], tr_sent = [], tr_flushed = 0, tr_closed = False\<rparr>) = (out, Some io')
     \<and> ''hello!'' = out @ in_stream io'"
proof -
  let ?ops = "[OpFill False, OpConsume 2, OpRead 1, OpFill True, OpRead 9, OpTake]"
  let ?io = "bi_with_capacity 4 \<lparr>tr_rx = [RxData ''hello'', RxPending, RxErr (IoError TimedOut ''t''), RxData ''!''],
        tr_tx = [], tr_flush = [], tr_close = [], tr_sent = [], tr_flushed = 0, tr_closed = False\<rparr>"
  have "snd (read_run ?ops ?io) \<noteq> None" by code_simp
  then obtain out io' where run: "read_run ?ops ?io = (out, Some io')"
    by (metis option.exhaust prod.collapse)
  have "rx_ok ?io" "in_stream ?io = ''hello!''" by code_simp+
  with read_order[OF _ run] run show ?thesis by auto
qed

end
