(* ===== verification/Chunked.thy ===== *)
theory Chunked
  imports Errors Buf_Reader
begin

text \<open>
  \<^verbatim>\<open>src/chunked.rs\<close>: the decoder and the encoder of \<^verbatim>\<open>transfer-encoding: chunked\<close>. The decoder is a
  state machine polled over a connection; a pending transport leaves it in the middle of a
  chunk size, a chunk or a line end, with everything it needs in its record. Its reference is
  \<open>feed\<close>, one transition per byte, and the simulation \<open>cd_poll_read_feeds\<close> says that one poll
  is exactly the transitions for the bytes it took from the connection. Everything else
  (the round trip with the encoder, independence from how the transport cuts the bytes,
  where decoding stops) is proved on \<open>feed\<close>.
\<close>

section \<open>Decoder\<close>

datatype decoder_state = ChunkSize | ChunkSizeLf | Chunk | ChunkLf | End

record chunked_decoder =
  cd_amount_left :: nat
  cd_state :: decoder_state
  cd_chunk_size_buf :: bytes

definition cd_new :: chunked_decoder where
  "cd_new = \<lparr>cd_amount_left = 0, cd_state = ChunkSize, cd_chunk_size_buf = []\<rparr>"

definition cd_is_end :: "chunked_decoder \<Rightarrow> bool" where
  "cd_is_end d \<longleftrightarrow> cd_state d = End"

text \<open>The characters \<^verbatim>\<open>poll_chunk_size\<close> accepts, in the order of the source.\<close>

definition is_chunk_size_char :: "char \<Rightarrow> bool" where
  "is_chunk_size_char c \<longleftrightarrow> c \<in> set ''0123456789abcdefABCDEF''"

text \<open>
  \<^verbatim>\<open>{:?}\<close> of a character below 256: quoted, with the escapes of Rust's \<^verbatim>\<open>escape_debug\<close> and, from
  0xA1 on, the two bytes of its UTF-8 encoding.
\<close>

definition debug_char :: "char \<Rightarrow> string" where
  "debug_char c =
     (let n = of_char c :: nat;
          body = (if n = 0 then [CHR 0x5C, CHR ''0'']
                  else if n = 9 then [CHR 0x5C, CHR ''t'']
                  else if n = 10 then [CHR 0x5C, CHR ''n'']
                  else if n = 13 then [CHR 0x5C, CHR ''r'']
                  else if n = 39 \<or> n = 92 then [CHR 0x5C, c]
                  else if 32 \<le> n \<and> n < 127 then [c]
                  else if n \<le> 160 \<or> n = 173
                    then [CHR 0x5C, CHR ''u'', CHR 0x7B] @ show_radix 16 n @ [CHR 0x7D]
                  else [char_of (192 + n div 64), char_of (128 + n mod 64)])
      in [CHR 0x27] @ body @ [CHR 0x27])"

function poll_chunk_size ::
  "chunked_decoder \<times> buf_io \<Rightarrow> unit res \<times> (chunked_decoder \<times> buf_io)" where
  "poll_chunk_size (d, io) =
     (case poll_read 1 io of
        (Ok [], io1) \<Rightarrow> (Err (IoError UnexpectedEof ''EOF while reading chunk size''), (d, io1))
      | (Ok (c # _), io1) \<Rightarrow>
          if c = CHR '';'' \<or> c = CR then (Ok (), (d, io1))
          else if \<not> is_chunk_size_char c
          then (Err (IoError InvalidData (''Unexpected char in chunk size: '' @ debug_char c)), (d, io1))
          else
            (let d1 = d\<lparr>cd_chunk_size_buf := cd_chunk_size_buf d @ [c]\<rparr> in
             if length (cd_chunk_size_buf d1) > 10
             then (Err (IoError InvalidData ''Too many chars in chunk size''), (d1, io1))
             else poll_chunk_size (d1, io1))
      | (Err e, io1) \<Rightarrow> (Err e, (d, io1))
      | (Pending, io1) \<Rightarrow> (Pending, (d, io1))
      | (Panic p, io1) \<Rightarrow> (Panic p, (d, io1)))"
  by pat_completeness auto
termination
  by (relation "measure (\<lambda>(d, io). io_size io)") (auto dest: poll_read_size[OF sym])

declare poll_chunk_size.simps [simp del]

function poll_skip_until_lf ::
  "chunked_decoder \<times> buf_io \<Rightarrow> unit res \<times> (chunked_decoder \<times> buf_io)" where
  "poll_skip_until_lf (d, io) =
     (case poll_read 1 io of
        (Ok [], io1) \<Rightarrow> (Err (IoError UnexpectedEof ''EOF before finding lf''), (d, io1))
      | (Ok (c # _), io1) \<Rightarrow>
          if c = LF then (Ok (), (d, io1)) else poll_skip_until_lf (d, io1)
      | (Err e, io1) \<Rightarrow> (Err e, (d, io1))
      | (Pending, io1) \<Rightarrow> (Pending, (d, io1))
      | (Panic p, io1) \<Rightarrow> (Panic p, (d, io1)))"
  by pat_completeness auto
termination
  by (relation "measure (\<lambda>(d, io). io_size io)") (auto dest: poll_read_size[OF sym])

declare poll_skip_until_lf.simps [simp del]

text \<open>How many turns of the loop of \<^verbatim>\<open>poll_read\<close> a state is away from its return.\<close>

fun decoder_rank :: "decoder_state \<Rightarrow> nat" where
  "decoder_rank ChunkLf = 3"
| "decoder_rank ChunkSize = 2"
| "decoder_rank ChunkSizeLf = 1"
| "decoder_rank Chunk = 0"
| "decoder_rank End = 0"

function cd_poll_read ::
  "nat \<Rightarrow> chunked_decoder \<times> buf_io \<Rightarrow> bytes res \<times> (chunked_decoder \<times> buf_io)" where
  "cd_poll_read n (d, io) =
     (if n = 0 then (Panic ''Chunk read with empty buf'', (d, io))
      else case cd_state d of
        ChunkSize \<Rightarrow>
          ready (poll_chunk_size (d, io)) (\<lambda>_ (d1, io1).
            case from_str_radix 16 USIZE_BOUND (trim (cd_chunk_size_buf d1)) of
              None \<Rightarrow> (Err (IoError InvalidData ''Not a number in chunk size''), (d1, io1))
            | Some k \<Rightarrow>
                cd_poll_read n (d1\<lparr>cd_amount_left := k, cd_chunk_size_buf := [],
                  cd_state := if k = 0 then End else ChunkSizeLf\<rparr>, io1))
      | ChunkSizeLf \<Rightarrow>
          ready (poll_skip_until_lf (d, io)) (\<lambda>_ (d1, io1).
            cd_poll_read n (d1\<lparr>cd_state := Chunk\<rparr>, io1))
      | Chunk \<Rightarrow>
          (let to_read = min (cd_amount_left d) n in
           case poll_read to_read io of
             (Ok bs, io1) \<Rightarrow>
               (let left = cd_amount_left d - length bs in
                (Ok bs, (d\<lparr>cd_amount_left := left,
                           cd_state := if left = 0 then ChunkLf else Chunk\<rparr>, io1)))
           | (Err e, io1) \<Rightarrow> (Err e, (d, io1))
           | (Pending, io1) \<Rightarrow> (Pending, (d, io1))
           | (Panic p, io1) \<Rightarrow> (Panic p, (d, io1)))
      | ChunkLf \<Rightarrow>
          ready (poll_skip_until_lf (d, io)) (\<lambda>_ (d1, io1).
            cd_poll_read n (d1\<lparr>cd_state := ChunkSize\<rparr>, io1))
      | End \<Rightarrow> (Ok [], (d, io)))"
  by pat_completeness auto
termination
  by (relation "measure (\<lambda>(n, d, io). decoder_rank (cd_state d))") auto

declare cd_poll_read.simps [simp del]

section \<open>Encoder\<close>

definition write_chunk :: "bytes \<Rightarrow> fast_buf \<Rightarrow> fast_buf res" where
  "write_chunk buf out =
     (if buf = [] then Ok out
      else
        rbind (fb_borrow out) (\<lambda>into.
        rbind (fr_extend_from_slice (show_radix 16 (length buf) @ CRLF) into) (\<lambda>into.
        rbind (fr_extend_from_slice buf into) (\<lambda>into.
        rbind (fr_extend_from_slice CRLF into) (\<lambda>into.
        Ok (fr_drop into))))))"

definition write_finish :: "fast_buf \<Rightarrow> fast_buf res" where
  "write_finish out =
     rbind (fb_borrow out) (\<lambda>into.
     rbind (fr_extend_from_slice (''0'' @ CRLF @ CRLF) into) (\<lambda>into.
     Ok (fr_drop into)))"

section \<open>One transition per byte\<close>

text \<open>
  The reference decoder: what one byte of the message does to the decoder, and which body
  bytes it yields. \<open>None\<close> is a malformed message; \<open>End\<close> takes no byte at all.
\<close>

definition feed :: "chunked_decoder \<Rightarrow> byte \<Rightarrow> (bytes \<times> chunked_decoder) option" where
  "feed d c = (case cd_state d of
      ChunkSize \<Rightarrow>
        if c = CHR '';'' \<or> c = CR then
          map_option (\<lambda>k. ([], d\<lparr>cd_amount_left := k, cd_chunk_size_buf := [],
                               cd_state := if k = 0 then End else ChunkSizeLf\<rparr>))
            (from_str_radix 16 USIZE_BOUND (cd_chunk_size_buf d))
        else if is_chunk_size_char c \<and> length (cd_chunk_size_buf d) < 10
        then Some ([], d\<lparr>cd_chunk_size_buf := cd_chunk_size_buf d @ [c]\<rparr>)
        else None
    | ChunkSizeLf \<Rightarrow> Some ([], if c = LF then d\<lparr>cd_state := Chunk\<rparr> else d)
    | Chunk \<Rightarrow>
        Some ([c], d\<lparr>cd_amount_left := cd_amount_left d - 1,
                     cd_state := if cd_amount_left d = 1 then ChunkLf else Chunk\<rparr>)
    | ChunkLf \<Rightarrow> Some ([], if c = LF then d\<lparr>cd_state := ChunkSize\<rparr> else d)
    | End \<Rightarrow> None)"

fun feeds :: "chunked_decoder \<Rightarrow> bytes \<Rightarrow> (bytes \<times> chunked_decoder) option" where
  "feeds d [] = Some ([], d)"
| "feeds d (c # cs) = (case feed d c of
      None \<Rightarrow> None
    | Some (out, d1) \<Rightarrow> map_option (\<lambda>(out', d2). (out @ out', d2)) (feeds d1 cs))"

text \<open>All the body bytes in a message, and what it leaves behind.\<close>

fun decoded :: "chunked_decoder \<Rightarrow> bytes \<Rightarrow> bytes" where
  "decoded d [] = []"
| "decoded d (c # cs) = (case feed d c of None \<Rightarrow> [] | Some (out, d1) \<Rightarrow> out @ decoded d1 cs)"

definition cd_ok :: "chunked_decoder \<Rightarrow> bool" where
  "cd_ok d \<longleftrightarrow>
     (\<forall>c \<in> set (cd_chunk_size_buf d). is_chunk_size_char c)
     \<and> length (cd_chunk_size_buf d) \<le> 10
     \<and> (cd_state d \<in> {ChunkSizeLf, Chunk} \<longrightarrow> 0 < cd_amount_left d)
     \<and> (cd_state d \<noteq> ChunkSize \<longrightarrow> cd_chunk_size_buf d = [])"

lemma feeds_append:
  "feeds d (xs @ ys) = (case feeds d xs of
      None \<Rightarrow> None
    | Some (out, d1) \<Rightarrow> map_option (\<lambda>(out', d2). (out @ out', d2)) (feeds d1 ys))"
  by (induction xs arbitrary: d) (auto simp: option.map_comp comp_def split_def option.map_ident split: option.splits)

lemma feeds_appendI:
  "feeds d xs = Some (o1, d1) \<Longrightarrow> feeds d1 ys = Some (o2, d2) \<Longrightarrow> feeds d (xs @ ys) = Some (o1 @ o2, d2)"
  by (simp add: feeds_append)

lemma decoded_feeds: "feeds d xs = Some (out, d1) \<Longrightarrow> decoded d (xs @ ys) = out @ decoded d1 ys"
  by (induction xs arbitrary: d out) (auto split: option.splits)

lemma cd_new_ok [simp]: "cd_ok cd_new"
  by (simp add: cd_ok_def cd_new_def)

lemma hex_not_ws: "is_chunk_size_char c \<Longrightarrow> \<not> is_ws c"
  by (auto simp: is_chunk_size_char_def is_ws_def)

lemma trim_size_buf: "cd_ok d \<Longrightarrow> trim (cd_chunk_size_buf d) = cd_chunk_size_buf d"
  by (auto simp: cd_ok_def intro!: trim_id hex_not_ws)

lemma feed_ok: "cd_ok d \<Longrightarrow> feed d c = Some (out, d1) \<Longrightarrow> cd_ok d1"
  by (auto simp: feed_def cd_ok_def split: decoder_state.splits if_splits)

lemma feeds_ok: "cd_ok d \<Longrightarrow> feeds d xs = Some (out, d1) \<Longrightarrow> cd_ok d1"
  by (induction xs arbitrary: d out) (auto split: option.splits dest: feed_ok)

lemma feeds_chunk:
  "cd_state d = Chunk \<Longrightarrow> length bs \<le> cd_amount_left d \<Longrightarrow> 0 < cd_amount_left d \<Longrightarrow>
    feeds d bs = Some (bs, d\<lparr>cd_amount_left := cd_amount_left d - length bs,
      cd_state := if cd_amount_left d - length bs = 0 then ChunkLf else Chunk\<rparr>)"
proof (induction bs arbitrary: d)
  case (Cons c cs)
  show ?case
  proof (cases "cd_amount_left d = 1")
    case True
    with Cons.prems show ?thesis by (simp add: feed_def)
  next
    case False
    with Cons.prems Cons.IH[of "d\<lparr>cd_amount_left := cd_amount_left d - 1, cd_state := Chunk\<rparr>"]
    show ?thesis by (auto simp: feed_def)
  qed
qed simp

text \<open>
  \<open>fed d s out d' s'\<close>: taking some bytes off the front of the stream \<open>s\<close> leads the decoder
  from \<open>d\<close> to \<open>d'\<close>, yields \<open>out\<close> and leaves \<open>s'\<close>.
\<close>

definition fed :: "chunked_decoder \<Rightarrow> bytes \<Rightarrow> bytes \<Rightarrow> chunked_decoder \<Rightarrow> bytes \<Rightarrow> bool" where
  "fed d s out d' s' \<longleftrightarrow> (\<exists>used. s = used @ s' \<and> feeds d used = Some (out, d'))"

lemma fed_refl [simp]: "fed d s [] d s"
  by (auto simp: fed_def intro!: exI[of _ "[]"])

lemma fed_trans: "fed d s o1 d1 s1 \<Longrightarrow> fed d1 s1 o2 d2 s2 \<Longrightarrow> fed d s (o1 @ o2) d2 s2"
  by (auto simp: fed_def intro!: feeds_appendI)

lemma fed_silent: "fed d s [] d1 s1 \<Longrightarrow> fed d1 s1 out d2 s2 \<Longrightarrow> fed d s out d2 s2"
  using fed_trans[of d s "[]"] by simp

lemma fed_one: "feed d c = Some (out, d1) \<Longrightarrow> fed d (c # s) out d1 s"
  by (auto simp: fed_def intro!: exI[of _ "[c]"])

lemma fed_ok: "cd_ok d \<Longrightarrow> fed d s out d' s' \<Longrightarrow> cd_ok d'"
  by (auto simp: fed_def dest: feeds_ok)

lemma fed_decoded: "fed d s out d' s' \<Longrightarrow> decoded d s = out @ decoded d' s'"
  by (auto simp: fed_def dest: decoded_feeds)

text \<open>A stream the decoder will refuse, at a byte it still has to take.\<close>

definition doomed :: "chunked_decoder \<Rightarrow> bytes \<Rightarrow> bool" where
  "doomed d s \<longleftrightarrow> (\<exists>out d1 c s1. fed d s out d1 (c # s1) \<and> \<not> cd_is_end d1 \<and> feed d1 c = None)"

lemma doomed_fed: "fed d s out d1 s1 \<Longrightarrow> doomed d1 s1 \<Longrightarrow> doomed d s"
  unfolding doomed_def by (meson fed_trans)

lemma doomedI: "feed d c = None \<Longrightarrow> \<not> cd_is_end d \<Longrightarrow> doomed d (c # s)"
  unfolding doomed_def using fed_refl by blast

section \<open>A poll is the transitions of the bytes it takes\<close>

text \<open>
  Reading one byte: the three ways it can go, with the effect on the connection.
\<close>

lemma poll_read_one [consumes 1, case_names Byte Eof Pending Err]:
  assumes "rx_ok io"
  obtains c io' where "poll_read 1 io = (Ok [c], io')" "rx_ok io'" "same_tx io io'" "calm io io'"
      "in_stream io = c # in_stream io'"
  | io' where "poll_read 1 io = (Ok [], io')" "rx_ok io'" "same_tx io io'" "calm io io'" "\<not> io_clean io"
  | io' where "poll_read 1 io = (Pending, io')" "rx_ok io'" "same_tx io io'" "calm io io'"
      "in_stream io' = in_stream io" "io_size io' < io_size io \<or> in_stream io' = []"
  | e io' where "poll_read 1 io = (Err e, io')" "rx_ok io'" "same_tx io io'" "calm io io'" "\<not> io_clean io"
proof -
  obtain r io' where r: "poll_read 1 io = (r, io')" by fastforce
  note spec = poll_read_buf_spec[OF assms, of 1 r io', folded poll_read_def, OF r]
  have calm: "calm io io'" "r = Pending \<Longrightarrow> io_size io' < io_size io \<or> in_stream io' = []"
    "io_clean io \<Longrightarrow> r \<noteq> Ok []" "io_clean io \<Longrightarrow> r \<noteq> Err e" for e
    using poll_read_calm[OF r _ assms] by auto
  show ?thesis
  proof (cases r)
    case (Ok bs)
    with spec have "bs = [] \<or> (\<exists>c. bs = [c])" by (cases bs) auto
    then show ?thesis
    proof
      assume "bs = []"
      with Ok spec calm r show ?thesis by (intro that(2)[of io']) auto
    next
      assume "\<exists>c. bs = [c]"
      then obtain c where "bs = [c]" ..
      with Ok spec calm r show ?thesis by (intro that(1)[of c io']) auto
    qed
  next
    case (Err e)
    with spec calm r show ?thesis by (intro that(4)[of e io']) auto
  next
    case Pending
    with spec calm r show ?thesis by (intro that(3)[of io']) auto
  next
    case (Panic p)
    with spec show ?thesis by simp
  qed
qed

lemma poll_chunk_size_feeds:
  assumes "cd_ok d" "rx_ok io" "cd_state d = ChunkSize" "poll_chunk_size (d, io) = (r, d', io')"
  shows "rx_ok io' \<and> same_tx io io' \<and> calm io io' \<and> (\<forall>p. r \<noteq> Panic p)
    \<and> (r = Pending \<longrightarrow> fed d (in_stream io) [] d' (in_stream io')
          \<and> (io_size io' < io_size io \<or> in_stream io' = []))
    \<and> (\<forall>e. r = Err e \<longrightarrow> io_clean io \<longrightarrow> doomed d (in_stream io))
    \<and> (r = Ok () \<longrightarrow> (\<exists>c. fed d (in_stream io) [] d' (c # in_stream io')
          \<and> cd_state d' = ChunkSize \<and> (c = CHR '';'' \<or> c = CR)))"
  using assms
proof (induction "(d, io)" arbitrary: d io rule: poll_chunk_size.induct)
  case (1 d io)
  from "1.prems"(2) show ?case
  proof (cases rule: poll_read_one)
    case (Byte c io1)
    let ?d = "d\<lparr>cd_chunk_size_buf := cd_chunk_size_buf d @ [c]\<rparr>"
    consider (sep) "c = CHR '';'' \<or> c = CR"
      | (bad) "c \<noteq> CHR '';''" "c \<noteq> CR" "\<not> is_chunk_size_char c \<or> 10 < length (cd_chunk_size_buf ?d)"
      | (go) "c \<noteq> CHR '';''" "c \<noteq> CR" "is_chunk_size_char c" "\<not> 10 < length (cd_chunk_size_buf ?d)"
      by blast
    then show ?thesis
    proof cases
      case sep
      with Byte "1.prems" show ?thesis
        by (auto simp: poll_chunk_size.simps[of d io] intro!: exI[of _ c])
    next
      case bad
      then have "doomed d (in_stream io)"
        using "1.prems"(3) by (simp add: Byte(5)) (auto intro!: doomedI simp: feed_def cd_is_end_def)
      moreover obtain e where "r = Err e" "io' = io1"
        using "1.prems"(4) Byte(1) bad
        by (cases "is_chunk_size_char c") (auto simp: poll_chunk_size.simps[of d io] Let_def)
      ultimately show ?thesis using Byte by simp
    next
      case go
      have f: "feed d c = Some ([], ?d)" using go "1.prems"(3) by (simp add: feed_def)
      then have ok: "cd_ok ?d" using "1.prems"(1) feed_ok by blast
      have st: "cd_state ?d = ChunkSize" using "1.prems"(3) by simp
      have eq: "poll_chunk_size (?d, io1) = (r, d', io')"
        using "1.prems"(4) Byte(1) go by (simp add: poll_chunk_size.simps[of d io])
      have "\<not> (c = CHR '';'' \<or> c = CR)" "\<not> \<not> is_chunk_size_char c" using go by auto
      note IH = "1.hyps"[OF Byte(1)[symmetric] refl refl this refl go(4) ok Byte(2) st eq]
      have "same_tx io io'" "calm io io'" "io_size io' < io_size io1 \<Longrightarrow> io_size io' < io_size io"
        using IH Byte(3,4) same_tx_trans calm_trans by (auto simp: calm_def)
      moreover have "fed ?d (in_stream io1) [] d' s \<Longrightarrow> fed d (in_stream io) [] d' s" for s
        using fed_silent[OF fed_one[OF f]] by (simp add: Byte(5))
      moreover have "doomed ?d (in_stream io1) \<Longrightarrow> doomed d (in_stream io)"
        using doomed_fed[OF fed_one[OF f]] by (simp add: Byte(5))
      moreover have "io_clean io \<Longrightarrow> io_clean io1" using Byte(4) by (simp add: calm_def)
      ultimately show ?thesis using IH by blast
    qed
  qed (use "1.prems" in \<open>auto simp: poll_chunk_size.simps[of d io]\<close>)
qed

lemma poll_skip_until_lf_feeds:
  assumes "rx_ok io" "cd_state d \<in> {ChunkSizeLf, ChunkLf}" "poll_skip_until_lf (d, io) = (r, d', io')"
  shows "rx_ok io' \<and> same_tx io io' \<and> calm io io' \<and> d' = d \<and> (\<forall>p. r \<noteq> Panic p)
    \<and> (r = Pending \<longrightarrow> fed d (in_stream io) [] d (in_stream io')
          \<and> (io_size io' < io_size io \<or> in_stream io' = []))
    \<and> (\<forall>e. r = Err e \<longrightarrow> \<not> io_clean io)
    \<and> (r = Ok () \<longrightarrow> fed d (in_stream io) [] d (LF # in_stream io'))"
  using assms
proof (induction "(d, io)" arbitrary: io rule: poll_skip_until_lf.induct)
  case (1 io)
  from "1.prems"(1) show ?case
  proof (cases rule: poll_read_one)
    case (Byte c io1)
    show ?thesis
    proof (cases "c = LF")
      case True
      with Byte "1.prems" show ?thesis by (auto simp: poll_skip_until_lf.simps[of d io])
    next
      case False
      have f: "feed d c = Some ([], d)" using False "1.prems"(2) by (auto simp: feed_def)
      have eq: "poll_skip_until_lf (d, io1) = (r, d', io')"
        using "1.prems"(3) Byte(1) False by (simp add: poll_skip_until_lf.simps[of d io])
      note IH = "1.hyps"[OF Byte(1)[symmetric] refl refl False Byte(2) "1.prems"(2) eq]
      have "same_tx io io'" "calm io io'" "io_size io' < io_size io1 \<Longrightarrow> io_size io' < io_size io"
        using IH Byte(3,4) same_tx_trans calm_trans by (auto simp: calm_def)
      moreover have "fed d (in_stream io1) [] d s \<Longrightarrow> fed d (in_stream io) [] d s" for s
        using fed_silent[OF fed_one[OF f]] by (simp add: Byte(5))
      moreover have "io_clean io \<Longrightarrow> io_clean io1" using Byte(4) by (simp add: calm_def)
      ultimately show ?thesis using IH by blast
    qed
  qed (use "1.prems" in \<open>auto simp: poll_skip_until_lf.simps[of d io]\<close>)
qed

text \<open>
  The simulation: a poll that returns bytes, or is pending, is the transitions of exactly the
  bytes it took from the connection; the next poll goes on from there.
\<close>

definition fed_poll ::
  "nat \<Rightarrow> chunked_decoder \<Rightarrow> buf_io \<Rightarrow> bytes res \<Rightarrow> chunked_decoder \<Rightarrow> buf_io \<Rightarrow> bool" where
  "fed_poll n d io r d' io' \<longleftrightarrow> rx_ok io' \<and> same_tx io io' \<and> calm io io' \<and> (\<forall>p. r \<noteq> Panic p)
     \<and> (\<forall>bs. r = Ok bs \<longrightarrow> length bs \<le> n \<and> fed d (in_stream io) bs d' (in_stream io')
           \<and> (bs \<noteq> [] \<longrightarrow> io_size io' < io_size io) \<and> (bs = [] \<longrightarrow> io_clean io \<longrightarrow> cd_is_end d'))
     \<and> (r = Pending \<longrightarrow> fed d (in_stream io) [] d' (in_stream io')
           \<and> (io_size io' < io_size io \<or> in_stream io' = []))
     \<and> (\<forall>e. r = Err e \<longrightarrow> io_clean io \<longrightarrow> doomed d (in_stream io))"

lemma fed_poll_silent:
  assumes "fed d (in_stream io) [] d1 (in_stream io1)" "same_tx io io1" "calm io io1"
    "fed_poll n d1 io1 r d' io'"
  shows "fed_poll n d io r d' io'"
proof -
  have "same_tx io io'" "calm io io'" "io_size io' < io_size io1 \<Longrightarrow> io_size io' < io_size io"
    "io_clean io \<Longrightarrow> io_clean io1"
    using assms same_tx_trans calm_trans by (auto simp: fed_poll_def calm_def)
  with assms(4) show ?thesis
    using fed_silent[OF assms(1)] doomed_fed[OF assms(1)] by (auto simp: fed_poll_def)
qed

text \<open>One lemma per state of the loop; the hypothesis \<open>cont\<close> is the rest of the loop.\<close>

lemma fed_poll_skip:
  assumes "rx_ok io" "cd_state d \<in> {ChunkSizeLf, ChunkLf}" and f: "feed d LF = Some ([], g d)"
    and res: "ready (poll_skip_until_lf (d, io)) (\<lambda>_ (d1, io1). cd_poll_read n (g d1, io1)) = (r, d', io')"
    and cont: "\<And>io1. poll_skip_until_lf (d, io) = (Ok (), d, io1) \<Longrightarrow> rx_ok io1 \<Longrightarrow>
      cd_poll_read n (g d, io1) = (r, d', io') \<Longrightarrow> fed_poll n (g d) io1 r d' io'"
  shows "fed_poll n d io r d' io'"
proof -
  obtain q d1 io1 where q: "poll_skip_until_lf (d, io) = (q, d1, io1)" by (metis surj_pair)
  note skip = poll_skip_until_lf_feeds[OF assms(1,2) q]
  show ?thesis
  proof (cases "q = Ok ()")
    case True
    with skip q res have "fed_poll n (g d) io1 r d' io'" by (intro cont) auto
    with skip True show ?thesis
      using fed_poll_silent[OF fed_silent[OF _ fed_one[OF f]]] by blast
  next
    case False
    with q res skip show ?thesis by (cases q) (auto simp: fed_poll_def)
  qed
qed

definition size_read :: "nat \<Rightarrow> chunked_decoder \<Rightarrow> chunked_decoder" where
  "size_read k d = d\<lparr>cd_amount_left := k, cd_chunk_size_buf := [],
     cd_state := if k = 0 then End else ChunkSizeLf\<rparr>"

lemma fed_poll_size:
  assumes ok: "cd_ok d" and "rx_ok io" and st: "cd_state d = ChunkSize"
    and res: "ready (poll_chunk_size (d, io)) (\<lambda>_ (d1, io1).
        case from_str_radix 16 USIZE_BOUND (trim (cd_chunk_size_buf d1)) of
          None \<Rightarrow> (Err e, (d1, io1))
        | Some k \<Rightarrow> cd_poll_read n (size_read k d1, io1)) = (r, d', io')"
    and cont: "\<And>d1 io1 k. poll_chunk_size (d, io) = (Ok (), d1, io1) \<Longrightarrow>
      from_str_radix 16 USIZE_BOUND (trim (cd_chunk_size_buf d1)) = Some k \<Longrightarrow> rx_ok io1 \<Longrightarrow>
      cd_ok (size_read k d1) \<Longrightarrow> cd_poll_read n (size_read k d1, io1) = (r, d', io') \<Longrightarrow>
      fed_poll n (size_read k d1) io1 r d' io'"
  shows "fed_poll n d io r d' io'"
proof -
  obtain q d1 io1 where q: "poll_chunk_size (d, io) = (q, d1, io1)" by (metis surj_pair)
  note size = poll_chunk_size_feeds[OF ok assms(2) st q]
  show ?thesis
  proof (cases "q = Ok ()")
    case True
    with size obtain c where c: "fed d (in_stream io) [] d1 (c # in_stream io1)"
      "cd_state d1 = ChunkSize" "c = CHR '';'' \<or> c = CR" and tx: "same_tx io io1" and rx1: "rx_ok io1"
      and calm: "calm io io1" by auto
    have ok1: "cd_ok d1" using fed_ok[OF ok c(1)] .
    note tr = trim_size_buf[OF ok1]
    show ?thesis
    proof (cases "from_str_radix 16 USIZE_BOUND (cd_chunk_size_buf d1)")
      case None
      with c have "doomed d1 (c # in_stream io1)" by (intro doomedI) (auto simp: feed_def cd_is_end_def)
      with None res q True tx rx1 calm doomed_fed[OF c(1)] show ?thesis by (auto simp: tr fed_poll_def)
    next
      case (Some k)
      then have f: "feed d1 c = Some ([], size_read k d1)" using c by (auto simp: feed_def size_read_def)
      have "fed_poll n (size_read k d1) io1 r d' io'"
        by (rule cont) (use q True Some tr rx1 feed_ok[OF ok1 f] res in auto)
      then show ?thesis
        using fed_poll_silent[OF fed_silent[OF c(1) fed_one[OF f]] tx calm] by blast
    qed
  next
    case False
    with q res size show ?thesis by (cases q) (auto simp: fed_poll_def)
  qed
qed

lemma fed_poll_chunk:
  assumes "cd_ok d" "rx_ok io" "0 < n" "cd_state d = Chunk" "cd_poll_read n (d, io) = (r, d', io')"
  shows "fed_poll n d io r d' io'"
proof -
  let ?m = "min (cd_amount_left d) n"
  obtain q io1 where q: "poll_read ?m io = (q, io1)" by fastforce
  note rd = poll_read_buf_spec[OF assms(2), of ?m q io1, folded poll_read_def, OF q]
  have left: "0 < cd_amount_left d" using assms by (simp add: cd_ok_def)
  have "0 < ?m" using left assms(3) by simp
  note calm = poll_read_calm[OF q this assms(2)]
  show ?thesis
  proof (cases q)
    case (Ok bs)
    let ?left = "cd_amount_left d - length bs"
    let ?d = "d\<lparr>cd_amount_left := ?left, cd_state := if ?left = 0 then ChunkLf else Chunk\<rparr>"
    have r: "r = Ok bs" "d' = ?d" "io' = io1"
      using assms q Ok by (auto simp: cd_poll_read.simps[of n d io] Let_def)
    from Ok rd have "length bs \<le> cd_amount_left d" by simp
    with feeds_chunk[OF assms(4) _ left] rd Ok have "fed d (in_stream io) bs ?d (in_stream io1)"
      by (auto simp: fed_def)
    with r rd calm Ok q show ?thesis using poll_read_size[of ?m io bs io1]
      by (auto simp: fed_poll_def)
  next
    case (Err e)
    with assms q have "r = Err e" "io' = io1" by (auto simp: cd_poll_read.simps[of n d io])
    with rd calm Err show ?thesis by (auto simp: fed_poll_def)
  next
    case Pending
    with assms q have "r = Pending" "d' = d" "io' = io1" by (auto simp: cd_poll_read.simps[of n d io])
    with rd calm Pending show ?thesis by (auto simp: fed_poll_def)
  next
    case (Panic p)
    with rd show ?thesis by simp
  qed
qed

lemma cd_poll_read_feeds:
  assumes "cd_ok d" "rx_ok io" "0 < n" "cd_poll_read n (d, io) = (r, d', io')"
  shows "fed_poll n d io r d' io'"
  using assms
proof (induction n "(d, io)" arbitrary: d io rule: cd_poll_read.induct)
  case (1 n d io)
  note ok = "1.prems"(1) and rx = "1.prems"(2) and n = "1.prems"(3)
  have n0: "\<not> n = 0" using n by simp
  note eq = "1.prems"(4)[unfolded cd_poll_read.simps[of n d io]]
  show ?case
  proof (cases "cd_state d")
    case ChunkSize
    show ?thesis
    proof (rule fed_poll_size[OF ok rx ChunkSize])
      show "ready (poll_chunk_size (d, io)) (\<lambda>_ (d1, io1).
        case from_str_radix 16 USIZE_BOUND (trim (cd_chunk_size_buf d1)) of
          None \<Rightarrow> (Err (IoError InvalidData ''Not a number in chunk size''), (d1, io1))
        | Some k \<Rightarrow> cd_poll_read n (size_read k d1, io1)) = (r, d', io')"
        using eq n ChunkSize unfolding size_read_def by simp
    qed (use "1.hyps"(1)[OF n0 ChunkSize _ refl _ _ _ n] in \<open>simp add: size_read_def\<close>)
  next
    case ChunkSizeLf
    then have f: "feed d LF = Some ([], d\<lparr>cd_state := Chunk\<rparr>)" by (simp add: feed_def)
    show ?thesis
      by (rule fed_poll_skip[where g = "\<lambda>d. d\<lparr>cd_state := Chunk\<rparr>", OF rx _ f])
        (use eq n ChunkSizeLf "1.hyps"(2)[OF n0 ChunkSizeLf _ refl feed_ok[OF ok f] _ n] in auto)
  next
    case ChunkLf
    then have f: "feed d LF = Some ([], d\<lparr>cd_state := ChunkSize\<rparr>)" by (simp add: feed_def)
    show ?thesis
      by (rule fed_poll_skip[where g = "\<lambda>d. d\<lparr>cd_state := ChunkSize\<rparr>", OF rx _ f])
        (use eq n ChunkLf "1.hyps"(3)[OF n0 ChunkLf _ refl feed_ok[OF ok f] _ n] in auto)
  next
    case Chunk
    with "1.prems" show ?thesis by (intro fed_poll_chunk)
  next
    case End
    with eq n rx show ?thesis by (auto simp: fed_poll_def cd_is_end_def)
  qed
qed

lemma cd_poll_read_stream:
  assumes "cd_ok d" "rx_ok io" "0 < n" "cd_poll_read n (d, io) = (r, d', io')"
  shows "r = Ok bs \<Longrightarrow> cd_ok d' \<and> rx_ok io' \<and> length bs \<le> n
      \<and> decoded d (in_stream io) = bs @ decoded d' (in_stream io')"
    and "r = Pending \<Longrightarrow> cd_ok d' \<and> rx_ok io' \<and> decoded d' (in_stream io') = decoded d (in_stream io)"
    and "r \<noteq> Panic p"
  using cd_poll_read_feeds[OF assms] fed_ok[OF assms(1)] fed_decoded[of d "in_stream io" _ d' "in_stream io'"]
  by (auto simp: fed_poll_def)

text \<open>The decoder over a connection is itself a source of bytes: those of the decoded message.\<close>

interpretation cd_source: byte_source cd_poll_read
  "\<lambda>(d, io). decoded d (in_stream io)" "\<lambda>(d, io). cd_ok d \<and> rx_ok io"
  by unfold_locales (auto dest: cd_poll_read_stream split: prod.splits)

section \<open>Encoder\<close>

definition enc_chunk :: "bytes \<Rightarrow> bytes" where
  "enc_chunk data = (if data = [] then [] else show_radix 16 (length data) @ CRLF @ data @ CRLF)"

definition enc_end :: bytes where
  "enc_end = ''0'' @ CRLF @ CRLF"

lemma length_enc_chunk:
  assumes "length data < USIZE_BOUND"
  shows "length (enc_chunk data) \<le> length data + 20"
  using length_show_radix[of 16 "length data" 16] assms by (simp add: enc_chunk_def)

lemma write_chunk_spec:
  assumes "fb_ok b" "fb_len b + length (enc_chunk data) \<le> fb_cap b"
  obtains b' where "write_chunk data b = Ok b'" "fb_ok b'" "fb_deref b' = fb_deref b @ enc_chunk data"
    "fb_cap b \<le> fb_cap b'" "fb_len b' = fb_len b + length (enc_chunk data)"
proof (cases "data = []")
  case True
  with assms that show ?thesis by (simp add: write_chunk_def enc_chunk_def)
next
  case False
  let ?h = "show_radix 16 (length data) @ CRLF"
  have len: "length (enc_chunk data) = length ?h + length data + 2"
    using False by (simp add: enc_chunk_def)
  with assms(2) have cap: "0 < fb_cap b" "fb_len b < fb_cap b \<or> fb_cap b < MAX_CAPACITY" by linarith+
  obtain r where r: "fb_borrow b = Ok r" "fr_ok r" "fr_bytes r = fb_deref b" "fr_cur_len r = fb_len b"
    "fb_cap b \<le> fb_cap (fr_buf r)"
    using fb_borrow_Ok[OF assms(1) cap] by metis
  have cl: "fb_len (fr_buf r) = fb_cap (fr_buf r)" using r(2) by (simp add: fr_ok_def)
  obtain r1 where r1: "fr_extend_from_slice ?h r = Ok r1" "fr_ok r1" "fr_bytes r1 = fr_bytes r @ ?h"
    "fr_cur_len r1 = fr_cur_len r + length ?h" "fb_len (fr_buf r1) = fb_len (fr_buf r)"
    "fb_cap (fr_buf r1) = fb_cap (fr_buf r)"
    by (rule fr_extend_from_slice_Ok[OF r(2), of ?h]) (use r cl len assms(2) in auto)
  obtain r2 where r2: "fr_extend_from_slice data r1 = Ok r2" "fr_ok r2" "fr_bytes r2 = fr_bytes r1 @ data"
    "fr_cur_len r2 = fr_cur_len r1 + length data" "fb_len (fr_buf r2) = fb_len (fr_buf r1)"
    "fb_cap (fr_buf r2) = fb_cap (fr_buf r1)"
    by (rule fr_extend_from_slice_Ok[OF r1(2), of data]) (use r r1 cl len assms(2) in auto)
  obtain r3 where r3: "fr_extend_from_slice CRLF r2 = Ok r3" "fr_ok r3" "fr_bytes r3 = fr_bytes r2 @ CRLF"
    "fr_cur_len r3 = fr_cur_len r2 + length CRLF" "fb_len (fr_buf r3) = fb_len (fr_buf r2)"
    "fb_cap (fr_buf r3) = fb_cap (fr_buf r2)"
    by (rule fr_extend_from_slice_Ok[OF r2(2), of CRLF]) (use r r1 r2 cl len assms(2) in auto)
  show ?thesis
    by (rule that[of "fr_drop r3"])
      (use False r r1 r2 r3 len in \<open>auto simp: write_chunk_def enc_chunk_def\<close>)
qed

lemma write_finish_spec:
  assumes "fb_ok b" "fb_len b + length enc_end \<le> fb_cap b"
  obtains b' where "write_finish b = Ok b'" "fb_ok b'" "fb_deref b' = fb_deref b @ enc_end"
proof -
  have cap: "0 < fb_cap b" "fb_len b < fb_cap b \<or> fb_cap b < MAX_CAPACITY"
    using assms(2) by (auto simp: enc_end_def)
  obtain r where r: "fb_borrow b = Ok r" "fr_ok r" "fr_bytes r = fb_deref b" "fr_cur_len r = fb_len b"
    "fb_cap b \<le> fb_cap (fr_buf r)"
    using fb_borrow_Ok[OF assms(1) cap] by metis
  have cl: "fb_len (fr_buf r) = fb_cap (fr_buf r)" using r(2) by (simp add: fr_ok_def)
  obtain r1 where r1: "fr_extend_from_slice enc_end r = Ok r1" "fr_ok r1" "fr_bytes r1 = fr_bytes r @ enc_end"
    by (rule fr_extend_from_slice_Ok[OF r(2), of enc_end]) (use r cl assms(2) in auto)
  show ?thesis
    by (rule that[of "fr_drop r1"]) (use r r1 in \<open>auto simp: write_finish_def enc_end_def\<close>)
qed

section \<open>Round trip\<close>

lemma digit_is_size_char: "d < 16 \<Longrightarrow> is_chunk_size_char (digit_char d)"
proof -
  have "\<forall>d \<in> set [0..<16]. is_chunk_size_char (digit_char d)" by code_simp
  then show "d < 16 \<Longrightarrow> ?thesis" by simp
qed

lemma size_char_not_sep: "is_chunk_size_char c \<Longrightarrow> c \<noteq> CHR '';'' \<and> c \<noteq> CR"
  by (auto simp: is_chunk_size_char_def)

lemma feeds_digits:
  "cd_state d = ChunkSize \<Longrightarrow> \<forall>c \<in> set cs. is_chunk_size_char c \<Longrightarrow>
    length (cd_chunk_size_buf d) + length cs \<le> 10 \<Longrightarrow>
    feeds d cs = Some ([], d\<lparr>cd_chunk_size_buf := cd_chunk_size_buf d @ cs\<rparr>)"
proof (induction cs arbitrary: d)
  case (Cons c cs)
  with Cons.IH[of "d\<lparr>cd_chunk_size_buf := cd_chunk_size_buf d @ [c]\<rparr>"] size_char_not_sep[of c]
  show ?case by (simp add: feed_def)
qed simp

lemma feeds_enc_chunk:
  assumes "length data < 16 ^ 10"
  shows "feeds cd_new (enc_chunk data) = Some (data, cd_new)"
proof (cases "data = []")
  case False
  let ?h = "show_radix 16 (length data)" and ?n = "length data"
  have "\<forall>c \<in> set ?h. is_chunk_size_char c"
    using show_radix_set[of 16 ?n] digit_is_size_char by fastforce
  moreover have "length ?h \<le> 10" using length_show_radix[of 16 ?n 10] assms by simp
  ultimately have h1: "feeds cd_new ?h = Some ([], cd_new\<lparr>cd_chunk_size_buf := ?h\<rparr>)"
    by (subst feeds_digits) (auto simp: cd_new_def)
  have "from_str_radix 16 USIZE_BOUND ?h = Some ?n"
    using assms by (intro from_str_radix_show) auto
  then have h2: "feeds (cd_new\<lparr>cd_chunk_size_buf := ?h\<rparr>) CRLF =
      Some ([], \<lparr>cd_amount_left = ?n, cd_state = Chunk, cd_chunk_size_buf = []\<rparr>)"
    using False by (simp add: feed_def cd_new_def)
  have h3: "feeds \<lparr>cd_amount_left = ?n, cd_state = Chunk, cd_chunk_size_buf = []\<rparr> data =
      Some (data, \<lparr>cd_amount_left = 0, cd_state = ChunkLf, cd_chunk_size_buf = []\<rparr>)"
    using False by (subst feeds_chunk) auto
  have h4: "feeds \<lparr>cd_amount_left = 0, cd_state = ChunkLf, cd_chunk_size_buf = []\<rparr> CRLF = Some ([], cd_new)"
    by (simp add: feed_def cd_new_def)
  from feeds_appendI[OF h1 feeds_appendI[OF h2 feeds_appendI[OF h3 h4]]] False show ?thesis
    by (simp add: enc_chunk_def)
qed (simp add: enc_chunk_def)

lemma feeds_enc_chunks:
  "\<forall>c \<in> set cs. length c < 16 ^ 10 \<Longrightarrow> feeds cd_new (concat (map enc_chunk cs)) = Some (concat cs, cd_new)"
  by (induction cs) (auto simp: feeds_append feeds_enc_chunk)

text \<open>The decoder stops right after the carriage return of the last-chunk line.\<close>

lemma feeds_last_chunk: "feeds cd_new (''0'' @ [CR]) = Some ([], cd_new\<lparr>cd_state := End\<rparr>)"
  by (simp add: feed_def cd_new_def is_chunk_size_char_def from_str_radix_def to_digit_def)

lemma fed_message:
  assumes "\<forall>c \<in> set cs. length c < 16 ^ 10"
  shows "fed cd_new (concat (map enc_chunk cs) @ enc_end @ rest) (concat cs) (cd_new\<lparr>cd_state := End\<rparr>)
     ([LF] @ CRLF @ rest)"
  unfolding fed_def
  using feeds_appendI[OF feeds_enc_chunks[OF assms] feeds_last_chunk]
  by (intro exI[of _ "concat (map enc_chunk cs) @ ''0'' @ [CR]"]) (simp add: enc_end_def)

text \<open>
  Whether a stream holds a complete message for the decoder, and what follows that message.
\<close>

fun completes :: "chunked_decoder \<Rightarrow> bytes \<Rightarrow> bool" where
  "completes d [] = cd_is_end d"
| "completes d (c # cs) = (cd_is_end d \<or>
     (case feed d c of None \<Rightarrow> False | Some (_, d1) \<Rightarrow> completes d1 cs))"

fun leftover :: "chunked_decoder \<Rightarrow> bytes \<Rightarrow> bytes" where
  "leftover d [] = []"
| "leftover d (c # cs) = (if cd_is_end d then c # cs
     else case feed d c of None \<Rightarrow> [] | Some (_, d1) \<Rightarrow> leftover d1 cs)"

lemma feed_end [simp]: "cd_is_end d \<Longrightarrow> feed d c = None"
  by (simp add: feed_def cd_is_end_def)

lemma end_completes [simp]: "cd_is_end d \<Longrightarrow> completes d s" "cd_is_end d \<Longrightarrow> leftover d s = s"
  "cd_is_end d \<Longrightarrow> decoded d s = []"
  by (cases s; simp)+

lemma feeds_completes:
  "feeds d used = Some (out, d1) \<Longrightarrow> completes d (used @ s) = completes d1 s \<and> leftover d (used @ s) = leftover d1 s"
proof (induction used arbitrary: d out)
  case (Cons c used)
  then show ?case by (cases "cd_is_end d") (auto split: option.splits)
qed simp

lemma fed_completes:
  "fed d s out d1 s1 \<Longrightarrow> completes d s = completes d1 s1" "fed d s out d1 s1 \<Longrightarrow> leftover d s = leftover d1 s1"
  by (auto simp: fed_def feeds_completes)

lemma completes_not_doomed:
  assumes "completes d s"
  shows "\<not> doomed d s"
proof
  assume "doomed d s"
  then obtain out d1 c s1 where fed: "fed d s out d1 (c # s1)" and stuck: "\<not> cd_is_end d1" "feed d1 c = None"
    by (auto simp: doomed_def)
  have "completes d1 (c # s1)" using fed_completes(1)[OF fed] assms by simp
  with stuck show False by simp
qed

text \<open>
  A decoder in front of a complete message drains it: whatever the buffer size, and however
  the transport cuts and delays the bytes.
\<close>

lemma cd_poll_progress:
  assumes "cd_ok d" "rx_ok io" "0 < n" "io_clean io" "completes d (in_stream io)" "\<not> cd_is_end d"
    "cd_poll_read n (d, io) = (r, d', io')"
  shows "(\<forall>e. r \<noteq> Err e) \<and> io_clean io' \<and> completes d' (in_stream io')
    \<and> leftover d' (in_stream io') = leftover d (in_stream io) \<and> (cd_is_end d' \<or> io_size io' < io_size io)"
proof -
  note poll = cd_poll_read_feeds[OF assms(1-3,7), unfolded fed_poll_def calm_def]
  have "r \<noteq> Err e" "r \<noteq> Panic p" for e p
    using completes_not_doomed[OF assms(5)] poll assms(4) by auto
  moreover from this obtain bs where fed: "fed d (in_stream io) bs d' (in_stream io')"
    and "r = Ok bs \<or> r = Pending \<and> bs = []"
    using poll by (cases r) auto
  moreover have "completes d' (in_stream io')" using fed_completes(1)[OF fed] assms(5) by simp
  moreover from this have "in_stream io' = [] \<Longrightarrow> cd_is_end d'" by simp
  ultimately show ?thesis using poll assms(4) fed_completes(2)[OF fed] by (cases bs) auto
qed

text \<open>A poll that is pending is in the middle of something: the decoder is not at its end.\<close>

lemma poll_chunk_size_state: "poll_chunk_size (d, io) = (r, d', io') \<Longrightarrow> cd_state d' = cd_state d"
proof (induction "(d, io)" arbitrary: d io rule: poll_chunk_size.induct)
  case (1 d io)
  obtain q io1 where q: "poll_read 1 io = (q, io1)" by fastforce
  with "1.prems" "1.hyps"[OF q[symmetric]] show ?case
    by (subst (asm) poll_chunk_size.simps) (fastforce simp: Let_def split: res.splits list.splits if_splits)
qed

lemma poll_skip_until_lf_state: "poll_skip_until_lf (d, io) = (r, d', io') \<Longrightarrow> cd_state d' = cd_state d"
proof (induction "(d, io)" arbitrary: d io rule: poll_skip_until_lf.induct)
  case (1 d io)
  obtain q io1 where q: "poll_read 1 io = (q, io1)" by fastforce
  with "1.prems" "1.hyps"[OF q[symmetric]] show ?case
    by (subst (asm) poll_skip_until_lf.simps) (fastforce split: res.splits list.splits if_splits)
qed

lemma cd_poll_read_pending: "cd_poll_read n (d, io) = (Pending, d', io') \<Longrightarrow> \<not> cd_is_end d'"
proof (induction n "(d, io)" arbitrary: d io rule: cd_poll_read.induct)
  case (1 n d io)
  note IH = "1.hyps"
  have n: "n \<noteq> 0" using "1.prems" by (cases "n = 0") (simp_all add: cd_poll_read.simps[of 0 d io])
  note eq = "1.prems"[unfolded cd_poll_read.simps[of n d io]]
  show ?case
  proof (cases "cd_state d")
    case ChunkSize
    obtain q d1 io1 where q: "poll_chunk_size (d, io) = (q, d1, io1)" by (metis prod_cases3)
    with eq n ChunkSize poll_chunk_size_state[OF q] IH(1)[OF n ChunkSize, of _ "(d1, io1)" d1 io1] show ?thesis
      by (cases q) (fastforce simp: cd_is_end_def split: option.splits)+
  next
    case ChunkSizeLf
    obtain q d1 io1 where q: "poll_skip_until_lf (d, io) = (q, d1, io1)" by (metis prod_cases3)
    with eq n ChunkSizeLf poll_skip_until_lf_state[OF q] IH(2)[OF n ChunkSizeLf, of _ "(d1, io1)" d1 io1] show ?thesis
      by (cases q) (auto simp: cd_is_end_def)
  next
    case ChunkLf
    obtain q d1 io1 where q: "poll_skip_until_lf (d, io) = (q, d1, io1)" by (metis prod_cases3)
    with eq n ChunkLf poll_skip_until_lf_state[OF q] IH(3)[OF n ChunkLf, of _ "(d1, io1)" d1 io1] show ?thesis
      by (cases q) (auto simp: cd_is_end_def)
  next
    case Chunk
    with eq n show ?thesis by (auto simp: Let_def cd_is_end_def split: prod.splits res.splits)
  next
    case End
    with eq n show ?thesis by auto
  qed
qed

interpretation cd_drain: draining_source cd_poll_read
  "\<lambda>(d, io). decoded d (in_stream io)" "\<lambda>(d, io). cd_ok d \<and> rx_ok io"
  "\<lambda>(d, io). io_size io" "\<lambda>(d, io). io_clean io \<and> completes d (in_stream io)"
  "\<lambda>(d, io). cd_is_end d" "\<lambda>(d, io). leftover d (in_stream io)"
proof (unfold_locales, goal_cases)
  case (1 s n r s')
  then show ?case using cd_poll_progress[of "fst s" "snd s" n r "fst s'" "snd s'"] by (auto simp: split_def)
next
  case (2 s n)
  then show ?case by (cases s) (simp add: cd_poll_read.simps cd_is_end_def)
next
  case (3 s)
  then show ?case by (simp add: split_def)
qed

text \<open>What the encoder writes into a buffer as large as \<^verbatim>\<open>SendStream\<close> makes it.\<close>

lemma write_chunk_fresh:
  assumes "length data < USIZE_BOUND" "write_chunk data (fb_with_capacity (length data + 32)) = Ok b"
  shows "fb_into_vec b = enc_chunk data"
proof (rule write_chunk_spec[of "fb_with_capacity (length data + 32)" data])
  show "fb_len (fb_with_capacity (length data + 32)) + length (enc_chunk data)
      \<le> fb_cap (fb_with_capacity (length data + 32))"
    using length_enc_chunk[OF assms(1)] by simp
qed (use assms(2) in \<open>auto simp: fb_into_vec_def\<close>)

lemma write_finish_fresh:
  "write_finish (fb_with_capacity 32) = Ok b \<Longrightarrow> fb_into_vec b = enc_end"
  by (rule write_finish_spec[of "fb_with_capacity 32"]) (auto simp: fb_into_vec_def enc_end_def)

section \<open>Properties\<close>

text \<open>
  C10. Chunked round trip. Let a body be sent as any sequence of chunks (each below
  \<open>16 ^ 10\<close> bytes), each encoded by \<^verbatim>\<open>write_chunk\<close> into a buffer with the 32 bytes of overhead that
  \<^verbatim>\<open>SendStream\<close> allows, and be closed by \<^verbatim>\<open>write_finish\<close>. Let these bytes, followed by anything, be
  what a connection still has to deliver, in whatever pieces and with whatever pendings. Then
  polling the decoder often enough, with a buffer of any non-zero size, returns exactly the
  bytes of the body, reaches the end state, and leaves the connection at the line feed of the
  last-chunk line: that line feed and the final line end of the message are not consumed.
\<close>

theorem chunked_roundtrip:
  assumes "\<forall>c \<in> set cs. length c < 16 ^ 10"
    and "list_all2 (\<lambda>c b. write_chunk c (fb_with_capacity (length c + 32)) = Ok b) cs bufs"
    and "write_finish (fb_with_capacity 32) = Ok fin"
    and "in_stream io = concat (map fb_into_vec bufs) @ fb_into_vec fin @ rest"
    and "rx_ok io" "io_clean io" "0 < n" "io_size io < k"
  shows "\<exists>d io'. poll_all cd_poll_read (replicate k n) (cd_new, io) = (concat cs, d, io')
     \<and> cd_is_end d \<and> in_stream io' = [LF] @ CRLF @ rest"
proof -
  from assms(2,1) have "map fb_into_vec bufs = map enc_chunk cs"
    by (induction rule: list_all2_induct) (auto intro!: write_chunk_fresh)
  with assms(4) write_finish_fresh[OF assms(3)]
  have "in_stream io = concat (map enc_chunk cs) @ enc_end @ rest" by simp
  with fed_message[OF assms(1), of rest]
  have fed: "fed cd_new (in_stream io) (concat cs) (cd_new\<lparr>cd_state := End\<rparr>) ([LF] @ CRLF @ rest)" by simp
  have "completes cd_new (in_stream io)" "leftover cd_new (in_stream io) = [LF] @ CRLF @ rest"
    "decoded cd_new (in_stream io) = concat cs"
    using fed_completes[OF fed] fed_decoded[OF fed] by (auto simp: cd_is_end_def)
  with cd_drain.poll_all_complete[of "(cd_new, io)" n k] assms(5-8) show ?thesis by auto
qed

definition wit_io :: buf_io where
  "wit_io = bi_with_capacity 16
     \<lparr>tr_rx = [RxData (''3'' @ [CR]), RxPending, RxData ([LF] @ ''he''),
               RxData (''l'' @ CRLF @ ''2'' @ CRLF @ ''lo'' @ CRLF @ ''0'' @ CRLF @ CRLF @ ''GET'')],
      tr_tx = [], tr_flush = [], tr_close = [], tr_sent = [], tr_flushed = 0, tr_closed = False\<rparr>"

theorem chunked_roundtrip_witness:
  "\<exists>d io'. poll_all cd_poll_read (replicate 40 4) (cd_new, wit_io) = (''hello'', d, io')
     \<and> cd_is_end d \<and> in_stream io' = [LF] @ CRLF @ ''GET''"
proof -
  let ?cs = "[''hel'', ''lo'']"
  let ?bufs = "[fr_drop \<lparr>fr_buf = \<lparr>fb_init = enc_chunk ''hel'', fb_len = 35, fb_cap = 35\<rparr>, fr_cur_len = 8\<rparr>,
    fr_drop \<lparr>fr_buf = \<lparr>fb_init = enc_chunk ''lo'', fb_len = 34, fb_cap = 34\<rparr>, fr_cur_len = 7\<rparr>]"
  let ?fin = "fr_drop \<lparr>fr_buf = \<lparr>fb_init = enc_end, fb_len = 32, fb_cap = 32\<rparr>, fr_cur_len = 5\<rparr>"
  have a: "\<forall>c \<in> set ?cs. length c < 16 ^ 10" by simp
  have b: "list_all2 (\<lambda>c b. write_chunk c (fb_with_capacity (length c + 32)) = Ok b) ?cs ?bufs"
    by code_simp
  have c: "write_finish (fb_with_capacity 32) = Ok ?fin" by code_simp
  have d: "in_stream wit_io = concat (map fb_into_vec ?bufs) @ fb_into_vec ?fin @ ''GET''" by code_simp
  have e: "rx_ok wit_io" "io_clean wit_io" "(0::nat) < 4" "io_size wit_io < 40" by code_simp+
  from chunked_roundtrip[OF a b c d e] show ?thesis by simp
qed

end
