(* ===== verification/Http_Api.thy ===== *)
theory Http_Api
  imports Prelude
begin

text \<open>
  The values of the \<^verbatim>\<open>http\<close> crate the source handles, by what the source observes of them. The
  crate itself is not part of the repository: a header map is what \<^verbatim>\<open>get\<close> answers for a name
  and what iterating over it yields, a header value is its bytes and the answer of
  \<^verbatim>\<open>to_str().ok()\<close>, a status is its code and the answers of the predicates the source calls,
  a URI is the answers of its accessors. Every theorem quantifies over such values, so it
  holds for whatever the crate answers; where a relation between two answers is needed it is a
  hypothesis of the theorem.
\<close>

datatype http_version = HTTP_09 | HTTP_10 | HTTP_11 | HTTP_2 | HTTP_3

record header_value =
  hv_as_bytes :: bytes
  hv_to_str :: "string option"

record header_map =
  hm_get :: "string \<Rightarrow> header_value option"
  hm_iter :: "(string \<times> header_value) list"

record status_code =
  sc_as_u16 :: nat
  sc_is_informational :: bool
  sc_is_redirection :: bool
  sc_canonical_reason :: "string option"

record uri =
  uri_path_and_query :: "string option"
  uri_scheme_str :: "string option"
  uri_port_u16 :: "nat option"
  uri_host :: "string option"

text \<open>\<^verbatim>\<open>Request<()>\<close> and \<^verbatim>\<open>Response<()>\<close>; a method is what it displays as.\<close>

record request =
  req_method :: string
  req_uri :: uri
  req_version :: http_version
  req_headers :: header_map

record response =
  res_status :: status_code
  res_version :: http_version
  res_headers :: header_map

text \<open>Header maps for examples: the first value under a name, in the order of the list.\<close>

definition hv_of :: "string \<Rightarrow> header_value" where
  "hv_of s = \<lparr>hv_as_bytes = s, hv_to_str = Some s\<rparr>"

definition hm_of :: "(string \<times> string) list \<Rightarrow> header_map" where
  "hm_of hs = \<lparr>hm_get = (\<lambda>k. map_option hv_of (map_of hs k)), hm_iter = map (\<lambda>(k, v). (k, hv_of v)) hs\<rparr>"

end
