(* ===== verification/Limit.thy ===== *)
theory Limit
  imports Chunked Http_Api
begin

text \<open>
  \<^verbatim>\<open>src/limit.rs\<close>: how the end of a body is found. A \<open>limit_read\<close> is chosen from the headers of
  a message and hands out exactly the bytes of its body; a \<open>limit_write\<close> is chosen the same
  way and frames the body that is sent. Counters are 64-bit words as in the source. All three
  readers are interpreted as draining sources, so that reading a body to its end, however the
  transport cuts it, is one theorem over the locale.
\<close>

section \<open>Headers\<close>

definition is_chunked :: "header_map \<Rightarrow> bool" where
  "is_chunked headers =
     (case Option.bind (hm_get headers ''transfer-encoding'') hv_to_str of
        None \<Rightarrow> False
      | Some h \<Rightarrow> \<not> contains_str ''identity'' h)"

definition is_keep_alive :: "header_map \<Rightarrow> bool \<Rightarrow> bool" where
  "is_keep_alive headers dflt =
     (case Option.bind (Option.bind (hm_get headers ''connection'') hv_to_str)
             (\<lambda>h. if h = ''keep-alive'' then Some True
                   else if h = ''close'' then Some False
                   else None) of
        Some b \<Rightarrow> b
      | None \<Rightarrow> dflt)"

definition allow_reuse :: "header_map \<Rightarrow> http_version \<Rightarrow> bool" where
  "allow_reuse headers version =
     (if version = HTTP_11 then is_keep_alive headers True else is_keep_alive headers False)"

definition get_str :: "header_map \<Rightarrow> string \<Rightarrow> string option" where
  "get_str headers key = Option.bind (hm_get headers key) hv_to_str"

definition get_as :: "header_map \<Rightarrow> string \<Rightarrow> 64 word option" where
  "get_as headers key = map_option of_nat (Option.bind (get_str headers key) parse_u64)"

definition headers_indicate_body :: "header_map \<Rightarrow> bool" where
  "headers_indicate_body headers \<longleftrightarrow> is_chunked headers \<or> get_as headers ''content-length'' \<noteq> None"

section \<open>Readers\<close>

record content_length_read =
  clr_limit :: "64 word"
  clr_total :: "64 word"

definition clr_new :: "64 word \<Rightarrow> content_length_read" where
  "clr_new limit = \<lparr>clr_limit = limit, clr_total = 0\<rparr>"

definition clr_is_end :: "content_length_read \<Rightarrow> bool" where
  "clr_is_end self \<longleftrightarrow> clr_total self = clr_limit self"

text \<open>On a 64-bit target the minimum with \<^verbatim>\<open>usize::max_value()\<close> is the word itself.\<close>

definition clr_left :: "content_length_read \<Rightarrow> nat" where
  "clr_left self = unat (min (clr_limit self - clr_total self) (of_nat (USIZE_BOUND - 1)))"

definition clr_poll_read ::
  "nat \<Rightarrow> content_length_read \<times> buf_io \<Rightarrow> bytes res \<times> (content_length_read \<times> buf_io)" where
  "clr_poll_read n = (\<lambda>(self, io).
     if n = 0 then (Panic ''poll_read with len 0 buf'', (self, io))
     else
       let left = clr_left self in
       if left = 0 then (Ok [], (self, io))
       else
         case poll_read (min n left) io of
           (Ok bs, io1) \<Rightarrow>
             if left > 0 \<and> length bs = 0 then
               (Err (IoError UnexpectedEof
                  (''Partial body received '' @ show_radix 10 (unat (clr_total self))
                    @ '' bytes and expected '' @ show_radix 10 (unat (clr_limit self)))), (self, io1))
             else (Ok bs, (self\<lparr>clr_total := clr_total self + of_nat (length bs)\<rparr>, io1))
         | (Err e, io1) \<Rightarrow> (Err e, (self, io1))
         | (Pending, io1) \<Rightarrow> (Pending, (self, io1))
         | (Panic p, io1) \<Rightarrow> (Panic p, (self, io1)))"

record read_to_end =
  rte_reached_end :: bool

definition rte_new :: read_to_end where
  "rte_new = \<lparr>rte_reached_end = False\<rparr>"

definition rte_is_end :: "read_to_end \<Rightarrow> bool" where
  "rte_is_end self = rte_reached_end self"

definition rte_poll_read ::
  "nat \<Rightarrow> read_to_end \<times> buf_io \<Rightarrow> bytes res \<times> (read_to_end \<times> buf_io)" where
  "rte_poll_read n = (\<lambda>(self, io).
     if n = 0 then (Panic ''poll_read with len 0 buf'', (self, io))
     else if rte_reached_end self then (Ok [], (self, io))
     else
       case poll_read n io of
         (Ok bs, io1) \<Rightarrow>
           (Ok bs, (if length bs = 0 then self\<lparr>rte_reached_end := True\<rparr> else self, io1))
       | (Err e, io1) \<Rightarrow>
           if is_closed_kind (io_kind e) then (Ok [], (self\<lparr>rte_reached_end := True\<rparr>, io1))
           else (Err e, (self, io1))
       | (Pending, io1) \<Rightarrow> (Pending, (self, io1))
       | (Panic p, io1) \<Rightarrow> (Panic p, (self, io1)))"

datatype limit_read =
    LR_ChunkedDecoder chunked_decoder
  | LR_ContentLength content_length_read
  | LR_ReadToEnd read_to_end
  | LR_NoBody

definition lr_from_headers :: "header_map \<Rightarrow> bool \<Rightarrow> limit_read" where
  "lr_from_headers headers is_server_response =
     (if is_chunked headers then LR_ChunkedDecoder cd_new
      else case get_as headers ''content-length'' of
        Some len \<Rightarrow> LR_ContentLength (clr_new len)
      | None \<Rightarrow> if is_server_response then LR_ReadToEnd rte_new else LR_NoBody)"

definition lr_is_no_body :: "limit_read \<Rightarrow> bool" where
  "lr_is_no_body self = (case self of
      LR_ContentLength r \<Rightarrow> clr_limit r = 0
    | LR_NoBody \<Rightarrow> True
    | _ \<Rightarrow> False)"

definition lr_is_complete :: "limit_read \<Rightarrow> bool" where
  "lr_is_complete self = (case self of
      LR_ChunkedDecoder v \<Rightarrow> cd_is_end v
    | LR_ContentLength v \<Rightarrow> clr_is_end v
    | LR_ReadToEnd v \<Rightarrow> rte_is_end v
    | LR_NoBody \<Rightarrow> True)"

definition lr_body_size :: "limit_read \<Rightarrow> 64 word option" where
  "lr_body_size self = (case self of LR_ContentLength v \<Rightarrow> Some (clr_limit v) | _ \<Rightarrow> None)"

definition lr_is_read_to_end :: "limit_read \<Rightarrow> bool" where
  "lr_is_read_to_end self = (case self of LR_ReadToEnd _ \<Rightarrow> True | _ \<Rightarrow> False)"

definition lr_is_reusable :: "limit_read \<Rightarrow> bool" where
  "lr_is_reusable self \<longleftrightarrow> lr_is_complete self \<and> \<not> lr_is_read_to_end self"

definition lr_can_read_entire_vec :: "limit_read \<Rightarrow> bool" where
  "lr_can_read_entire_vec self = (case self of LR_ContentLength _ \<Rightarrow> True | _ \<Rightarrow> False)"

definition lr_accept_entire_vec :: "bytes \<Rightarrow> limit_read \<Rightarrow> limit_read res" where
  "lr_accept_entire_vec buf self = (case self of
      LR_ContentLength v \<Rightarrow> Ok (LR_ContentLength (v\<lparr>clr_total := clr_total v + of_nat (length buf)\<rparr>))
    | _ \<Rightarrow> Panic ''accept_entire_vec with wrong type of writer'')"

definition lr_poll_read :: "nat \<Rightarrow> limit_read \<times> buf_io \<Rightarrow> bytes res \<times> (limit_read \<times> buf_io)" where
  "lr_poll_read n = (\<lambda>(self, recv). case self of
      LR_ChunkedDecoder v \<Rightarrow> map_prod id (map_prod LR_ChunkedDecoder id) (cd_poll_read n (v, recv))
    | LR_ContentLength v \<Rightarrow> map_prod id (map_prod LR_ContentLength id) (clr_poll_read n (v, recv))
    | LR_ReadToEnd v \<Rightarrow> map_prod id (map_prod LR_ReadToEnd id) (rte_poll_read n (v, recv))
    | LR_NoBody \<Rightarrow> (Ok [], (LR_NoBody, recv)))"

section \<open>Writers\<close>

record content_length_write =
  clw_limit :: "64 word"
  clw_total :: "64 word"

definition clw_new :: "64 word \<Rightarrow> content_length_write" where
  "clw_new limit = \<lparr>clw_limit = limit, clw_total = 0\<rparr>"

text \<open>
  A \<^verbatim>\<open>Result<(), Error>\<close> whose computation may panic; the writer and the buffer are updated in
  place and returned.
\<close>

type_synonym 'w write_result = "(error + unit) res \<times> 'w \<times> fast_buf"

definition clw_write :: "bytes \<Rightarrow> content_length_write \<Rightarrow> fast_buf \<Rightarrow> content_length_write write_result" where
  "clw_write data self out =
     (if data = [] then (Ok (Inr ()), self, out)
      else
        let self1 = self\<lparr>clw_total := clw_total self + of_nat (length data)\<rparr> in
        if clw_total self1 > clw_limit self1 then
          (Ok (Inl (User (''Body data longer than content-length header: ''
             @ show_radix 10 (unat (clw_total self1)) @ '' > ''
             @ show_radix 10 (unat (clw_limit self1))))), self1, out)
        else
          case rbind (fb_borrow out) (fr_extend_from_slice data) of
            Ok into \<Rightarrow> (Ok (Inr ()), self1, fr_drop into)
          | Err e \<Rightarrow> (Err e, self1, out)
          | Pending \<Rightarrow> (Pending, self1, out)
          | Panic p \<Rightarrow> (Panic p, self1, out))"

datatype limit_write =
    LW_ChunkedEncoder
  | LW_ContentLength content_length_write
  | LW_NoBody

definition lw_from_headers :: "header_map \<Rightarrow> limit_write" where
  "lw_from_headers headers =
     (if is_chunked headers then LW_ChunkedEncoder
      else case get_as headers ''content-length'' of
        Some limit \<Rightarrow> LW_ContentLength (clw_new limit)
      | None \<Rightarrow> LW_NoBody)"

definition lw_overhead :: "limit_write \<Rightarrow> nat" where
  "lw_overhead self = (case self of LW_ChunkedEncoder \<Rightarrow> 32 | LW_ContentLength _ \<Rightarrow> 0 | LW_NoBody \<Rightarrow> 0)"

definition lw_is_no_body :: "limit_write \<Rightarrow> bool" where
  "lw_is_no_body self = (case self of
      LW_ContentLength w \<Rightarrow> clw_limit w = 0
    | LW_NoBody \<Rightarrow> True
    | _ \<Rightarrow> False)"

definition lw_can_write_entire_vec :: "limit_write \<Rightarrow> bool" where
  "lw_can_write_entire_vec self = (case self of LW_ContentLength _ \<Rightarrow> True | _ \<Rightarrow> False)"

definition lw_accept_entire_vec :: "bytes \<Rightarrow> limit_write \<Rightarrow> limit_write res" where
  "lw_accept_entire_vec buf self = (case self of
      LW_ContentLength v \<Rightarrow> Ok (LW_ContentLength (v\<lparr>clw_total := clw_total v + of_nat (length buf)\<rparr>))
    | _ \<Rightarrow> Panic ''accept_entire_vec with wrong type of writer'')"

text \<open>What a step of the encoder without a limit of its own makes of the buffer.\<close>

definition into_result :: "'w \<Rightarrow> fast_buf \<Rightarrow> fast_buf res \<Rightarrow> 'w write_result" where
  "into_result w out r = (case r of
      Ok b \<Rightarrow> (Ok (Inr ()), w, b)
    | Err e \<Rightarrow> (Err e, w, out)
    | Pending \<Rightarrow> (Pending, w, out)
    | Panic p \<Rightarrow> (Panic p, w, out))"

definition lw_write :: "bytes \<Rightarrow> limit_write \<Rightarrow> fast_buf \<Rightarrow> limit_write write_result" where
  "lw_write data self out = (case self of
      LW_ChunkedEncoder \<Rightarrow> into_result self out (write_chunk data out)
    | LW_ContentLength v \<Rightarrow> map_prod id (map_prod LW_ContentLength id) (clw_write data v out)
    | LW_NoBody \<Rightarrow> (Ok (Inr ()), self, out))"

definition lw_finish :: "limit_write \<Rightarrow> fast_buf \<Rightarrow> limit_write write_result" where
  "lw_finish self out = (case self of
      LW_ChunkedEncoder \<Rightarrow> into_result self out (write_finish out)
    | LW_ContentLength _ \<Rightarrow> (Ok (Inr ()), self, out)
    | LW_NoBody \<Rightarrow> (Ok (Inr ()), self, out))"

section \<open>Reading a body of known length\<close>

lemma clr_left_eq [code]: "clr_left self = unat (clr_limit self - clr_total self)"
  by (simp add: clr_left_def min_def word_le_nat_alt)
    (use unsigned_less[where ?'a = nat, of "clr_limit self - clr_total self"] in simp)

lemma clr_left_zero: "clr_left self = 0 \<longleftrightarrow> clr_is_end self"
  by (auto simp: clr_left_eq clr_is_end_def unat_eq_0)

lemma clr_left_new [simp]: "clr_left (clr_new n) = unat n"
  by (simp add: clr_left_eq clr_new_def)

lemma clr_left_advance:
  assumes "k \<le> clr_left self"
  shows "clr_left (self\<lparr>clr_total := clr_total self + of_nat k\<rparr>) = clr_left self - k"
proof -
  let ?x = "clr_limit self - clr_total self"
  have k: "k < 2 ^ LENGTH(64)" using assms unsigned_less[where ?'a = nat, of ?x] by (simp add: clr_left_eq)
  then have "unat (of_nat k :: 64 word) = k" by (simp add: unsigned_of_nat take_bit_nat_eq_self)
  moreover from this have "of_nat k \<le> ?x" using assms by (simp add: word_le_nat_alt clr_left_eq)
  ultimately have "unat (?x - of_nat k) = unat ?x - k" by (simp add: unat_sub)
  then show ?thesis by (simp add: clr_left_eq diff_diff_eq)
qed

text \<open>
  One poll: at most \<open>clr_left\<close> bytes are taken from the connection, whatever the buffer holds,
  and an end of the stream before that is an error.
\<close>

lemma clr_poll_read_spec:
  assumes "rx_ok io" "0 < n" "clr_poll_read n (d, io) = (r, d', io')"
  shows "rx_ok io' \<and> same_tx io io' \<and> calm io io' \<and> clr_limit d' = clr_limit d \<and> (\<forall>p. r \<noteq> Panic p)
    \<and> (\<forall>bs. r = Ok bs \<longrightarrow> length bs \<le> n \<and> length bs \<le> clr_left d \<and> in_stream io = bs @ in_stream io'
          \<and> clr_left d' = clr_left d - length bs \<and> (bs = [] \<longrightarrow> clr_is_end d \<and> io' = io)
          \<and> (bs \<noteq> [] \<longrightarrow> io_size io' < io_size io))
    \<and> (r = Pending \<longrightarrow> d' = d \<and> in_stream io' = in_stream io
          \<and> (io_size io' < io_size io \<or> in_stream io' = []))
    \<and> (\<forall>e. r = Err e \<longrightarrow> \<not> io_clean io)"
proof (cases "clr_left d = 0")
  case True
  then show ?thesis using assms clr_left_zero[of d] by (auto simp: clr_poll_read_def)
next
  case False
  let ?m = "min n (clr_left d)"
  obtain q io1 where q: "poll_read ?m io = (q, io1)" by fastforce
  note rd = poll_read_buf_spec[OF assms(1), of ?m q io1, folded poll_read_def, OF q]
  have m: "0 < ?m" using assms(2) False by simp
  note calm = poll_read_calm[OF q m assms(1)]
  show ?thesis
  proof (cases q)
    case (Ok bs)
    then have len: "length bs \<le> n" "length bs \<le> clr_left d" using rd by auto
    show ?thesis
    proof (cases "bs = []")
      case True
      with assms q Ok False have "\<exists>e. r = Err e" "d' = d" "io' = io1" by (auto simp: clr_poll_read_def)
      with True Ok rd calm show ?thesis by auto
    next
      case ne: False
      with assms q Ok False have "r = Ok bs" "d' = d\<lparr>clr_total := clr_total d + of_nat (length bs)\<rparr>" "io' = io1"
        by (auto simp: clr_poll_read_def)
      with ne Ok rd calm len clr_left_advance[OF len(2)] poll_read_size[OF q[unfolded Ok]] show ?thesis by auto
    qed
  next
    case (Err e)
    with assms q False have "r = Err e" "d' = d" "io' = io1" by (auto simp: clr_poll_read_def)
    with Err rd calm show ?thesis by auto
  next
    case Pending
    with assms q False have "r = Pending" "d' = d" "io' = io1" by (auto simp: clr_poll_read_def)
    with Pending rd calm show ?thesis by auto
  next
    case (Panic p)
    with rd show ?thesis by simp
  qed
qed

text \<open>An announced length that the peer does not honour is reported with both numbers.\<close>

lemma clr_poll_read_short:
  assumes "rx_ok io" "0 < n" "\<not> clr_is_end d" "unread io = []" "tr_rx (bi_inner io) = RxData [] # es"
  shows "\<exists>io'. clr_poll_read n (d, io) = (Err (IoError UnexpectedEof
     (''Partial body received '' @ show_radix 10 (unat (clr_total d)) @ '' bytes and expected ''
        @ show_radix 10 (unat (clr_limit d)))), d, io')"
  using assms clr_left_zero[of d]
  by (auto simp: clr_poll_read_def poll_read_def poll_read_buf_def tr_poll_read.simps unread_nil_iff)

section \<open>Reading to the end of the connection\<close>

text \<open>
  What the connection delivers up to its end, which is an empty read or an error that means
  the peer hung up, and the answers that come after that.
\<close>

fun rx_to_end :: "rx_event list \<Rightarrow> bytes \<times> rx_event list" where
  "rx_to_end [] = ([], [])"
| "rx_to_end (RxPending # es) = rx_to_end es"
| "rx_to_end (RxErr e # es) = (if is_closed_kind (io_kind e) then ([], es) else rx_to_end es)"
| "rx_to_end (RxData bs # es) =
     (if bs = [] then ([], es) else (bs @ fst (rx_to_end es), snd (rx_to_end es)))"

text \<open>The connection does end, and no other error comes before that.\<close>

fun rx_ends :: "rx_event list \<Rightarrow> bool" where
  "rx_ends [] = False"
| "rx_ends (RxPending # es) = rx_ends es"
| "rx_ends (RxErr e # es) = is_closed_kind (io_kind e)"
| "rx_ends (RxData bs # es) = (bs = [] \<or> rx_ends es)"

definition rte_stream :: "read_to_end \<times> buf_io \<Rightarrow> bytes" where
  "rte_stream = (\<lambda>(d, io). if rte_reached_end d then []
     else unread io @ fst (rx_to_end (tr_rx (bi_inner io))))"

definition rte_after :: "read_to_end \<times> buf_io \<Rightarrow> bytes" where
  "rte_after = (\<lambda>(d, io). if rte_reached_end d then in_stream io
     else rx_bytes (snd (rx_to_end (tr_rx (bi_inner io)))))"

lemma tr_poll_read_to_end:
  assumes "tr_poll_read n t = (r, t')" "0 < n"
  shows "r = Ok bs \<Longrightarrow> bs \<noteq> [] \<Longrightarrow>
      rx_to_end (tr_rx t) = (bs @ fst (rx_to_end (tr_rx t')), snd (rx_to_end (tr_rx t')))
      \<and> rx_ends (tr_rx t') = rx_ends (tr_rx t)"
    "r = Ok [] \<Longrightarrow> rx_to_end (tr_rx t) = ([], tr_rx t')"
    "r = Pending \<Longrightarrow> rx_to_end (tr_rx t') = rx_to_end (tr_rx t) \<and> rx_ends (tr_rx t') = rx_ends (tr_rx t)"
    "r = Err e \<Longrightarrow> is_closed_kind (io_kind e) \<Longrightarrow> rx_to_end (tr_rx t) = ([], tr_rx t')"
    "r = Err e \<Longrightarrow> \<not> is_closed_kind (io_kind e) \<Longrightarrow> \<not> rx_ends (tr_rx t)"
  using assms by (auto simp: tr_poll_read.simps split: list.splits rx_event.splits if_splits)

lemma poll_read_cases:
  assumes "rx_ok io" "poll_read n io = (r, io')"
  obtains (Buffered) "unread io \<noteq> []" "r = Ok (take n (unread io))" "bi_inner io' = bi_inner io"
      "unread io' = drop n (unread io)"
  | (Direct) t where "unread io = []" "tr_poll_read n (bi_inner io) = (r, t)" "bi_inner io' = t" "unread io' = []"
proof (cases "unread io = []")
  case True
  obtain q t where q: "tr_poll_read n (bi_inner io) = (q, t)" by fastforce
  have no: "fb_len (bi_buf io) - bi_pos io = 0" using assms(1) True by (simp add: unread_nil_iff)
  have "poll_read n io = (q, io\<lparr>bi_inner := t, bi_pending_rx := (q = Pending)\<rparr>)"
    using q by (cases q) (simp_all add: poll_read_def poll_read_buf_def no)
  with assms(2) True q Direct[of t] show ?thesis by (auto simp: unread_def)
next
  case False
  then have r: "r = Ok (take n (unread io))" "bi_inner io' = bi_inner io"
    using assms by (auto simp: poll_read_def poll_read_buf_def Let_def unread_nil_iff split: if_splits)
  moreover have "in_stream io = take n (unread io) @ in_stream io'"
    using poll_read_buf_spec[OF assms(1), of n r io', folded poll_read_def, OF assms(2)] r by simp
  ultimately have "unread io = take n (unread io) @ unread io'" by (simp add: in_stream_def)
  then have "unread io' = drop n (unread io)" by (metis append_take_drop_id same_append_eq)
  with False r Buffered show ?thesis by simp
qed

lemma rte_poll_read_spec:
  assumes "rx_ok io" "0 < n" "rte_poll_read n (d, io) = (r, d', io')"
  shows "rx_ok io' \<and> same_tx io io' \<and> (\<forall>p. r \<noteq> Panic p)
    \<and> (\<forall>bs. r = Ok bs \<longrightarrow> length bs \<le> n \<and> rte_stream (d, io) = bs @ rte_stream (d', io')
          \<and> (bs = [] \<longleftrightarrow> rte_is_end d'))
    \<and> (r = Pending \<longrightarrow> d' = d \<and> rte_stream (d', io') = rte_stream (d, io))
    \<and> (\<forall>e. r = Err e \<longrightarrow> \<not> rx_ends (tr_rx (bi_inner io)))
    \<and> (\<not> rte_is_end d \<longrightarrow> rx_ends (tr_rx (bi_inner io)) \<longrightarrow>
         rte_after (d', io') = rte_after (d, io)
         \<and> (rte_is_end d' \<or> rx_ends (tr_rx (bi_inner io')) \<and> io_size io' < io_size io))"
proof (cases "rte_reached_end d")
  case True
  then show ?thesis using assms by (auto simp: rte_poll_read_def rte_is_end_def rte_stream_def)
next
  case False
  obtain q io1 where q: "poll_read n io = (q, io1)" by fastforce
  have "io' = io1" using assms q False by (auto simp: rte_poll_read_def split: res.splits if_splits)
  note q = q[folded this]
  note rd = poll_read_buf_spec[OF assms(1), of n q io', folded poll_read_def, OF q]
  note calm = poll_read_calm[OF q assms(2,1)]
  from assms(1) q show ?thesis
  proof (cases rule: poll_read_cases)
    case Buffered
    with assms(2) have "r = q" "d' = d" using assms(2,3) q False by (auto simp: rte_poll_read_def)
    moreover have "io_size io' < io_size io"
      using poll_read_size[of n io "take n (unread io)" io'] q Buffered assms(2) by simp
    moreover have "rx_ok io'" "same_tx io io'" using rd by auto
    moreover have "rte_stream (d, io) = take n (unread io) @ rte_stream (d, io')"
      "rte_after (d, io') = rte_after (d, io)"
      using Buffered False by (simp_all add: rte_stream_def rte_after_def)
    ultimately show ?thesis using Buffered False assms(2) by (auto simp: rte_is_end_def)
  next
    case (Direct t)
    show ?thesis
    proof (cases q)
      case (Ok bs)
      then have "r = Ok bs" "rte_reached_end d' = (bs = [])"
        using assms(2,3) q False by (auto simp: rte_poll_read_def split: if_splits)
      with Direct Ok rd False tr_poll_read_to_end(1,2)[OF Direct(2) assms(2)] poll_read_size[of n io bs io'] q
      show ?thesis by (cases "bs = []") (auto simp: rte_stream_def rte_after_def rte_is_end_def in_stream_def)
    next
      case (Err e)
      then have "r = (if is_closed_kind (io_kind e) then Ok [] else Err e)"
        "rte_reached_end d' = is_closed_kind (io_kind e)"
        using assms(2,3) q False by (auto simp: rte_poll_read_def split: if_splits)
      with Direct Err rd False tr_poll_read_to_end(4,5)[OF Direct(2) assms(2), of e]
      show ?thesis by (auto simp: rte_stream_def rte_after_def rte_is_end_def in_stream_def)
    next
      case Pending
      then have "r = Pending" "d' = d" using assms(2,3) q False by (auto simp: rte_poll_read_def)
      moreover have "rx_ends (tr_rx (bi_inner io)) \<Longrightarrow> tr_rx t \<noteq> []"
        using tr_poll_read_to_end(3)[OF Direct(2) assms(2)] Pending by auto
      moreover have "rx_size (tr_rx t) < rx_size (tr_rx (bi_inner io)) \<or> tr_rx t = []"
        using tr_poll_read_pending Direct Pending by simp
      ultimately show ?thesis
        using Direct Pending rd False tr_poll_read_to_end(3)[OF Direct(2) assms(2)]
        by (auto simp: rte_stream_def rte_after_def rte_is_end_def io_size_def)
    next
      case (Panic p)
      with rd show ?thesis by simp
    qed
  qed
qed

section \<open>A limit is a source that ends\<close>

text \<open>
  What a limiter will deliver from a connection, when it is sure to deliver all of it, and
  what it leaves for the next message.
\<close>

definition lr_stream :: "limit_read \<times> buf_io \<Rightarrow> bytes" where
  "lr_stream = (\<lambda>(self, io). case self of
      LR_ChunkedDecoder d \<Rightarrow> decoded d (in_stream io)
    | LR_ContentLength d \<Rightarrow> take (clr_left d) (in_stream io)
    | LR_ReadToEnd d \<Rightarrow> rte_stream (d, io)
    | LR_NoBody \<Rightarrow> [])"

definition lr_beyond :: "limit_read \<times> buf_io \<Rightarrow> bytes" where
  "lr_beyond = (\<lambda>(self, io). case self of
      LR_ChunkedDecoder d \<Rightarrow> leftover d (in_stream io)
    | LR_ContentLength d \<Rightarrow> drop (clr_left d) (in_stream io)
    | LR_ReadToEnd d \<Rightarrow> rte_after (d, io)
    | LR_NoBody \<Rightarrow> in_stream io)"

definition lr_fine :: "limit_read \<times> buf_io \<Rightarrow> bool" where
  "lr_fine = (\<lambda>(self, io). case self of
      LR_ChunkedDecoder d \<Rightarrow> io_clean io \<and> completes d (in_stream io)
    | LR_ContentLength d \<Rightarrow> io_clean io \<and> clr_left d \<le> length (in_stream io)
    | LR_ReadToEnd d \<Rightarrow> rte_is_end d \<or> rx_ends (tr_rx (bi_inner io))
    | LR_NoBody \<Rightarrow> True)"

definition lr_ok :: "limit_read \<times> buf_io \<Rightarrow> bool" where
  "lr_ok = (\<lambda>(self, io). rx_ok io \<and> (case self of LR_ChunkedDecoder d \<Rightarrow> cd_ok d | _ \<Rightarrow> True))"

lemma lr_poll_read_chunked:
  "lr_poll_read n (LR_ChunkedDecoder d, io) = (r, s') \<longleftrightarrow>
    (\<exists>d' io'. s' = (LR_ChunkedDecoder d', io') \<and> cd_poll_read n (d, io) = (r, d', io'))"
  by (cases "cd_poll_read n (d, io)") (auto simp: lr_poll_read_def)

lemma lr_poll_read_length:
  "lr_poll_read n (LR_ContentLength d, io) = (r, s') \<longleftrightarrow>
    (\<exists>d' io'. s' = (LR_ContentLength d', io') \<and> clr_poll_read n (d, io) = (r, d', io'))"
  by (cases "clr_poll_read n (d, io)") (auto simp: lr_poll_read_def)

lemma lr_poll_read_to_end:
  "lr_poll_read n (LR_ReadToEnd d, io) = (r, s') \<longleftrightarrow>
    (\<exists>d' io'. s' = (LR_ReadToEnd d', io') \<and> rte_poll_read n (d, io) = (r, d', io'))"
  by (cases "rte_poll_read n (d, io)") (auto simp: lr_poll_read_def)

lemma lr_poll_read_none: "lr_poll_read n (LR_NoBody, io) = (Ok [], LR_NoBody, io)"
  by (simp add: lr_poll_read_def)

lemmas lr_polls = lr_poll_read_chunked lr_poll_read_length lr_poll_read_to_end lr_poll_read_none

lemmas lr_defs = lr_stream_def lr_beyond_def lr_fine_def lr_ok_def lr_is_complete_def

lemma take_drop_stream:
  assumes "s = bs @ s'" "length bs \<le> k"
  shows "take k s = bs @ take (k - length bs) s'" "drop k s = drop (k - length bs) s'"
  using assms by simp_all

lemma lr_poll_read_stream:
  assumes "lr_ok (l, io)" "0 < n" "lr_poll_read n (l, io) = (r, l', io')"
  shows "(\<forall>p. r \<noteq> Panic p)
    \<and> (\<forall>bs. r = Ok bs \<longrightarrow> lr_ok (l', io') \<and> length bs \<le> n \<and> lr_stream (l, io) = bs @ lr_stream (l', io'))
    \<and> (r = Pending \<longrightarrow> lr_ok (l', io') \<and> lr_stream (l', io') = lr_stream (l, io))"
proof (cases l)
  case (LR_ChunkedDecoder d)
  with assms obtain d' where d': "l' = LR_ChunkedDecoder d'" "cd_poll_read n (d, io) = (r, d', io')"
    "cd_ok d" "rx_ok io" by (auto simp: lr_polls lr_ok_def)
  note cd_poll_read_stream[OF d'(3,4) assms(2) d'(2)]
  with LR_ChunkedDecoder d'(1) show ?thesis by (cases r) (simp_all add: lr_ok_def lr_stream_def)
next
  case (LR_ContentLength d)
  with assms obtain d' where d': "l' = LR_ContentLength d'" "clr_poll_read n (d, io) = (r, d', io')" "rx_ok io"
    by (auto simp: lr_polls lr_ok_def)
  note clr_poll_read_spec[OF d'(3) assms(2) d'(2)]
  with LR_ContentLength d'(1) show ?thesis by (cases r) (auto simp: lr_ok_def lr_stream_def)
next
  case (LR_ReadToEnd d)
  with assms obtain d' where d': "l' = LR_ReadToEnd d'" "rte_poll_read n (d, io) = (r, d', io')" "rx_ok io"
    by (auto simp: lr_polls lr_ok_def)
  note rte_poll_read_spec[OF d'(3) assms(2) d'(2)]
  with LR_ReadToEnd d'(1) show ?thesis by (cases r) (auto simp: lr_ok_def lr_stream_def)
next
  case LR_NoBody
  with assms show ?thesis by (auto simp: lr_polls lr_ok_def lr_stream_def)
qed

lemma lr_poll_progress:
  assumes "lr_ok (l, io)" "0 < n" "lr_fine (l, io)" "\<not> lr_is_complete l"
    "lr_poll_read n (l, io) = (r, l', io')"
  shows "(\<forall>e. r \<noteq> Err e) \<and> lr_fine (l', io') \<and> lr_beyond (l', io') = lr_beyond (l, io)
    \<and> (lr_is_complete l' \<or> io_size io' < io_size io)"
proof (cases l)
  case (LR_ChunkedDecoder d)
  with assms obtain d' where d': "l' = LR_ChunkedDecoder d'" "cd_poll_read n (d, io) = (r, d', io')"
    "cd_ok d" "rx_ok io" "io_clean io" "completes d (in_stream io)" "\<not> cd_is_end d"
    by (auto simp: lr_polls lr_defs)
  note cd_poll_progress[OF d'(3,4) assms(2) d'(5-7,2)]
  with LR_ChunkedDecoder d'(1) show ?thesis by (simp add: lr_defs)
next
  case (LR_ContentLength d)
  with assms obtain d' where d': "l' = LR_ContentLength d'" "clr_poll_read n (d, io) = (r, d', io')"
    "rx_ok io" "io_clean io" "clr_left d \<le> length (in_stream io)" "\<not> clr_is_end d"
    by (auto simp: lr_polls lr_defs)
  note spec = clr_poll_read_spec[OF d'(3) assms(2) d'(2)]
  from d'(6) have "0 < clr_left d" using clr_left_zero by blast
  with spec LR_ContentLength d' show ?thesis
    by (cases r) (auto simp: lr_defs calm_def)
next
  case (LR_ReadToEnd d)
  with assms obtain d' where d': "l' = LR_ReadToEnd d'" "rte_poll_read n (d, io) = (r, d', io')" "rx_ok io"
    "rx_ends (tr_rx (bi_inner io))" "\<not> rte_is_end d"
    by (auto simp: lr_polls lr_defs)
  note rte_poll_read_spec[OF d'(3) assms(2) d'(2)]
  with LR_ReadToEnd d' show ?thesis by (auto simp: lr_defs)
next
  case LR_NoBody
  with assms(4) show ?thesis by (simp add: lr_is_complete_def)
qed

interpretation lr_drain: draining_source lr_poll_read lr_stream lr_ok
  "\<lambda>(l, io). io_size io" lr_fine "\<lambda>(l, io). lr_is_complete l" lr_beyond
proof (unfold_locales, goal_cases)
  case (1 s n bs s')
  then show ?case using lr_poll_read_stream[of "fst s" "snd s" n "Ok bs" "fst s'" "snd s'"] by simp
next
  case (2 s n s')
  then show ?case using lr_poll_read_stream[of "fst s" "snd s" n Pending "fst s'" "snd s'"] by simp
next
  case (3 s n p s')
  then show ?case using lr_poll_read_stream[of "fst s" "snd s" n "Panic p" "fst s'" "snd s'"] by auto
next
  case (4 s n r s')
  then show ?case using lr_poll_progress[of "fst s" "snd s" n r "fst s'" "snd s'"] by (simp add: split_def)
next
  case (5 s n)
  obtain l io where s: "s = (l, io)" by fastforce
  with 5 show ?case
    by (cases l) (auto simp: lr_defs lr_polls cd_drain.rd_finished clr_poll_read_def clr_left_zero
        rte_poll_read_def rte_is_end_def)
next
  case (6 s)
  obtain l io where s: "s = (l, io)" by fastforce
  with 6 clr_left_zero show ?case
    by (cases l) (auto simp: lr_defs rte_stream_def rte_is_end_def)
qed

text \<open>An empty read of a body that is sure to arrive in full is its end.\<close>

lemma lr_poll_empty:
  assumes "lr_ok (l, io)" "0 < n" "lr_fine (l, io)" "lr_poll_read n (l, io) = (Ok [], l', io')"
  shows "lr_is_complete l'"
proof (cases l)
  case (LR_ChunkedDecoder d)
  with assms obtain d' where d': "l' = LR_ChunkedDecoder d'" "cd_poll_read n (d, io) = (Ok [], d', io')"
    "cd_ok d" "rx_ok io" "io_clean io" by (auto simp: lr_polls lr_defs)
  from cd_poll_read_feeds[OF d'(3,4) assms(2) d'(2)] d'(1,5) show ?thesis by (simp add: fed_poll_def lr_is_complete_def)
next
  case (LR_ContentLength d)
  with assms obtain d' where d': "l' = LR_ContentLength d'" "clr_poll_read n (d, io) = (Ok [], d', io')" "rx_ok io"
    by (auto simp: lr_polls lr_ok_def)
  from clr_poll_read_spec[OF d'(3) assms(2) d'(2)] have "clr_is_end d" "clr_left d' = clr_left d" by auto
  with d'(1) show ?thesis using clr_left_zero[of d] clr_left_zero[of d'] by (simp add: lr_is_complete_def)
next
  case (LR_ReadToEnd d)
  with assms obtain d' where d': "l' = LR_ReadToEnd d'" "rte_poll_read n (d, io) = (Ok [], d', io')" "rx_ok io"
    by (auto simp: lr_polls lr_ok_def)
  from rte_poll_read_spec[OF d'(3) assms(2) d'(2)] d'(1) show ?thesis by (simp add: lr_is_complete_def)
next
  case LR_NoBody
  with assms show ?thesis by (auto simp: lr_polls lr_is_complete_def)
qed

text \<open>A pending poll has used up something of the transport and is not at the end.\<close>

lemma lr_poll_pending:
  assumes "lr_ok (l, io)" "0 < n" "lr_fine (l, io)" "\<not> lr_is_complete l" "lr_poll_read n (l, io) = (Pending, l', io')"
  shows "\<not> lr_is_complete l'" "io_size io' < io_size io"
proof -
  show "\<not> lr_is_complete l'"
  proof (cases l)
    case (LR_ChunkedDecoder d)
    with assms(5) cd_poll_read_pending show ?thesis by (auto simp: lr_polls lr_is_complete_def)
  next
    case (LR_ContentLength d)
    with assms(4,5) show ?thesis
      by (auto simp: lr_polls clr_poll_read_def Let_def lr_is_complete_def split: prod.splits res.splits if_splits)
  next
    case (LR_ReadToEnd d)
    with assms(4,5) show ?thesis
      by (auto simp: lr_polls rte_poll_read_def lr_is_complete_def split: prod.splits res.splits if_splits)
  next
    case LR_NoBody
    with assms(5) show ?thesis by (simp add: lr_polls)
  qed
  with lr_poll_progress[OF assms] show "io_size io' < io_size io" by blast
qed

section \<open>Reads shrink the input\<close>

text \<open>
  Whatever a limiter finds, reading never makes the input larger and leaves the writing side
  alone, a read that delivers something makes the input smaller, and a pending one waits for the
  transport. The loops of the client and the server terminate by this.
\<close>

definition reads_only :: "buf_io \<Rightarrow> buf_io \<Rightarrow> bool" where
  "reads_only io io' \<longleftrightarrow> io_size io' \<le> io_size io \<and> same_tx io io'"

lemma reads_only_refl [simp]: "reads_only io io" by (simp add: reads_only_def)

lemma reads_only_trans: "reads_only a b \<Longrightarrow> reads_only b c \<Longrightarrow> reads_only a c"
  by (auto simp: reads_only_def intro: same_tx_trans)

text \<open>
  The flag \<open>bi_pending_rx\<close> tells the truth: a pending read sets it and has used up the read buffer,
  and nothing else does.
\<close>

definition settled :: "bool \<Rightarrow> buf_io \<Rightarrow> buf_io \<Rightarrow> bool" where
  "settled pend io io' \<longleftrightarrow> (pend \<longrightarrow> bi_pending_rx io' \<and> unread io' = [])
     \<and> (bi_pending_rx io' \<longrightarrow> pend \<or> bi_pending_rx io)"

lemma settled_refl [simp]: "settled False io io" by (simp add: settled_def)

lemma settled_trans: "settled False a b \<Longrightarrow> settled p b c \<Longrightarrow> settled p a c"
  by (auto simp: settled_def)

lemma poll_read_only:
  assumes "poll_read n io = (r, io')"
  shows "reads_only io io' \<and> settled (r = Pending) io io'"
proof (cases "fb_len (bi_buf io) - bi_pos io = 0")
  case True
  obtain q t where q: "tr_poll_read n (bi_inner io) = (q, t)" by fastforce
  have "poll_read n io = (q, io\<lparr>bi_inner := t, bi_pending_rx := (q = Pending)\<rparr>)"
    using q by (cases q) (simp_all add: poll_read_def poll_read_buf_def True)
  with assms True tr_poll_read_size(1)[OF q] tr_poll_read_frame[OF q] show ?thesis
    by (auto simp: reads_only_def io_size_def unread_def same_tx_def settled_def fb_deref_def)
next
  case False
  then have "r \<noteq> Pending" "same_tx io io'" "bi_inner io' = bi_inner io" "bi_pending_rx io' = bi_pending_rx io" "unread io' = [] \<or> unread io' = drop (length (take n (unread io))) (unread io)"
    using assms by (auto simp: poll_read_def poll_read_buf_def Let_def unread_def same_tx_def add.commute split: if_splits)
  then show ?thesis by (auto simp: reads_only_def io_size_def settled_def)
qed

lemma poll_chunk_size_only:
  "poll_chunk_size (d, io) = (r, d', io') \<Longrightarrow> reads_only io io' \<and> settled (r = Pending) io io'"
proof (induction "(d, io)" arbitrary: d io rule: poll_chunk_size.induct)
  case (1 d io)
  obtain q io1 where q: "poll_read 1 io = (q, io1)" by fastforce
  have "reads_only io io1" "settled (q = Pending) io io1" using poll_read_only[OF q] by auto
  with "1.prems" q "1.hyps"[OF q[symmetric]] show ?case
    by (subst (asm) poll_chunk_size.simps)
      (fastforce simp: Let_def intro: reads_only_trans settled_trans split: res.splits list.splits if_splits)
qed

lemma poll_skip_until_lf_only:
  "poll_skip_until_lf (d, io) = (r, d', io') \<Longrightarrow> reads_only io io' \<and> settled (r = Pending) io io'"
proof (induction "(d, io)" arbitrary: d io rule: poll_skip_until_lf.induct)
  case (1 d io)
  obtain q io1 where q: "poll_read 1 io = (q, io1)" by fastforce
  have "reads_only io io1" "settled (q = Pending) io io1" using poll_read_only[OF q] by auto
  with "1.prems" q "1.hyps"[OF q[symmetric]] show ?case
    by (subst (asm) poll_skip_until_lf.simps) (fastforce intro: reads_only_trans settled_trans split: res.splits list.splits if_splits)
qed

lemma cd_poll_read_only:
  "cd_poll_read n (d, io) = (r, d', io') \<Longrightarrow>
    reads_only io io' \<and> settled (r = Pending) io io' \<and> (\<forall>bs. r = Ok bs \<longrightarrow> bs \<noteq> [] \<longrightarrow> io_size io' < io_size io)"
proof (induction n "(d, io)" arbitrary: d io rule: cd_poll_read.induct)
  case (1 n d io)
  note IH = "1.hyps"
  note eq = "1.prems"[unfolded cd_poll_read.simps[of n d io]]
  show ?case
  proof (cases "n = 0")
    case True
    with eq show ?thesis by auto
  next
    case n: False
    show ?thesis
    proof (cases "cd_state d")
      case ChunkSize
      obtain q d1 io1 where q: "poll_chunk_size (d, io) = (q, d1, io1)" by (metis prod_cases3)
      have le: "reads_only io io1" "settled (q = Pending) io io1" using poll_chunk_size_only[OF q] by auto
      show ?thesis
      proof (cases q)
        case (Ok u)
        with IH(1)[OF n ChunkSize, of u "(d1, io1)" d1 io1] eq q n ChunkSize le show ?thesis
          by (fastforce simp: reads_only_def intro: same_tx_trans settled_trans split: option.splits)
      qed (use eq q n ChunkSize le in auto)
    next
      case ChunkSizeLf
      obtain q d1 io1 where q: "poll_skip_until_lf (d, io) = (q, d1, io1)" by (metis prod_cases3)
      have le: "reads_only io io1" "settled (q = Pending) io io1" using poll_skip_until_lf_only[OF q] by auto
      show ?thesis
      proof (cases q)
        case (Ok u)
        with IH(2)[OF n ChunkSizeLf, of u "(d1, io1)" d1 io1] eq q n ChunkSizeLf le show ?thesis by (fastforce simp: reads_only_def intro: same_tx_trans settled_trans)
      qed (use eq q n ChunkSizeLf le in auto)
    next
      case ChunkLf
      obtain q d1 io1 where q: "poll_skip_until_lf (d, io) = (q, d1, io1)" by (metis prod_cases3)
      have le: "reads_only io io1" "settled (q = Pending) io io1" using poll_skip_until_lf_only[OF q] by auto
      show ?thesis
      proof (cases q)
        case (Ok u)
        with IH(3)[OF n ChunkLf, of u "(d1, io1)" d1 io1] eq q n ChunkLf le show ?thesis by (fastforce simp: reads_only_def intro: same_tx_trans settled_trans)
      qed (use eq q n ChunkLf le in auto)
    next
      case Chunk
      obtain q io1 where q: "poll_read (min (cd_amount_left d) n) io = (q, io1)" by fastforce
      with eq n Chunk poll_read_only[OF q] poll_read_size[of "min (cd_amount_left d) n" io _ io1] show ?thesis
        by (cases q) (auto simp: Let_def)
    next
      case End
      with eq n show ?thesis by auto
    qed
  qed
qed

lemma lr_poll_read_only:
  assumes "lr_poll_read n (l, io) = (r, l', io')"
  shows "reads_only io io'" "r = Ok bs \<Longrightarrow> bs \<noteq> [] \<Longrightarrow> io_size io' < io_size io" "r = Pending \<Longrightarrow> bi_pending_rx io'"
    "settled (r = Pending) io io'"
proof -
  have "reads_only io io' \<and> settled (r = Pending) io io' \<and> (\<forall>bs. r = Ok bs \<longrightarrow> bs \<noteq> [] \<longrightarrow> io_size io' < io_size io)"
  proof (cases l)
    case (LR_ChunkedDecoder d)
    with assms cd_poll_read_only show ?thesis by (auto simp: lr_polls)
  next
    case (LR_ContentLength d)
    with assms obtain d' where d': "clr_poll_read n (d, io) = (r, d', io')" by (auto simp: lr_polls)
    obtain q io1 where q: "poll_read (min n (clr_left d)) io = (q, io1)" by fastforce
    with d' poll_read_only[OF q] poll_read_size[of "min n (clr_left d)" io _ io1] show ?thesis
      by (cases q) (auto simp: clr_poll_read_def Let_def split: if_splits)
  next
    case (LR_ReadToEnd d)
    with assms obtain d' where d': "rte_poll_read n (d, io) = (r, d', io')" by (auto simp: lr_polls)
    obtain q io1 where q: "poll_read n io = (q, io1)" by fastforce
    with d' poll_read_only[OF q] poll_read_size[of n io _ io1] show ?thesis
      by (cases q) (auto simp: rte_poll_read_def split: if_splits)
  next
    case LR_NoBody
    with assms show ?thesis by (auto simp: lr_polls)
  qed
  then show "reads_only io io'" "r = Ok bs \<Longrightarrow> bs \<noteq> [] \<Longrightarrow> io_size io' < io_size io"
    "r = Pending \<Longrightarrow> bi_pending_rx io'" "settled (r = Pending) io io'" by (auto simp: settled_def)
qed

section \<open>Writing within the limit\<close>

text \<open>How a writer frames a piece of the body and its end, and when it refuses a piece.\<close>

definition lw_frame :: "limit_write \<Rightarrow> bytes \<Rightarrow> bytes" where
  "lw_frame self data = (case self of
      LW_ChunkedEncoder \<Rightarrow> enc_chunk data | LW_ContentLength _ \<Rightarrow> data | LW_NoBody \<Rightarrow> [])"

definition lw_frame_end :: "limit_write \<Rightarrow> bytes" where
  "lw_frame_end self = (case self of LW_ChunkedEncoder \<Rightarrow> enc_end | _ \<Rightarrow> [])"

definition lw_count :: "bytes \<Rightarrow> limit_write \<Rightarrow> limit_write" where
  "lw_count data self = (case self of
      LW_ContentLength v \<Rightarrow> LW_ContentLength (v\<lparr>clw_total := clw_total v + of_nat (length data)\<rparr>)
    | _ \<Rightarrow> self)"

definition lw_refuses :: "limit_write \<Rightarrow> bytes \<Rightarrow> bool" where
  "lw_refuses self data = (case self of
      LW_ContentLength v \<Rightarrow> data \<noteq> [] \<and> clw_total v + of_nat (length data) > clw_limit v
    | _ \<Rightarrow> False)"

lemmas lw_defs = lw_frame_def lw_frame_end_def lw_count_def lw_refuses_def

lemma lw_count_frame [simp]:
  "lw_frame (lw_count data w) = lw_frame w" "lw_frame_end (lw_count data w) = lw_frame_end w"
  "lw_overhead (lw_count data w) = lw_overhead w"
  by (cases w; auto simp: lw_defs lw_overhead_def fun_eq_iff)+

lemma lw_accept_entire_vec_eq:
  "lw_can_write_entire_vec w \<Longrightarrow> lw_accept_entire_vec data w = Ok (lw_count data w)"
  by (cases w) (auto simp: lw_can_write_entire_vec_def lw_accept_entire_vec_def lw_defs)

lemma clw_write_spec:
  assumes "fb_ok b" "fb_len b + length data \<le> fb_cap b" "data \<noteq> []"
    "clw_total v + of_nat (length data) \<le> clw_limit v"
  shows "\<exists>b'. clw_write data v b =
      (Ok (Inr ()), v\<lparr>clw_total := clw_total v + of_nat (length data)\<rparr>, b')
    \<and> fb_ok b' \<and> fb_deref b' = fb_deref b @ data"
proof -
  have "0 < length data" using assms(3) by simp
  then have cap: "0 < fb_cap b" "fb_len b < fb_cap b \<or> fb_cap b < MAX_CAPACITY"
    using assms(2) by linarith+
  obtain r where r: "fb_borrow b = Ok r" "fr_ok r" "fr_bytes r = fb_deref b" "fr_cur_len r = fb_len b"
    "fb_cap b \<le> fb_cap (fr_buf r)"
    using fb_borrow_Ok[OF assms(1) cap] by metis
  have cl: "fb_len (fr_buf r) = fb_cap (fr_buf r)" using r(2) by (simp add: fr_ok_def)
  obtain r1 where "fr_extend_from_slice data r = Ok r1" "fr_ok r1" "fr_bytes r1 = fr_bytes r @ data"
    by (rule fr_extend_from_slice_Ok[OF r(2), of data]) (use r cl assms(2) in auto)
  with assms(3,4) r show ?thesis by (auto simp: clw_write_def Let_def)
qed

text \<open>
  The buffer that \<^verbatim>\<open>SendStream\<close> allocates, the length of the data and the overhead, is large
  enough for the frame and for the end of the body after it: no write panics.
\<close>

lemma lw_write_fresh:
  assumes "length data < USIZE_BOUND" "\<not> lw_refuses w data"
  shows "\<exists>b. lw_write data w (fb_with_capacity (length data + lw_overhead w)) = (Ok (Inr ()), lw_count data w, b)
    \<and> fb_into_vec b = lw_frame w data
    \<and> (\<exists>b'. lw_finish (lw_count data w) b = (Ok (Inr ()), lw_count data w, b')
         \<and> fb_into_vec b' = lw_frame w data @ lw_frame_end w)"
proof (cases w)
  case LW_ChunkedEncoder
  let ?b = "fb_with_capacity (length data + 32)"
  have len: "length (enc_chunk data) \<le> length data + 20" using length_enc_chunk[OF assms(1)] .
  obtain b where b: "write_chunk data ?b = Ok b" "fb_ok b" "fb_deref b = enc_chunk data"
    "fb_cap ?b \<le> fb_cap b" "fb_len b = length (enc_chunk data)"
    by (rule write_chunk_spec[of ?b data]) (use len in auto)
  moreover obtain b' where "write_finish b = Ok b'" "fb_deref b' = fb_deref b @ enc_end"
    by (rule write_finish_spec[of b]) (use b len in \<open>auto simp: enc_end_def\<close>)
  ultimately show ?thesis using LW_ChunkedEncoder
    by (auto simp: lw_write_def lw_finish_def lw_defs lw_overhead_def into_result_def fb_into_vec_def)
next
  case (LW_ContentLength v)
  show ?thesis
  proof (cases "data = []")
    case True
    with LW_ContentLength show ?thesis
      by (auto simp: lw_write_def clw_write_def lw_finish_def lw_defs fb_into_vec_def)
  next
    case False
    with LW_ContentLength assms(2) have "clw_total v + of_nat (length data) \<le> clw_limit v"
      by (auto simp: lw_refuses_def)
    with clw_write_spec[of "fb_with_capacity (length data)" data v] False LW_ContentLength show ?thesis
      by (auto simp: lw_write_def lw_finish_def lw_defs lw_overhead_def fb_into_vec_def)
  qed
next
  case LW_NoBody
  then show ?thesis by (auto simp: lw_write_def lw_finish_def lw_defs fb_into_vec_def)
qed

lemma lw_write_refused:
  assumes "lw_refuses w data"
  shows "\<exists>m. lw_write data w out = (Ok (Inl (User m)), lw_count data w, out)"
  using assms by (cases w) (auto simp: lw_refuses_def lw_write_def clw_write_def lw_count_def)

section \<open>Properties\<close>

lemma clr_poll_all:
  assumes "rx_ok io" "0 \<notin> set ns" "poll_all lr_poll_read ns (LR_ContentLength d, io) = (bs, l, io')"
  shows "\<exists>d'. l = LR_ContentLength d' \<and> length bs + clr_left d' = clr_left d"
  using assms
proof (induction ns arbitrary: d io bs l io')
  case (Cons n ns)
  obtain r d1 io1 where q: "clr_poll_read n (d, io) = (r, d1, io1)" by (metis prod_cases3)
  then have q': "lr_poll_read n (LR_ContentLength d, io) = (r, LR_ContentLength d1, io1)"
    by (simp add: lr_polls)
  have n: "0 < n" "0 \<notin> set ns" using Cons.prems(2) by auto
  note spec = clr_poll_read_spec[OF Cons.prems(1) n(1) q]
  obtain bs1 l1 io2 where rest: "poll_all lr_poll_read ns (LR_ContentLength d1, io1) = (bs1, l1, io2)"
    by (metis prod_cases3)
  with spec Cons.IH[OF _ n(2) rest] obtain d2 where
    "l1 = LR_ContentLength d2" "length bs1 + clr_left d2 = clr_left d1" by auto
  with spec Cons.prems(3) q' rest show ?case
  proof (cases r)
    case (Err e)
    with Cons.prems(3) q' have "bs = []" "l = LR_ContentLength d1" by auto
    moreover have "d1 = d" using q Err n by (auto simp: clr_poll_read_def Let_def split: if_splits res.splits prod.splits)
    ultimately show ?thesis by simp
  qed auto
qed simp

text \<open>
  C21. A body with a \<^verbatim>\<open>content-length\<close> is delivered exactly. Let the headers announce \<open>N\<close> bytes and
  no transfer encoding, and let the connection, which neither fails nor ends, still hold at
  least \<open>N\<close> bytes. Polling the limiter often enough, with a buffer of any size, returns the
  next \<open>N\<close> bytes of the connection, completes the limiter, and leaves the connection at
  the first byte after the body.
\<close>

theorem content_length_exact:
  assumes "\<not> is_chunked hs" "get_as hs ''content-length'' = Some N"
    and "rx_ok io" "io_clean io" "unat N \<le> length (in_stream io)" "0 < n" "io_size io < k"
  shows "\<exists>l io'. poll_all lr_poll_read (replicate k n) (lr_from_headers hs resp, io)
       = (take (unat N) (in_stream io), l, io')
     \<and> lr_is_complete l \<and> in_stream io' = drop (unat N) (in_stream io)"
proof -
  let ?s = "(LR_ContentLength (clr_new N), io)"
  have l: "lr_from_headers hs resp = LR_ContentLength (clr_new N)"
    using assms(1,2) by (simp add: lr_from_headers_def)
  obtain l' io' where t: "poll_all lr_poll_read (replicate k n) ?s = (take (unat N) (in_stream io), l', io')"
    "lr_is_complete l'" "lr_beyond (l', io') = drop (unat N) (in_stream io)"
    using lr_drain.poll_all_complete[of ?s n k] assms(3-7) by (auto simp: lr_defs)
  moreover obtain d where "l' = LR_ContentLength d"
    using clr_poll_all[OF assms(3) _ t(1)] assms(6) by auto
  moreover from this t(2) have "clr_left d = 0" by (simp add: clr_left_zero lr_defs)
  ultimately show ?thesis using l by (auto simp: lr_defs)
qed

definition wit_tr :: "rx_event list \<Rightarrow> transport" where
  "wit_tr rx = \<lparr>tr_rx = rx, tr_tx = [], tr_flush = [], tr_close = [], tr_sent = [], tr_flushed = 0, tr_closed = False\<rparr>"

theorem content_length_exact_witness:
  "\<exists>l io'. poll_all lr_poll_read (replicate 30 4)
       (lr_from_headers (hm_of [(''content-length'', ''5'')]) True,
        bi_with_capacity 16 (wit_tr [RxData ''hel'', RxPending, RxData ''loHTTP'']))
       = (''hello'', l, io')
     \<and> lr_is_complete l \<and> in_stream io' = ''HTTP''"
proof -
  let ?hs = "hm_of [(''content-length'', ''5'')]"
  let ?io = "bi_with_capacity 16 (wit_tr [RxData ''hel'', RxPending, RxData ''loHTTP''])"
  have "\<not> is_chunked ?hs" "get_as ?hs ''content-length'' = Some 5" by code_simp+
  moreover have "rx_ok ?io" "io_clean ?io" "unat (5 :: 64 word) \<le> length (in_stream ?io)" "(0::nat) < 4"
    "io_size ?io < 30" by code_simp+
  ultimately have "\<exists>l io'. poll_all lr_poll_read (replicate 30 4) (lr_from_headers ?hs True, ?io)
       = (take (unat (5 :: 64 word)) (in_stream ?io), l, io')
     \<and> lr_is_complete l \<and> in_stream io' = drop (unat (5 :: 64 word)) (in_stream ?io)"
    by (rule content_length_exact)
  moreover have "take (unat (5 :: 64 word)) (in_stream ?io) = ''hello''"
    "drop (unat (5 :: 64 word)) (in_stream ?io) = ''HTTP''" by code_simp+
  ultimately show ?thesis by (simp only:)
qed

text \<open>
  C22. A limiter with a \<^verbatim>\<open>content-length\<close> never hands out more than announced and never reports
  completion early. Whatever the connection does (errors and an early end included) and
  whatever the buffer sizes, the bytes returned are a prefix of the next \<open>N\<close> bytes of the
  connection, and the limiter is complete exactly when all \<open>N\<close> have been returned.
\<close>

theorem content_length_complete_iff:
  assumes "\<not> is_chunked hs" "get_as hs ''content-length'' = Some N" "rx_ok io" "0 \<notin> set ns"
    and "poll_all lr_poll_read ns (lr_from_headers hs resp, io) = (bs, l, io')"
  shows "prefix bs (take (unat N) (in_stream io)) \<and> (lr_is_complete l \<longleftrightarrow> length bs = unat N)"
proof -
  have l: "lr_from_headers hs resp = LR_ContentLength (clr_new N)"
    using assms(1,2) by (simp add: lr_from_headers_def)
  obtain d where "l = LR_ContentLength d" "length bs + clr_left d = unat N"
    using clr_poll_all[OF assms(3,4) assms(5)[unfolded l]] by auto
  moreover have "prefix bs (take (unat N) (in_stream io))"
    using lr_drain.poll_all_prefix[of "(LR_ContentLength (clr_new N), io)" ns] assms(3-5) l
    by (simp add: lr_defs)
  ultimately show ?thesis using clr_left_zero[of d] by (auto simp: lr_defs)
qed

theorem content_length_complete_iff_witness:
  "prefix ''hel'' (take (unat (5 :: 64 word))
      (in_stream (bi_with_capacity 16 (wit_tr [RxData ''hel'', RxData []]))))
   \<and> (lr_is_complete (LR_ContentLength \<lparr>clr_limit = 5, clr_total = 3\<rparr>) \<longleftrightarrow> length ''hel'' = unat (5 :: 64 word))"
proof -
  let ?hs = "hm_of [(''content-length'', ''5'')]"
  let ?io = "bi_with_capacity 16 (wit_tr [RxData ''hel'', RxData []])"
  let ?p = "poll_all lr_poll_read [4, 4] (lr_from_headers ?hs False, ?io)"
  have a: "\<not> is_chunked ?hs" "get_as ?hs ''content-length'' = Some 5" "rx_ok ?io" "0 \<notin> set [4, 4 :: nat]"
    by code_simp+
  have "(fst ?p, fst (snd ?p)) = (''hel'', LR_ContentLength \<lparr>clr_limit = 5, clr_total = 3\<rparr>)" by code_simp
  then have b: "?p = (''hel'', LR_ContentLength \<lparr>clr_limit = 5, clr_total = 3\<rparr>, snd (snd ?p))"
    by (cases ?p) simp
  show ?thesis by (rule content_length_complete_iff[OF a b])
qed

text \<open>
  C34. A response without a length is read to the end of the connection. Let the headers of a
  response name neither a transfer encoding nor a length, and let the connection end, by an
  empty read or by one of the errors that mean the peer hung up. Polling the limiter often
  enough returns everything the connection delivers before that end, the limiter is then
  complete, and the connection is never offered for reuse.
\<close>

theorem read_to_end_exact:
  assumes "\<not> headers_indicate_body hs" "rx_ok io" "rx_ends (tr_rx (bi_inner io))" "0 < n" "io_size io < k"
  shows "\<exists>l io'. poll_all lr_poll_read (replicate k n) (lr_from_headers hs True, io)
       = (unread io @ fst (rx_to_end (tr_rx (bi_inner io))), l, io')
     \<and> lr_is_complete l \<and> \<not> lr_is_reusable l"
proof -
  let ?s = "(LR_ReadToEnd rte_new, io)"
  have l: "lr_from_headers hs True = LR_ReadToEnd rte_new"
    using assms(1) by (simp add: lr_from_headers_def headers_indicate_body_def split: option.splits)
  have kind: "lr_is_read_to_end (fst (snd (poll_all lr_poll_read ns (LR_ReadToEnd d, io))))" for ns d io
  proof (induction ns arbitrary: d io)
    case (Cons n ns)
    obtain r d1 io1 where "rte_poll_read n (d, io) = (r, d1, io1)" by (metis prod_cases3)
    then have "lr_poll_read n (LR_ReadToEnd d, io) = (r, LR_ReadToEnd d1, io1)" by (simp add: lr_polls)
    with Cons show ?case by (cases r) (auto simp: lr_is_read_to_end_def split_def Let_def)
  qed (simp add: lr_is_read_to_end_def)
  obtain t where "poll_all lr_poll_read (replicate k n) ?s = (lr_stream ?s, t)" "lr_is_complete (fst t)"
    using lr_drain.poll_all_complete[of ?s n k] assms(2-5) by (auto simp: lr_ok_def lr_fine_def)
  moreover have "lr_stream ?s = unread io @ fst (rx_to_end (tr_rx (bi_inner io)))"
    by (simp add: lr_stream_def rte_stream_def rte_new_def)
  ultimately show ?thesis using l kind[of "replicate k n" rte_new io]
    by (cases t) (simp add: lr_is_reusable_def)
qed

theorem read_to_end_exact_witness:
  "\<exists>l io'. poll_all lr_poll_read (replicate 30 4)
       (lr_from_headers (hm_of []) True,
        bi_with_capacity 16 (wit_tr [RxData ''hel'', RxPending, RxData ''lo'',
          RxErr (IoError ConnectionReset ''reset''), RxData ''x'']))
       = (''hello'', l, io')
     \<and> lr_is_complete l \<and> \<not> lr_is_reusable l"
proof -
  let ?io = "bi_with_capacity 16 (wit_tr [RxData ''hel'', RxPending, RxData ''lo'',
          RxErr (IoError ConnectionReset ''reset''), RxData ''x''])"
  have "\<not> headers_indicate_body (hm_of [])" "rx_ok ?io" "rx_ends (tr_rx (bi_inner ?io))" "(0::nat) < 4"
    "io_size ?io < 30" by code_simp+
  then have "\<exists>l io'. poll_all lr_poll_read (replicate 30 4) (lr_from_headers (hm_of []) True, ?io)
       = (unread ?io @ fst (rx_to_end (tr_rx (bi_inner ?io))), l, io')
     \<and> lr_is_complete l \<and> \<not> lr_is_reusable l"
    by (rule read_to_end_exact)
  moreover have "unread ?io @ fst (rx_to_end (tr_rx (bi_inner ?io))) = ''hello''" by code_simp
  ultimately show ?thesis by simp
qed

end
