(* ===== verification/Mpsc.thy ===== *)
theory Mpsc
  imports Prelude
begin

text \<open>
  \<^verbatim>\<open>src/mpsc.rs\<close>: the channel between the user's handles and the connection. The record \<open>chan\<close> is
  the shared \<^verbatim>\<open>Inner\<close> together with the reference counts its ends are dropped by: the number of
  \<^verbatim>\<open>Receiver\<close>s (the strong counts of \<^verbatim>\<open>inner\<close> and \<^verbatim>\<open>count\<close>) and of \<^verbatim>\<open>Sender\<close>s (the weak count of
  \<^verbatim>\<open>inner\<close>). A waker is the number of a task; \<open>ch_woken\<close> logs the calls of \<^verbatim>\<open>wake\<close>. Each method
  holds the mutex throughout, so it is one step; dropping an end is two, the \<^verbatim>\<open>drop\<close> method and
  then the release of its reference, and the last section looks at what runs in between.
\<close>

type_synonym waker = nat

record 'a chan =
  ch_queue :: "'a list"
  ch_ended :: bool
  ch_bound :: nat
  ch_wakers :: "waker list"
  ch_receivers :: nat
  ch_senders :: nat
  ch_woken :: "waker list"

section \<open>Inner\<close>

definition wake_all :: "'a chan \<Rightarrow> 'a chan" where
  "wake_all c = c\<lparr>ch_wakers := [], ch_woken := ch_woken c @ ch_wakers c\<rparr>"

definition inner_poll_ready :: "waker \<Rightarrow> bool \<Rightarrow> 'a chan \<Rightarrow> bool res \<times> 'a chan" where
  "inner_poll_ready w register c =
     (if \<not> ch_ended c \<and> length (ch_queue c) \<ge> ch_bound c
      then (Pending, if register then c\<lparr>ch_wakers := ch_wakers c @ [w]\<rparr> else c)
      else (Ok True, c))"

definition inner_enqueue :: "'a \<Rightarrow> 'a chan \<Rightarrow> 'a chan" where
  "inner_enqueue t c = wake_all (if \<not> ch_ended c then c\<lparr>ch_queue := ch_queue c @ [t]\<rparr> else c)"

definition inner_poll_dequeue :: "waker \<Rightarrow> bool \<Rightarrow> 'a chan \<Rightarrow> 'a option res \<times> 'a chan" where
  "inner_poll_dequeue w register c = (case ch_queue c of
      t # ts \<Rightarrow> (Ok (Some t), wake_all (c\<lparr>ch_queue := ts\<rparr>))
    | [] \<Rightarrow> (Pending, if register then c\<lparr>ch_wakers := ch_wakers c @ [w]\<rparr> else c))"

section \<open>Receiver\<close>

definition receiver_new :: "nat \<Rightarrow> 'a chan" where
  "receiver_new bound =
     \<lparr>ch_queue = [], ch_ended = False, ch_bound = bound, ch_wakers = [], ch_receivers = 1,
      ch_senders = 1, ch_woken = []\<rparr>"

definition receiver_clone :: "'a chan \<Rightarrow> 'a chan" where
  "receiver_clone c = c\<lparr>ch_receivers := ch_receivers c + 1\<rparr>"

definition poll_recv :: "waker \<Rightarrow> bool \<Rightarrow> 'a chan \<Rightarrow> 'a option res \<times> 'a chan" where
  "poll_recv w register c = (case inner_poll_dequeue w register c of
      (Pending, c') \<Rightarrow> if ch_senders c' = 0 then (Ok None, c') else (Pending, c')
    | r \<Rightarrow> r)"

text \<open>The \<^verbatim>\<open>drop\<close> method with the count it read, and the release of the references after it.\<close>

definition receiver_drop_body :: "nat \<Rightarrow> 'a chan \<Rightarrow> 'a chan" where
  "receiver_drop_body count c =
     wake_all (if count = 1 then c\<lparr>ch_queue := [], ch_ended := True\<rparr> else c)"

definition receiver_release :: "'a chan \<Rightarrow> 'a chan" where
  "receiver_release c = c\<lparr>ch_receivers := ch_receivers c - 1\<rparr>"

definition receiver_drop :: "'a chan \<Rightarrow> 'a chan" where
  "receiver_drop c = receiver_release (receiver_drop_body (ch_receivers c) c)"

section \<open>Sender\<close>

definition sender_clone :: "'a chan \<Rightarrow> 'a chan" where
  "sender_clone c = c\<lparr>ch_senders := ch_senders c + 1\<rparr>"

text \<open>\<^verbatim>\<open>upgrade\<close> of the weak reference succeeds while a receiver is alive.\<close>

definition sender_poll_ready :: "waker \<Rightarrow> bool \<Rightarrow> 'a chan \<Rightarrow> bool res \<times> 'a chan" where
  "sender_poll_ready w register c =
     (if ch_receivers c > 0 then inner_poll_ready w register c else (Ok False, c))"

definition sender_send :: "'a \<Rightarrow> 'a chan \<Rightarrow> bool \<times> 'a chan" where
  "sender_send t c = (if ch_receivers c > 0 then (True, inner_enqueue t c) else (False, c))"

definition sender_len :: "'a chan \<Rightarrow> nat" where
  "sender_len c = (if ch_receivers c > 0 then length (ch_queue c) else 0)"

definition sender_is_empty :: "'a chan \<Rightarrow> bool" where
  "sender_is_empty c \<longleftrightarrow> sender_len c = 0"

definition sender_drop_body :: "'a chan \<Rightarrow> 'a chan" where
  "sender_drop_body c = (if ch_receivers c > 0 then wake_all c else c)"

definition sender_release :: "'a chan \<Rightarrow> 'a chan" where
  "sender_release c = c\<lparr>ch_senders := ch_senders c - 1\<rparr>"

definition sender_drop :: "'a chan \<Rightarrow> 'a chan" where
  "sender_drop c = sender_release (sender_drop_body c)"

lemmas chan_defs = wake_all_def inner_poll_ready_def inner_enqueue_def inner_poll_dequeue_def
  receiver_new_def receiver_clone_def poll_recv_def receiver_drop_body_def receiver_release_def
  receiver_drop_def sender_clone_def sender_poll_ready_def sender_send_def sender_len_def
  sender_is_empty_def sender_drop_body_def sender_release_def sender_drop_def

section \<open>A channel is a queue\<close>

text \<open>
  What the streams, the client and the server rely on: as long as the channel is open, what is
  received is what was sent, in order, and an end is only reported once nothing is left.
\<close>

locale fifo_channel =
  fixes send :: "'a \<Rightarrow> 'c \<Rightarrow> bool \<times> 'c"
    and recv :: "'c \<Rightarrow> 'a option res \<times> 'c"
    and content :: "'c \<Rightarrow> 'a list"
    and is_open :: "'c \<Rightarrow> bool"
  assumes send_open: "is_open c \<Longrightarrow> send t c = (b, c') \<Longrightarrow> b \<and> is_open c' \<and> content c' = content c @ [t]"
    and recv_Some: "is_open c \<Longrightarrow> recv c = (Ok (Some t), c') \<Longrightarrow> is_open c' \<and> content c = t # content c'"
    and recv_None: "is_open c \<Longrightarrow> recv c = (Ok None, c') \<Longrightarrow> is_open c' \<and> content c = [] \<and> content c' = []"
    and recv_Pending: "is_open c \<Longrightarrow> recv c = (Pending, c') \<Longrightarrow> is_open c' \<and> content c = [] \<and> content c' = []"
    and recv_total: "recv c \<noteq> (Err e, c')" "recv c \<noteq> (Panic p, c')"

text \<open>A history of a channel: \<open>Some t\<close> sends \<open>t\<close>, \<open>None\<close> polls the receiver. The result is what was received.\<close>

fun chan_run ::
  "('a \<Rightarrow> 'c \<Rightarrow> bool \<times> 'c) \<Rightarrow> ('c \<Rightarrow> 'a option res \<times> 'c) \<Rightarrow> 'a option list \<Rightarrow> 'c \<Rightarrow> 'a list \<times> 'c" where
  "chan_run send recv [] c = ([], c)"
| "chan_run send recv (Some t # ops) c = chan_run send recv ops (snd (send t c))"
| "chan_run send recv (None # ops) c = (case recv c of
      (Ok (Some t), c') \<Rightarrow> (let (ts, c'') = chan_run send recv ops c' in (t # ts, c''))
    | (_, c') \<Rightarrow> chan_run send recv ops c')"

context fifo_channel
begin

lemma run_fifo:
  "is_open c \<Longrightarrow> chan_run send recv ops c = (got, c') \<Longrightarrow>
    is_open c' \<and> got @ content c' = content c @ List.map_filter id ops"
proof (induction ops arbitrary: c got)
  case Nil
  then show ?case by (simp add: map_filter_simps)
next
  case (Cons x ops)
  show ?case
  proof (cases x)
    case (Some t)
    obtain b c1 where c1: "send t c = (b, c1)" by fastforce
    with send_open[OF Cons.prems(1) c1] Cons.IH[of c1 got] Cons.prems Some show ?thesis
      by (simp add: map_filter_simps)
  next
    case None
    obtain r c1 where r: "recv c = (r, c1)" by fastforce
    show ?thesis
    proof (cases r)
      case (Ok o1)
      show ?thesis
      proof (cases o1)
        case (Some t)
        with r Ok have t: "is_open c1" "content c = t # content c1" using recv_Some[OF Cons.prems(1)] by auto
        obtain ts where ts: "chan_run send recv ops c1 = (ts, c')" "got = t # ts"
          using Cons.prems(2) None r Ok Some by (auto split: prod.splits)
        with Cons.IH[OF t(1) ts(1)] t(2) None show ?thesis by (simp add: map_filter_simps)
      next
        case o1: None
        with r Ok have "is_open c1" "content c = []" "content c1 = []" using recv_None[OF Cons.prems(1)] by auto
        with Cons.IH[of c1 got] Cons.prems None r Ok o1 show ?thesis by (simp add: map_filter_simps)
      qed
    next
      case Pending
      with r recv_Pending[OF Cons.prems(1)] Cons.IH[of c1 got] Cons.prems None show ?thesis
        by (auto simp: map_filter_simps)
    qed (use r recv_total in auto)
  qed
qed

end

definition chan_open :: "'a chan \<Rightarrow> bool" where
  "chan_open c \<longleftrightarrow> 0 < ch_receivers c \<and> \<not> ch_ended c"

interpretation mpsc: fifo_channel sender_send "poll_recv w reg" ch_queue chan_open
  by unfold_locales (auto simp: chan_defs chan_open_def split: list.splits if_splits)

lemma receiver_new_open [simp]: "chan_open (receiver_new b)" "ch_queue (receiver_new b) = []"
  by (simp_all add: receiver_new_def chan_open_def)

text \<open>
  Dropping the last receiver closes the channel for good: what was queued is gone, further
  sends are refused, and every waiting task is woken.
\<close>

lemma receiver_drop_last:
  assumes "ch_receivers c = 1"
  shows "ch_queue (receiver_drop c) = []" "ch_ended (receiver_drop c)" "ch_receivers (receiver_drop c) = 0"
    "fst (sender_send t (receiver_drop c)) = False" "ch_wakers (receiver_drop c) = []"
    "set (ch_wakers c) \<subseteq> set (ch_woken (receiver_drop c))"
  using assms by (auto simp: chan_defs)

lemma receiver_drop_other:
  assumes "1 < ch_receivers c" "chan_open c"
  shows "chan_open (receiver_drop c)" "ch_queue (receiver_drop c) = ch_queue c"
  using assms by (auto simp: chan_defs chan_open_def)

section \<open>Interleavings: one receiving task and its senders\<close>

text \<open>
  The receiving task polls with waker 0 and sleeps (\<open>sy_parked\<close>) while its last poll was
  pending and its waker has not been called. Every method of a sender is a step; dropping a
  sender is two, and \<open>sy_dropping\<close> counts the senders whose \<^verbatim>\<open>drop\<close> method has returned but
  whose weak reference is still counted.
\<close>

record 'a sys =
  sy_chan :: "'a chan"
  sy_parked :: bool
  sy_dropping :: nat

definition settle :: "'a chan \<Rightarrow> 'a sys \<Rightarrow> 'a sys" where
  "settle c s = s\<lparr>sy_chan := c, sy_parked := (sy_parked s \<and> 0 \<in> set (ch_wakers c))\<rparr>"

definition sys_init :: "nat \<Rightarrow> 'a sys" where
  "sys_init bound = \<lparr>sy_chan = receiver_new bound, sy_parked = False, sy_dropping = 0\<rparr>"

inductive chan_step :: "'a sys \<Rightarrow> 'a sys \<Rightarrow> bool" where
  poll: "\<not> sy_parked s \<Longrightarrow> poll_recv 0 True (sy_chan s) = (r, c) \<Longrightarrow>
     chan_step s (s\<lparr>sy_chan := c, sy_parked := (r = Pending)\<rparr>)"
| send: "sy_dropping s < ch_senders (sy_chan s) \<Longrightarrow> sender_send t (sy_chan s) = (b, c) \<Longrightarrow>
     chan_step s (settle c s)"
| wait_ready: "sy_dropping s < ch_senders (sy_chan s) \<Longrightarrow> w \<noteq> 0 \<Longrightarrow>
     sender_poll_ready w True (sy_chan s) = (q, c) \<Longrightarrow> chan_step s (settle c s)"
| clone: "sy_dropping s < ch_senders (sy_chan s) \<Longrightarrow>
     chan_step s (settle (sender_clone (sy_chan s)) s)"
| drop_body: "sy_dropping s < ch_senders (sy_chan s) \<Longrightarrow>
     chan_step s ((settle (sender_drop_body (sy_chan s)) s)\<lparr>sy_dropping := Suc (sy_dropping s)\<rparr>)"
| release: "0 < sy_dropping s \<Longrightarrow>
     chan_step s ((settle (sender_release (sy_chan s)) s)\<lparr>sy_dropping := sy_dropping s - 1\<rparr>)"

inductive_cases chan_stepE: "chan_step s s'"

inductive chan_reachable :: "nat \<Rightarrow> 'a sys \<Rightarrow> bool" for bound where
  start: "chan_reachable bound (sys_init bound)"
| step: "chan_reachable bound s \<Longrightarrow> chan_step s s' \<Longrightarrow> chan_reachable bound s'"

definition sys_ok :: "'a sys \<Rightarrow> bool" where
  "sys_ok s \<longleftrightarrow> chan_open (sy_chan s) \<and> sy_dropping s \<le> ch_senders (sy_chan s)
     \<and> (sy_parked s \<longrightarrow> ch_queue (sy_chan s) = [] \<and> 0 \<in> set (ch_wakers (sy_chan s)))"

lemma chan_step_ok: "chan_step s s' \<Longrightarrow> sys_ok s \<Longrightarrow> sys_ok s'"
proof (induction rule: chan_step.induct)
  case (poll s r c)
  then show ?case
    by (auto simp: sys_ok_def chan_open_def poll_recv_def inner_poll_dequeue_def wake_all_def
        split: list.splits if_splits)
next
  case (send s t b c)
  then show ?case
    by (auto simp: sys_ok_def chan_open_def settle_def sender_send_def inner_enqueue_def wake_all_def)
next
  case (wait_ready s w q c)
  then show ?case
    by (auto simp: sys_ok_def chan_open_def settle_def sender_poll_ready_def inner_poll_ready_def
        split: if_splits)
qed (auto simp: sys_ok_def chan_open_def settle_def sender_clone_def sender_drop_body_def
    sender_release_def wake_all_def)

lemma chan_reachable_ok: "chan_reachable bound s \<Longrightarrow> sys_ok s"
  by (induction rule: chan_reachable.induct)
    (auto simp: sys_ok_def sys_init_def chan_open_def receiver_new_def dest: chan_step_ok)

section \<open>Properties\<close>

text \<open>
  C30. First in, first out. On an open channel, for every history of sends and receive polls
  (any waker, registering or not), what has been received followed by what is still queued is
  what was queued before followed by what was sent, in order; the channel stays open.
\<close>

theorem mpsc_fifo:
  assumes "chan_open c" "chan_run sender_send (poll_recv w register) ops c = (got, c')"
  shows "chan_open c' \<and> got @ ch_queue c' = ch_queue c @ List.map_filter id ops"
  using assms by (rule mpsc.run_fifo)

theorem mpsc_fifo_witness:
  "\<exists>c'. chan_run sender_send (poll_recv 7 True) [None, Some 1, Some 2, None, Some (3::nat)] (receiver_new 1)
      = ([1], c') \<and> ch_queue c' = [2, 3]"
proof -
  obtain got c' where run: "chan_run sender_send (poll_recv 7 True)
      [None, Some 1, Some 2, None, Some (3::nat)] (receiver_new 1) = (got, c')" by fastforce
  have "chan_open (receiver_new 1 :: nat chan)" by simp
  from mpsc_fifo[OF this run] have "got @ ch_queue c' = [1, 2, 3]" by (simp add: map_filter_simps)
  moreover have "fst (chan_run sender_send (poll_recv 7 True)
      [None, Some 1, Some 2, None, Some (3::nat)] (receiver_new 1)) = [1]" by code_simp
  ultimately show ?thesis using run by auto
qed

text \<open>
  C31. No wake-up for data is lost. In every reachable interleaving of a receiving task with
  any number of senders, a task that sleeps has its waker registered and nothing is queued for
  it: whatever was sent since its last poll has called its waker.
\<close>

theorem mpsc_no_lost_data:
  assumes "chan_reachable bound s" "sy_parked s"
  shows "ch_queue (sy_chan s) = [] \<and> 0 \<in> set (ch_wakers (sy_chan s))"
  using chan_reachable_ok[OF assms(1)] assms(2) by (simp add: sys_ok_def)

definition wit_parked :: "nat sys" where
  "wit_parked = (sys_init 1)\<lparr>sy_chan := (receiver_new 1)\<lparr>ch_wakers := [0]\<rparr>, sy_parked := True\<rparr>"

lemma wit_parked_reachable: "chan_reachable 1 wit_parked"
proof -
  have "chan_step (sys_init 1) wit_parked"
    unfolding wit_parked_def sys_init_def
    by (rule chan_step.intros(1)[where r = Pending and c = "(receiver_new 1)\<lparr>ch_wakers := [0]\<rparr>",
          THEN back_subst[of "chan_step _"]]) (auto simp: chan_defs)
  then show ?thesis using chan_reachable.start chan_reachable.step by blast
qed

theorem mpsc_no_lost_data_witness:
  "chan_reachable 1 wit_parked \<and> sy_parked wit_parked \<and> ch_queue (sy_chan wit_parked) = []
    \<and> 0 \<in> set (ch_wakers (sy_chan wit_parked))"
proof -
  have "sy_parked wit_parked" by (simp add: wit_parked_def)
  with mpsc_no_lost_data[OF wit_parked_reachable this] wit_parked_reachable show ?thesis by simp
qed

text \<open>
  C38. The wake-up for a closed channel can be lost. \<^verbatim>\<open>Sender::drop\<close> wakes the receiver before its
  weak reference is released; a receiver that polls in between still sees a sender, is pending
  and registers again, and nobody is left to wake it. There is a reachable state in which the
  receiver sleeps, no sender exists any more, and no step is possible.
\<close>

theorem mpsc_lost_close_wakeup:
  "\<exists>s :: 'a sys. chan_reachable bound s \<and> sy_parked s \<and> ch_senders (sy_chan s) = 0 \<and> (\<nexists>s'. chan_step s s')"
proof -
  let ?c = "receiver_new bound :: 'a chan"
  let ?s1 = "\<lparr>sy_chan = ?c\<lparr>ch_wakers := [0]\<rparr>, sy_parked = True, sy_dropping = 0\<rparr>"
  let ?s2 = "\<lparr>sy_chan = ?c\<lparr>ch_woken := [0]\<rparr>, sy_parked = False, sy_dropping = 1\<rparr>"
  let ?s3 = "\<lparr>sy_chan = ?c\<lparr>ch_wakers := [0], ch_woken := [0]\<rparr>, sy_parked = True, sy_dropping = 1\<rparr>"
  let ?s4 = "\<lparr>sy_chan = ?c\<lparr>ch_wakers := [0], ch_woken := [0], ch_senders := 0\<rparr>,
    sy_parked = True, sy_dropping = 0\<rparr>"
  have "chan_step (sys_init bound) ?s1"
    using chan_step.poll[of "sys_init bound" Pending "?c\<lparr>ch_wakers := [0]\<rparr>"]
    by (simp add: sys_init_def chan_defs)
  moreover have "chan_step ?s1 ?s2"
    using chan_step.drop_body[of ?s1] by (simp add: chan_defs settle_def)
  moreover have "chan_step ?s2 ?s3"
    using chan_step.poll[of ?s2 Pending "?c\<lparr>ch_wakers := [0], ch_woken := [0]\<rparr>"]
    by (simp add: chan_defs)
  moreover have "chan_step ?s3 ?s4"
    using chan_step.release[of ?s3] by (simp add: chan_defs settle_def)
  ultimately have "chan_reachable bound ?s4"
    using chan_reachable.start chan_reachable.step by blast
  moreover have "\<nexists>s'. chan_step ?s4 s'" by (auto elim: chan_stepE)
  ultimately show ?thesis by (intro exI[of _ ?s4]) simp
qed

end
