(* ===== verification/Share.thy ===== *)
theory Share
  imports Limit Mpsc
begin

text \<open>
  \<^verbatim>\<open>src/share.rs\<close>: the two streams a user of the crate holds. A \<open>SendStream\<close> frames the data of
  each call with its \<open>limit_write\<close> and puts it into a channel of bound one; a \<open>RecvStream\<close> hands
  out the chunks of a channel in pieces of the size of the caller's buffer. On the server both
  also drive the connection; that is a parameter here (\<open>drive\<close>, with access to the channel
  inside the state it changes) and is given in the theory of the server.
\<close>

section \<open>Data to send\<close>

datatype send_data = Shared bytes | Owned bytes | EmptyData

definition data_is_owned :: "send_data \<Rightarrow> bool" where
  "data_is_owned self = (case self of Owned _ \<Rightarrow> True | _ \<Rightarrow> False)"

definition data_is_empty :: "send_data \<Rightarrow> bool" where
  "data_is_empty self = (case self of Shared v \<Rightarrow> v = [] | Owned v \<Rightarrow> v = [] | EmptyData \<Rightarrow> True)"

definition data_len :: "send_data \<Rightarrow> nat" where
  "data_len self = (case self of Shared v \<Rightarrow> length v | Owned v \<Rightarrow> length v | EmptyData \<Rightarrow> 0)"

definition data_take_owned :: "send_data \<Rightarrow> (bytes \<times> send_data) res" where
  "data_take_owned self = (case self of Owned v \<Rightarrow> Ok (v, EmptyData) | _ \<Rightarrow> Panic ''Can't take_owned'')"

definition data_deref :: "send_data \<Rightarrow> bytes res" where
  "data_deref self = (case self of
      Shared v \<Rightarrow> Ok v | Owned v \<Rightarrow> Ok v | EmptyData \<Rightarrow> Panic ''Can't deref a Data::Empty'')"

section \<open>SendStream\<close>

text \<open>The channel \<^verbatim>\<open>tx_body\<close> is shared with the connection and passed beside the record.\<close>

record send_stream =
  ss_limit :: limit_write
  ss_ended :: bool

type_synonym body_chan = "(bytes \<times> bool) chan"

definition send_stream_new :: "limit_write \<Rightarrow> bool \<Rightarrow> send_stream" where
  "send_stream_new limit ended = \<lparr>ss_limit = limit, ss_ended = ended\<rparr>"

definition closed_error :: error where
  "closed_error = from_io (IoError ConnectionAborted ''Connection closed'')"

text \<open>The tail of \<^verbatim>\<open>poll_send_data\<close>: hand the bytes to the channel.\<close>

definition ship :: "bytes \<Rightarrow> bool \<Rightarrow> send_data \<Rightarrow> send_stream \<Rightarrow> body_chan \<Rightarrow>
    (error + unit) res \<times> send_data \<times> send_stream \<times> body_chan" where
  "ship to_send eob data self tx =
     (case sender_send (to_send, eob) tx of
        (True, tx1) \<Rightarrow> (Ok (Inr ()), data, self, tx1)
      | (False, tx1) \<Rightarrow> (Ok (Inl closed_error), data, self, tx1))"

definition poll_send_data :: "waker \<Rightarrow> send_data \<Rightarrow> bool \<Rightarrow> send_stream \<times> body_chan \<Rightarrow>
    (error + unit) res \<times> send_data \<times> send_stream \<times> body_chan" where
  "poll_send_data w data eob = (\<lambda>(self, tx).
     if ss_ended self \<and> eob \<and> data_is_empty data then (Ok (Inr ()), data, self, tx)
     else if ss_ended self then (Ok (Inl (User ''Body data is not expected'')), data, self, tx)
     else case sender_poll_ready w True tx of
         (Ok False, tx1) \<Rightarrow> (Ok (Inl closed_error), data, self, tx1)
       | (Err e, tx1) \<Rightarrow> (Err e, data, self, tx1)
       | (Pending, tx1) \<Rightarrow> (Pending, data, self, tx1)
       | (Panic p, tx1) \<Rightarrow> (Panic p, data, self, tx1)
       | (Ok True, tx1) \<Rightarrow>
           if data_is_owned data \<and> lw_can_write_entire_vec (ss_limit self) then
             (case rbind (data_take_owned data) (\<lambda>(v, data1).
                     rbind (lw_accept_entire_vec v (ss_limit self)) (\<lambda>limit. Ok (v, data1, limit))) of
                Ok (v, data1, limit) \<Rightarrow> ship v eob data1 (self\<lparr>ss_limit := limit\<rparr>) tx1
              | Err e \<Rightarrow> (Err e, data, self, tx1)
              | Pending \<Rightarrow> (Pending, data, self, tx1)
              | Panic p \<Rightarrow> (Panic p, data, self, tx1))
           else
             let capacity = data_len data + lw_overhead (ss_limit self);
                 chunk = fb_with_capacity capacity
             in case data_deref data of
                 Ok d \<Rightarrow>
                   (case lw_write d (ss_limit self) chunk of
                      (Ok (Inr _), limit, chunk1) \<Rightarrow>
                        let self1 = self\<lparr>ss_limit := limit\<rparr> in
                        if eob then
                          let self2 = self1\<lparr>ss_ended := True\<rparr> in
                          (case lw_finish limit chunk1 of
                             (Ok (Inr _), limit2, chunk2) \<Rightarrow>
                               ship (fb_into_vec chunk2) eob data (self2\<lparr>ss_limit := limit2\<rparr>) tx1
                           | (r, limit2, _) \<Rightarrow> (r, data, self2\<lparr>ss_limit := limit2\<rparr>, tx1))
                        else ship (fb_into_vec chunk1) eob data self1 tx1
                    | (r, limit, _) \<Rightarrow> (r, data, self\<lparr>ss_limit := limit\<rparr>, tx1))
               | Err e \<Rightarrow> (Err e, data, self, tx1)
               | Pending \<Rightarrow> (Pending, data, self, tx1)
               | Panic p \<Rightarrow> (Panic p, data, self, tx1))"

section \<open>RecvStream\<close>

record recv_stream =
  rs_ready :: "consume_buf option"
  rs_ended :: bool

type_synonym recv_chan = "(io_error + bytes) chan"

definition recv_stream_new :: "bool \<Rightarrow> recv_stream" where
  "recv_stream_new ended = \<lparr>rs_ready = None, rs_ended = ended\<rparr>"

definition is_end_stream :: "recv_stream \<Rightarrow> bool" where
  "is_end_stream self = rs_ended self"

text \<open>Shipping out the bytes that have already been received.\<close>

definition ship_ready :: "nat \<Rightarrow> consume_buf \<Rightarrow> recv_stream \<Rightarrow> bytes res \<times> recv_stream" where
  "ship_ready n cb self =
     (let amt = take n (cb_deref cb) in
      case cb_consume (length amt) cb of
        Ok cb1 \<Rightarrow> (Ok amt, self\<lparr>rs_ready := if cb_is_empty cb1 then None else Some cb1\<rparr>)
      | Err e \<Rightarrow> (Err e, self)
      | Pending \<Rightarrow> (Pending, self)
      | Panic p \<Rightarrow> (Panic p, self))"

text \<open>
  The loop of \<^verbatim>\<open>poll_body_data\<close> runs at most twice: a chunk that is received is made ready and
  shipped in the next round.
\<close>

definition poll_body_data ::
  "waker \<Rightarrow> nat \<Rightarrow> recv_stream \<times> recv_chan \<Rightarrow> bytes res \<times> (recv_stream \<times> recv_chan)" where
  "poll_body_data w n = (\<lambda>(self, rx).
     if rs_ended self then (Ok [], (self, rx))
     else case rs_ready self of
         Some cb \<Rightarrow> (case ship_ready n cb self of (r, self1) \<Rightarrow> (r, (self1, rx)))
       | None \<Rightarrow>
           (case poll_recv w True rx of
              (Ok None, rx1) \<Rightarrow> (Ok [], (self\<lparr>rs_ended := True\<rparr>, rx1))
            | (Ok (Some (Inl e)), rx1) \<Rightarrow> (Err e, (self, rx1))
            | (Ok (Some (Inr v)), rx1) \<Rightarrow>
                (case ship_ready n (consume_buf_new v) (self\<lparr>rs_ready := Some (consume_buf_new v)\<rparr>) of
                   (r, self1) \<Rightarrow> (r, (self1, rx1)))
            | (Err e, rx1) \<Rightarrow> (Err e, (self, rx1))
            | (Pending, rx1) \<Rightarrow> (Pending, (self, rx1))
            | (Panic p, rx1) \<Rightarrow> (Panic p, (self, rx1))))"

section \<open>Driving the connection from a stream\<close>

text \<open>
  \<^verbatim>\<open>drive_external\<close> is \<open>None\<close> on the client. A driven stream lives in a state \<open>'s\<close> that holds its
  channel; \<open>get\<close> and \<open>put\<close> reach it.
\<close>

definition poll_drive_server :: "('s \<Rightarrow> unit res \<times> 's) option \<Rightarrow> 's \<Rightarrow> unit res \<times> 's" where
  "poll_drive_server drive s = (case drive of Some d \<Rightarrow> d s | None \<Rightarrow> (Ok (), s))"

definition rs_poll_read ::
  "('s \<Rightarrow> unit res \<times> 's) option \<Rightarrow> ('s \<Rightarrow> recv_chan) \<Rightarrow> (recv_chan \<Rightarrow> 's \<Rightarrow> 's) \<Rightarrow> waker \<Rightarrow> nat
    \<Rightarrow> recv_stream \<times> 's \<Rightarrow> bytes res \<times> (recv_stream \<times> 's)" where
  "rs_poll_read drive get put w n = (\<lambda>(self, s).
     if n = 0 then (Panic ''poll_read with empty buf'', (self, s))
     else case poll_drive_server drive s of
         (Ok _, s1) \<Rightarrow>
           (case poll_body_data w n (self, get s1) of (r, (self1, rx)) \<Rightarrow> (r, (self1, put rx s1)))
       | (Err e, s1) \<Rightarrow> (Err e, (self, s1))
       | (Pending, s1) \<Rightarrow> (Pending, (self, s1))
       | (Panic p, s1) \<Rightarrow> (Panic p, (self, s1)))"

text \<open>
  \<^verbatim>\<open>do_send\<close> is a coroutine with four points where it waits. \<open>send_phase\<close> is where it will go
  on; one poll runs it as far as it gets. The flush at the end spins as long as driving the
  connection succeeds without emptying the channel, so a poll need not return: it is a
  partial function, \<open>None\<close> when it does not.
\<close>

datatype send_phase = DriveBefore | SendData | DriveAfter | Flush

definition io_result :: "unit res \<Rightarrow> (error + unit) res" where
  "io_result r = (case r of
      Ok _ \<Rightarrow> Ok (Inr ()) | Err e \<Rightarrow> Ok (Inl (from_io e)) | Pending \<Rightarrow> Pending | Panic p \<Rightarrow> Panic p)"

partial_function (option) flush_loop ::
  "('s \<Rightarrow> unit res \<times> 's) \<Rightarrow> ('s \<Rightarrow> body_chan) \<Rightarrow> 's \<Rightarrow> (unit res \<times> 's) option" where
  "flush_loop d get s =
     (if sender_is_empty (get s) then Some (Ok (), s)
      else case d s of
          (Ok _, s1) \<Rightarrow> flush_loop d get s1
        | r \<Rightarrow> Some r)"

type_synonym 's send_state = "send_phase \<times> send_data \<times> send_stream \<times> 's"

definition do_send_flush ::
  "('s \<Rightarrow> unit res \<times> 's) option \<Rightarrow> ('s \<Rightarrow> body_chan) \<Rightarrow> send_data \<Rightarrow> send_stream \<Rightarrow> 's
    \<Rightarrow> ((error + unit) res \<times> 's send_state) option" where
  "do_send_flush drive get data self s =
     (case drive of
        Some d \<Rightarrow>
          if ss_ended self
          then map_option (\<lambda>(r, s1). (io_result r, (Flush, data, self, s1))) (flush_loop d get s)
          else Some (Ok (Inr ()), (Flush, data, self, s))
      | None \<Rightarrow> Some (Ok (Inr ()), (Flush, data, self, s)))"

definition do_send_after ::
  "('s \<Rightarrow> unit res \<times> 's) option \<Rightarrow> ('s \<Rightarrow> body_chan) \<Rightarrow> send_data \<Rightarrow> send_stream \<Rightarrow> 's
    \<Rightarrow> ((error + unit) res \<times> 's send_state) option" where
  "do_send_after drive get data self s =
     (case poll_drive_server drive s of
        (Ok _, s1) \<Rightarrow> do_send_flush drive get data self s1
      | (r, s1) \<Rightarrow> Some (io_result r, (DriveAfter, data, self, s1)))"

definition do_send_data ::
  "('s \<Rightarrow> unit res \<times> 's) option \<Rightarrow> ('s \<Rightarrow> body_chan) \<Rightarrow> (body_chan \<Rightarrow> 's \<Rightarrow> 's) \<Rightarrow> waker \<Rightarrow> bool
    \<Rightarrow> send_data \<Rightarrow> send_stream \<Rightarrow> 's \<Rightarrow> ((error + unit) res \<times> 's send_state) option" where
  "do_send_data drive get put w eob data self s =
     (case poll_send_data w data eob (self, get s) of
        (Ok (Inr _), data1, self1, tx) \<Rightarrow> do_send_after drive get data1 self1 (put tx s)
      | (r, data1, self1, tx) \<Rightarrow> Some (r, (SendData, data1, self1, put tx s)))"

definition do_send_poll ::
  "('s \<Rightarrow> unit res \<times> 's) option \<Rightarrow> ('s \<Rightarrow> body_chan) \<Rightarrow> (body_chan \<Rightarrow> 's \<Rightarrow> 's) \<Rightarrow> waker \<Rightarrow> bool
    \<Rightarrow> 's send_state \<Rightarrow> ((error + unit) res \<times> 's send_state) option" where
  "do_send_poll drive get put w eob = (\<lambda>(phase, data, self, s). case phase of
      DriveBefore \<Rightarrow>
        (case poll_drive_server drive s of
           (Ok _, s1) \<Rightarrow> do_send_data drive get put w eob data self s1
         | (r, s1) \<Rightarrow> Some (io_result r, (DriveBefore, data, self, s1)))
    | SendData \<Rightarrow> do_send_data drive get put w eob data self s
    | DriveAfter \<Rightarrow> do_send_after drive get data self s
    | Flush \<Rightarrow> do_send_flush drive get data self s)"

section \<open>What is sent\<close>

fun data_bytes :: "send_data \<Rightarrow> bytes" where
  "data_bytes (Shared v) = v"
| "data_bytes (Owned v) = v"
| "data_bytes EmptyData = []"

text \<open>The one message a successful call puts into the channel.\<close>

definition message :: "send_stream \<Rightarrow> send_data \<Rightarrow> bool \<Rightarrow> bytes \<times> bool" where
  "message self data eob = (lw_frame (ss_limit self) (data_bytes data)
     @ (if eob then lw_frame_end (ss_limit self) else []), eob)"

text \<open>The stream's counter after it has taken the data, and whether it is closed to more.\<close>

definition ss_after :: "send_stream \<Rightarrow> send_data \<Rightarrow> bool \<Rightarrow> send_stream" where
  "ss_after self data eob = self\<lparr>ss_limit := lw_count (data_bytes data) (ss_limit self),
     ss_ended := eob \<and> \<not> (data_is_owned data \<and> lw_can_write_entire_vec (ss_limit self))\<rparr>"

lemma ship_open:
  assumes "chan_open tx"
  shows "ship bs eob data self tx = (Ok (Inr ()), data, self, snd (sender_send (bs, eob) tx))"
  using mpsc.send_open[OF assms, of "(bs, eob)"] by (auto simp: ship_def split: prod.splits bool.splits)

text \<open>
  A call on an open stream with room in the channel either sends its message, or, when the
  data goes over the announced length and was not handed over as a vector, is refused and sends
  nothing.
\<close>

lemma poll_send_data_sends:
  assumes "\<not> ss_ended self" "chan_open tx" "length (ch_queue tx) < ch_bound tx" "data \<noteq> EmptyData"
    "length (data_bytes data) < USIZE_BOUND"
    "data_is_owned data \<or> \<not> lw_refuses (ss_limit self) (data_bytes data)"
    "data_is_owned data \<longrightarrow> lw_can_write_entire_vec (ss_limit self) \<or> \<not> lw_refuses (ss_limit self) (data_bytes data)"
  shows "\<exists>data1. poll_send_data w data eob (self, tx)
    = (Ok (Inr ()), data1, ss_after self data eob, snd (sender_send (message self data eob) tx))"
proof -
  have ready: "sender_poll_ready w True tx = (Ok True, tx)"
    using assms(2,3) by (simp add: sender_poll_ready_def inner_poll_ready_def chan_open_def)
  show ?thesis
  proof (cases "data_is_owned data \<and> lw_can_write_entire_vec (ss_limit self)")
    case True
    then obtain v where v: "data = Owned v" by (cases data) (auto simp: data_is_owned_def)
    with True have frame: "lw_frame (ss_limit self) v = v" "lw_frame_end (ss_limit self) = []"
      by (auto simp: lw_can_write_entire_vec_def lw_defs split: limit_write.splits)
    have "ss_after self data eob = self\<lparr>ss_limit := lw_count v (ss_limit self)\<rparr>"
      using True v assms(1) by (simp add: ss_after_def)
    with frame v True assms(1) ready show ?thesis
      by (auto simp: poll_send_data_def data_take_owned_def lw_accept_entire_vec_eq ship_open[OF assms(2)] message_def)
  next
    case False
    let ?b = "data_bytes data" and ?w = "ss_limit self"
    have nr: "\<not> lw_refuses ?w ?b" using assms(6,7) False by auto
    have d: "data_deref data = Ok ?b" "data_len data = length ?b"
      using assms(4) by (cases data; simp add: data_deref_def data_len_def)+
    obtain b where b: "lw_write ?b ?w (fb_with_capacity (length ?b + lw_overhead ?w)) = (Ok (Inr ()), lw_count ?b ?w, b)"
      "fb_into_vec b = lw_frame ?w ?b"
      "\<exists>b'. lw_finish (lw_count ?b ?w) b = (Ok (Inr ()), lw_count ?b ?w, b')
         \<and> fb_into_vec b' = lw_frame ?w ?b @ lw_frame_end ?w"
      using lw_write_fresh[OF assms(5) nr] by blast
    with False assms(1) ready d show ?thesis
      by (auto simp: poll_send_data_def Let_def ship_open[OF assms(2)] message_def ss_after_def)
  qed
qed

lemma poll_send_data_refused:
  assumes "\<not> ss_ended self" "chan_open tx" "length (ch_queue tx) < ch_bound tx"
    "lw_refuses (ss_limit self) (data_bytes data)" "\<not> data_is_owned data"
  shows "\<exists>m. poll_send_data w data eob (self, tx)
    = (Ok (Inl (User m)), data, self\<lparr>ss_limit := lw_count (data_bytes data) (ss_limit self)\<rparr>, tx)"
proof -
  have ready: "sender_poll_ready w True tx = (Ok True, tx)"
    using assms(2,3) by (simp add: sender_poll_ready_def inner_poll_ready_def chan_open_def)
  obtain v where v: "data = Shared v"
    using assms(4,5) by (cases data) (auto simp: data_is_owned_def lw_defs split: limit_write.splits)
  obtain m where m: "lw_write (data_bytes data) (ss_limit self)
      (fb_with_capacity (data_len data + lw_overhead (ss_limit self)))
      = (Ok (Inl (User m)), lw_count (data_bytes data) (ss_limit self),
         fb_with_capacity (data_len data + lw_overhead (ss_limit self)))"
    using lw_write_refused[OF assms(4)] by blast
  have own: "data_is_owned data = False" "data_deref data = Ok (data_bytes data)"
    using v by (simp_all add: data_is_owned_def data_deref_def)
  have "poll_send_data w data eob (self, tx)
    = (Ok (Inl (User m)), data, self\<lparr>ss_limit := lw_count (data_bytes data) (ss_limit self)\<rparr>, tx)"
    using assms(1) by (simp add: poll_send_data_def ready own m Let_def)
  then show ?thesis by blast
qed

text \<open>
  A body sent piece by piece: one call per piece, the last one with the end flag, and a
  connection that takes each message out of the channel before the next call. The result is
  that of the first call that fails, and the messages taken.
\<close>

fun send_pieces :: "waker \<Rightarrow> send_data list \<Rightarrow> send_stream \<times> body_chan \<Rightarrow>
    (error + unit) res \<times> (bytes \<times> bool) list \<times> send_stream \<times> body_chan" where
  "send_pieces w [] (self, tx) = (Ok (Inr ()), [], self, tx)"
| "send_pieces w (d # ds) (self, tx) =
     (case poll_send_data w d (ds = []) (self, tx) of
        (Ok (Inr _), _, self1, tx1) \<Rightarrow>
          (case poll_recv w False tx1 of
             (Ok (Some m), tx2) \<Rightarrow>
               (case send_pieces w ds (self1, tx2) of (r, ms, s) \<Rightarrow> (r, m # ms, s))
           | (_, tx2) \<Rightarrow> (Pending, [], self1, tx2))
      | (r, _, self1, tx1) \<Rightarrow> (r, [], self1, tx1))"

lemma send_then_recv:
  assumes "chan_open tx" "ch_queue tx = []" "0 < ch_bound tx"
  obtains tx2 where "poll_recv w False (snd (sender_send m tx)) = (Ok (Some m), tx2)"
    "chan_open tx2" "ch_queue tx2 = []" "0 < ch_bound tx2"
  using assms that by (auto simp: chan_defs chan_open_def)

definition piece_ok :: "send_data \<Rightarrow> bool" where
  "piece_ok d \<longleftrightarrow> d \<noteq> EmptyData \<and> length (data_bytes d) < USIZE_BOUND"

lemma send_pieces_messages:
  assumes "\<forall>d \<in> set ds. piece_ok d" "\<not> ss_ended self" "chan_open tx" "ch_queue tx = []" "0 < ch_bound tx"
    "send_pieces w ds (self, tx) = (Ok (Inr ()), ms, s)"
  shows "concat (map fst ms) = concat (map (\<lambda>d. lw_frame (ss_limit self) (data_bytes d)) ds)
      @ (if ds = [] then [] else lw_frame_end (ss_limit self))
    \<and> map snd ms = replicate (length ds - 1) False @ (if ds = [] then [] else [True])"
  using assms
proof (induction ds arbitrary: self tx ms s)
  case (Cons d ds)
  let ?w = "ss_limit self" and ?eob = "ds = []"
  have d: "d \<noteq> EmptyData" "length (data_bytes d) < USIZE_BOUND" using Cons.prems(1) by (auto simp: piece_ok_def)
  have room: "length (ch_queue tx) < ch_bound tx" using Cons.prems(4,5) by simp
  show ?case
  proof (cases "lw_refuses ?w (data_bytes d) \<and> \<not> data_is_owned d")
    case True
    with poll_send_data_refused[OF Cons.prems(2,3) room, of d w ?eob] Cons.prems(6) show ?thesis by auto
  next
    case False
    have own: "data_is_owned d \<longrightarrow> lw_can_write_entire_vec ?w \<or> \<not> lw_refuses ?w (data_bytes d)"
      by (cases ?w) (auto simp: lw_can_write_entire_vec_def lw_refuses_def)
    obtain d1 where snd: "poll_send_data w d ?eob (self, tx)
        = (Ok (Inr ()), d1, ss_after self d ?eob, snd (sender_send (message self d ?eob) tx))"
      using poll_send_data_sends[OF Cons.prems(2,3) room d _ own] False by blast
    obtain tx2 where rcv: "poll_recv w False (snd (sender_send (message self d ?eob) tx)) = (Ok (Some (message self d ?eob)), tx2)"
      "chan_open tx2" "ch_queue tx2 = []" "0 < ch_bound tx2"
      using send_then_recv[OF Cons.prems(3-5)] by blast
    obtain ms1 where rest: "send_pieces w ds (ss_after self d ?eob, tx2) = (Ok (Inr ()), ms1, s)"
      "ms = message self d ?eob # ms1"
      using Cons.prems(6) snd rcv(1) by (auto split: prod.splits)
    show ?thesis
    proof (cases ds)
      case Nil
      with rest show ?thesis by (simp add: message_def)
    next
      case Cons2: (Cons d2 ds2)
      from Cons2 have "concat (map fst ms1) = concat (map (\<lambda>d. lw_frame ?w (data_bytes d)) ds) @ lw_frame_end ?w
          \<and> map snd ms1 = replicate (length ds - 1) False @ [True]"
        using Cons.IH[OF _ _ rcv(2-4) rest(1)] Cons.prems(1,2) by (simp add: ss_after_def)
      with rest(2) Cons2 show ?thesis by (simp add: message_def)
    qed
  qed
qed simp

section \<open>What is received\<close>

fun chunk_bytes :: "(io_error + bytes) list \<Rightarrow> bytes" where
  "chunk_bytes [] = []"
| "chunk_bytes (Inr v # cs) = v @ chunk_bytes cs"
| "chunk_bytes (Inl e # cs) = []"

definition ready_bytes :: "recv_stream \<Rightarrow> bytes" where
  "ready_bytes self = (case rs_ready self of None \<Rightarrow> [] | Some cb \<Rightarrow> cb_deref cb)"

definition rs_stream :: "recv_stream \<times> recv_chan \<Rightarrow> bytes" where
  "rs_stream = (\<lambda>(self, rx). if rs_ended self then [] else ready_bytes self @ chunk_bytes (ch_queue rx))"

definition rs_ok :: "recv_stream \<times> recv_chan \<Rightarrow> bool" where
  "rs_ok = (\<lambda>(self, rx). case rs_ready self of None \<Rightarrow> True | Some cb \<Rightarrow> cb_ok cb)"

lemma ship_ready_spec:
  assumes "cb_ok cb"
  shows "\<exists>self1. ship_ready n cb self = (Ok (take n (cb_deref cb)), self1)
    \<and> rs_ended self1 = rs_ended self \<and> ready_bytes self1 = drop n (cb_deref cb)
    \<and> rs_ok (self1, rx) \<and> (rs_ready self1 = None \<longleftrightarrow> drop n (cb_deref cb) = [])"
proof -
  let ?amt = "take n (cb_deref cb)"
  have "length ?amt \<le> cb_len cb" by (simp flip: length_cb_deref)
  then obtain cb1 where cb1: "cb_consume (length ?amt) cb = Ok cb1" "cb_ok cb1"
    "cb_deref cb1 = drop (length ?amt) (cb_deref cb)"
    using cb_consume_Ok[OF assms] by blast
  moreover have "drop (length ?amt) (cb_deref cb) = drop n (cb_deref cb)" by (cases "n \<le> cb_len cb") auto
  ultimately show ?thesis
    by (auto simp: ship_ready_def ready_bytes_def rs_ok_def Let_def cb_is_empty_iff)
qed

lemma poll_recv_cases:
  obtains (Message) m rx1 where "poll_recv w reg rx = (Ok (Some m), rx1)" "ch_queue rx = m # ch_queue rx1"
      "ch_senders rx1 = ch_senders rx"
  | (Closed) rx1 where "poll_recv w reg rx = (Ok None, rx1)" "ch_queue rx = []" "ch_queue rx1 = []"
      "ch_senders rx = 0" "ch_senders rx1 = 0"
  | (Waiting) rx1 where "poll_recv w reg rx = (Pending, rx1)" "ch_queue rx = []" "ch_queue rx1 = []"
      "0 < ch_senders rx" "ch_senders rx1 = ch_senders rx"
proof (cases "ch_queue rx")
  case Nil
  let ?c = "if reg then rx\<lparr>ch_wakers := ch_wakers rx @ [w]\<rparr> else rx"
  have c: "ch_queue ?c = []" "ch_senders ?c = ch_senders rx" using Nil by simp_all
  show ?thesis
  proof (cases "ch_senders rx = 0")
    case True
    with Nil c show ?thesis by (intro Closed[of ?c]) (simp_all add: poll_recv_def inner_poll_dequeue_def)
  next
    case False
    with Nil c show ?thesis by (intro Waiting[of ?c]) (simp_all add: poll_recv_def inner_poll_dequeue_def)
  qed
next
  case (Cons m ms)
  then show ?thesis
    by (intro Message[of m "wake_all (rx\<lparr>ch_queue := ms\<rparr>)"])
      (simp_all add: poll_recv_def inner_poll_dequeue_def wake_all_def)
qed

lemma poll_body_data_spec:
  assumes "rs_ok (self, rx)" "poll_body_data w n (self, rx) = (r, self1, rx1)"
  shows "(\<forall>p. r \<noteq> Panic p)
    \<and> (\<forall>bs. r = Ok bs \<longrightarrow> rs_ok (self1, rx1) \<and> length bs \<le> n \<and> rs_stream (self, rx) = bs @ rs_stream (self1, rx1))
    \<and> (r = Pending \<longrightarrow> rs_ok (self1, rx1) \<and> rs_stream (self1, rx1) = rs_stream (self, rx) \<and> 0 < ch_senders rx)
    \<and> (\<forall>e. r = Err e \<longrightarrow> (\<exists>cs. ch_queue rx = Inl e # cs) \<and> ready_bytes self = [])
    \<and> ch_senders rx1 = ch_senders rx"
proof (cases "rs_ended self")
  case True
  with assms show ?thesis by (auto simp: poll_body_data_def rs_stream_def)
next
  case False
  show ?thesis
  proof (cases "rs_ready self")
    case (Some cb)
    then have cb: "cb_ok cb" using assms(1) by (simp add: rs_ok_def)
    obtain s1 where s1: "ship_ready n cb self = (Ok (take n (cb_deref cb)), s1)" "rs_ended s1 = rs_ended self"
      "ready_bytes s1 = drop n (cb_deref cb)" "rs_ok (s1, rx)" using ship_ready_spec[OF cb] by blast
    then have "r = Ok (take n (cb_deref cb))" "self1 = s1" "rx1 = rx"
      using assms(2) False Some by (auto simp: poll_body_data_def)
    with s1 False Some show ?thesis by (auto simp: rs_stream_def ready_bytes_def)
  next
    case None
    then have no: "ready_bytes self = []" by (simp add: ready_bytes_def)
    show ?thesis
    proof (cases rule: poll_recv_cases[of w True rx])
      case (Message m rx2)
      show ?thesis
      proof (cases m)
        case (Inl e)
        with Message None False assms no show ?thesis by (auto simp: poll_body_data_def)
      next
        case (Inr v)
        let ?s = "self\<lparr>rs_ready := Some (consume_buf_new v)\<rparr>"
        obtain s1 where s1: "ship_ready n (consume_buf_new v) ?s = (Ok (take n v), s1)"
          "rs_ended s1 = rs_ended ?s" "ready_bytes s1 = drop n v" "rs_ok (s1, rx2)"
          using ship_ready_spec[of "consume_buf_new v"] by (metis cb_new)
        then have "r = Ok (take n v)" "self1 = s1" "rx1 = rx2"
          using assms(2) False None Message Inr by (auto simp: poll_body_data_def)
        with s1 False no Message Inr show ?thesis by (auto simp: rs_stream_def)
      qed
    next
      case (Closed rx2)
      with None False assms no show ?thesis by (auto simp: poll_body_data_def rs_stream_def rs_ok_def)
    next
      case (Waiting rx2)
      with None False assms no show ?thesis by (auto simp: poll_body_data_def rs_stream_def rs_ok_def)
    qed
  qed
qed

text \<open>How far a stream whose sender is gone is from its end.\<close>

definition rs_togo :: "recv_stream \<times> recv_chan \<Rightarrow> nat" where
  "rs_togo = (\<lambda>(self, rx). if rs_ended self then 0
     else 1 + length (rs_stream (self, rx)) + (if rs_ready self = None then 0 else 1) + 2 * length (ch_queue rx))"

definition rs_fine :: "recv_stream \<times> recv_chan \<Rightarrow> bool" where
  "rs_fine = (\<lambda>(self, rx). ch_senders rx = 0 \<and> (\<forall>m \<in> set (ch_queue rx). \<exists>v. m = Inr v))"

lemma poll_body_data_progress:
  assumes "rs_ok (self, rx)" "0 < n" "rs_fine (self, rx)" "\<not> rs_ended self"
    "poll_body_data w n (self, rx) = (r, self1, rx1)"
  shows "rs_fine (self1, rx1) \<and> (rs_ended self1 \<or> rs_togo (self1, rx1) < rs_togo (self, rx))"
proof (cases "rs_ready self")
  case (Some cb)
  then have cb: "cb_ok cb" using assms(1) by (simp add: rs_ok_def)
  obtain s1 where s1: "ship_ready n cb self = (Ok (take n (cb_deref cb)), s1)" "rs_ended s1 = rs_ended self"
    "ready_bytes s1 = drop n (cb_deref cb)" "rs_ready s1 = None \<longleftrightarrow> drop n (cb_deref cb) = []"
    using ship_ready_spec[OF cb, of n self rx] by metis
  then have eq: "self1 = s1" "rx1 = rx" using assms(4,5) Some by (auto simp: poll_body_data_def)
  have "rs_stream (s1, rx) = drop n (cb_deref cb) @ chunk_bytes (ch_queue rx)"
    "rs_stream (self, rx) = cb_deref cb @ chunk_bytes (ch_queue rx)"
    using s1 assms(4) Some by (simp_all add: rs_stream_def ready_bytes_def)
  then have togo: "rs_togo (s1, rx) = 1 + (cb_len cb - n + length (chunk_bytes (ch_queue rx)))
      + (if rs_ready s1 = None then 0 else 1) + 2 * length (ch_queue rx)"
    "rs_togo (self, rx) = 2 + (cb_len cb + length (chunk_bytes (ch_queue rx))) + 2 * length (ch_queue rx)"
    using s1(2) assms(4) Some by (simp_all add: rs_togo_def)
  have "rs_ready s1 \<noteq> None \<Longrightarrow> n < cb_len cb"
    unfolding s1(4) by (metis drop_all length_cb_deref not_le)
  with assms(2) have "rs_togo (s1, rx) < rs_togo (self, rx)" unfolding togo by (cases "rs_ready s1 = None") auto
  with assms(3) eq show ?thesis by (simp add: rs_fine_def)
next
  case None
  show ?thesis
  proof (cases rule: poll_recv_cases[of w True rx])
    case (Message m rx2)
    then obtain v where v: "m = Inr v" using assms(3) by (auto simp: rs_fine_def)
    let ?s = "self\<lparr>rs_ready := Some (consume_buf_new v)\<rparr>"
    obtain s1 where s1: "ship_ready n (consume_buf_new v) ?s = (Ok (take n v), s1)"
      "rs_ended s1 = rs_ended ?s" "ready_bytes s1 = drop n v"
      using ship_ready_spec[of "consume_buf_new v"] by (metis cb_new)
    then have "self1 = s1" "rx1 = rx2"
      using assms(4,5) None Message v by (auto simp: poll_body_data_def)
    moreover have "rs_stream (s1, rx2) = drop n v @ chunk_bytes (ch_queue rx2)"
      "rs_stream (self, rx) = v @ chunk_bytes (ch_queue rx2)"
      using s1 assms(4) Message(2) v None by (simp_all add: rs_stream_def ready_bytes_def)
    then have "rs_togo (s1, rx2) < rs_togo (self, rx)"
      using s1(2) assms(4) Message(2) None by (auto simp: rs_togo_def)
    moreover have "rs_fine (s1, rx2)" using assms(3) Message(2,3) by (simp add: rs_fine_def)
    ultimately show ?thesis by simp
  next
    case (Closed rx2)
    then have "self1 = self\<lparr>rs_ended := True\<rparr>" "rx1 = rx2"
      using assms(4,5) None by (simp_all add: poll_body_data_def)
    with Closed(3,5) show ?thesis by (simp add: rs_fine_def)
  next
    case (Waiting rx2)
    with assms(3) show ?thesis by (simp add: rs_fine_def)
  qed
qed

interpretation rs_drain: draining_source "poll_body_data w" rs_stream rs_ok rs_togo rs_fine
  "\<lambda>(self, rx). rs_ended self" "\<lambda>_. []"
proof (unfold_locales, goal_cases)
  case (1 s n bs s')
  then show ?case using poll_body_data_spec[of "fst s" "snd s" w n "Ok bs" "fst s'" "snd s'"] by simp
next
  case (2 s n s')
  then show ?case using poll_body_data_spec[of "fst s" "snd s" w n Pending "fst s'" "snd s'"] by simp
next
  case (3 s n p s')
  then show ?case using poll_body_data_spec[of "fst s" "snd s" w n "Panic p" "fst s'" "snd s'"] by auto
next
  case (4 s n r s')
  have "r \<noteq> Err e" for e
    using 4 poll_body_data_spec[of "fst s" "snd s" w n r "fst s'" "snd s'"] by (auto simp: rs_fine_def)
  with 4 show ?case using poll_body_data_progress[of "fst s" "snd s" n w r "fst s'" "snd s'"] by (simp add: split_def)
next
  case (5 s n)
  then show ?case by (auto simp: poll_body_data_def)
next
  case (6 s)
  then show ?case by (auto simp: rs_stream_def)
qed

section \<open>Properties\<close>

lemma lr_beyond_complete: "lr_is_complete l \<Longrightarrow> lr_beyond (l, io) = in_stream io"
  by (cases l) (auto simp: lr_defs rte_after_def rte_is_end_def clr_left_zero[THEN iffD2])

lemma chunked_pieces:
  "concat (map (\<lambda>d. lw_frame LW_ChunkedEncoder (data_bytes d)) ds) = concat (map enc_chunk (map data_bytes ds))"
  by (simp add: lw_frame_def comp_def)

text \<open>What was sent is what the limiter made from the same headers will deliver.\<close>

lemma sent_body:
  assumes "ds \<noteq> []" "\<forall>d \<in> set ds. d \<noteq> EmptyData \<and> length (data_bytes d) < 16 ^ 10"
    and "is_chunked hs \<or> get_as hs ''content-length'' = Some N \<and> unat N = length (concat (map data_bytes ds))"
    and "send_pieces w ds (send_stream_new (lw_from_headers hs) False, receiver_new 1) = (Ok (Inr ()), ms, s)"
    and "in_stream io = concat (map fst ms) @ rest" "rx_ok io" "io_clean io"
  shows "lr_ok (lr_from_headers hs resp, io) \<and> lr_fine (lr_from_headers hs resp, io)
    \<and> lr_stream (lr_from_headers hs resp, io) = concat (map data_bytes ds)
    \<and> lr_beyond (lr_from_headers hs resp, io) = (if is_chunked hs then LF # CRLF else []) @ rest"
proof -
  let ?w = "lw_from_headers hs"
  have "\<forall>d \<in> set ds. piece_ok d" using assms(2) by (auto simp: piece_ok_def)
  from send_pieces_messages[OF this _ _ _ _ assms(4)]
  have wire: "concat (map fst ms) = concat (map (\<lambda>d. lw_frame ?w (data_bytes d)) ds) @ lw_frame_end ?w"
    using assms(1) by (simp add: send_stream_new_def receiver_new_def chan_open_def)
  show ?thesis
  proof (cases "is_chunked hs")
    case True
    then have l: "lr_from_headers hs resp = LR_ChunkedDecoder cd_new" "?w = LW_ChunkedEncoder"
      by (simp_all add: lr_from_headers_def lw_from_headers_def)
    have small: "\<forall>c \<in> set (map data_bytes ds). length c < 16 ^ 10" using assms(2) by simp
    have "in_stream io = concat (map enc_chunk (map data_bytes ds)) @ enc_end @ rest"
      unfolding assms(5) wire l(2) chunked_pieces by (simp add: lw_frame_end_def)
    with fed_message[OF small, of rest]
    have fed: "fed cd_new (in_stream io) (concat (map data_bytes ds)) (cd_new\<lparr>cd_state := End\<rparr>) ([LF] @ CRLF @ rest)"
      by simp
    have "completes cd_new (in_stream io)" "leftover cd_new (in_stream io) = [LF] @ CRLF @ rest"
      "decoded cd_new (in_stream io) = concat (map data_bytes ds)"
      using fed_completes[OF fed] fed_decoded[OF fed] by (auto simp: cd_is_end_def)
    with True l(1) assms(6,7) show ?thesis by (simp add: lr_defs)
  next
    case False
    then have N: "get_as hs ''content-length'' = Some N" "unat N = length (concat (map data_bytes ds))"
      using assms(3) by auto
    with False have l: "lr_from_headers hs resp = LR_ContentLength (clr_new N)" "?w = LW_ContentLength (clw_new N)"
      by (simp_all add: lr_from_headers_def lw_from_headers_def)
    have "in_stream io = concat (map data_bytes ds) @ rest"
      unfolding assms(5) wire l(2) by (simp add: lw_defs)
    with False l(1) assms(6,7) N(2) show ?thesis by (simp add: lr_defs)
  qed
qed

text \<open>
  C4. The body that is sent is the body that is read. Let headers indicate a body, and let a user
  send it piece by piece through a \<open>SendStream\<close> made from these headers, as borrowed or owned
  data, the last piece with the end flag; with a \<^verbatim>\<open>content-length\<close> the pieces add up to it. When
  the calls succeed, let the messages the connection took from the channel, followed by anything, be what
  the peer's connection will deliver. Polling the limiter made from the same headers often
  enough, with a buffer of any size, returns exactly the data that was sent, completes the
  limiter and leaves what follows the body, except that after a chunked body the last three bytes of its
  terminator are left too.
\<close>

theorem body_roundtrip:
  assumes "ds \<noteq> []" "\<forall>d \<in> set ds. d \<noteq> EmptyData \<and> length (data_bytes d) < 16 ^ 10"
    and "is_chunked hs \<or> get_as hs ''content-length'' = Some N \<and> unat N = length (concat (map data_bytes ds))"
    and "send_pieces w ds (send_stream_new (lw_from_headers hs) False, receiver_new 1) = (Ok (Inr ()), ms, s)"
    and "in_stream io = concat (map fst ms) @ rest" "rx_ok io" "io_clean io" "0 < n" "io_size io < k"
  shows "\<exists>l io'. poll_all lr_poll_read (replicate k n) (lr_from_headers hs resp, io)
       = (concat (map data_bytes ds), l, io')
     \<and> lr_is_complete l \<and> in_stream io' = (if is_chunked hs then LF # CRLF else []) @ rest"
proof -
  let ?s = "(lr_from_headers hs resp, io)"
  note sent = sent_body[OF assms(1-7), of resp]
  obtain l io' where t: "poll_all lr_poll_read (replicate k n) ?s = (concat (map data_bytes ds), l, io')"
    "lr_is_complete l" "lr_beyond (l, io') = (if is_chunked hs then LF # CRLF else []) @ rest"
    using lr_drain.poll_all_complete[of ?s n k] assms(8,9) sent by auto
  with lr_beyond_complete[OF t(2), of io'] show ?thesis by simp
qed

theorem body_roundtrip_witness:
  "\<exists>l io'. poll_all lr_poll_read (replicate 40 4)
       (lr_from_headers (hm_of [(''transfer-encoding'', ''chunked'')]) False, wit_io) = (''hello'', l, io')
     \<and> lr_is_complete l \<and> in_stream io' = [LF] @ CRLF @ ''GET''"
proof -
  let ?hs = "hm_of [(''transfer-encoding'', ''chunked'')]"
  let ?ds = "[Shared ''hel'', Owned ''lo'']"
  let ?p = "send_pieces 3 ?ds (send_stream_new (lw_from_headers ?hs) False, receiver_new 1)"
  let ?ms = "fst (snd ?p)"
  have a: "?ds \<noteq> []" "\<forall>d \<in> set ?ds. d \<noteq> EmptyData \<and> length (data_bytes d) < 16 ^ 10" by simp_all
  have b: "is_chunked ?hs \<or> get_as ?hs ''content-length'' = Some 5 \<and> unat (5 :: 64 word) = length (concat (map data_bytes ?ds))"
    by (rule disjI1) code_simp
  have c: "?p = (Ok (Inr ()), ?ms, snd (snd ?p))"
  proof -
    have "fst ?p = Ok (Inr ())" by code_simp
    then show ?thesis by (metis prod.collapse)
  qed
  have d: "in_stream wit_io = concat (map fst ?ms) @ ''GET''" by code_simp
  have e: "rx_ok wit_io" "io_clean wit_io" "(0::nat) < 4" "io_size wit_io < 40" by code_simp+
  have "is_chunked ?hs" by code_simp
  with body_roundtrip[OF a b c d e, of False] show ?thesis by simp
qed

lemma unat_count:
  "unat (t :: 64 word) + n < 2 ^ 64 \<Longrightarrow> unat (t + of_nat n) = unat t + n"
  by (simp add: unat_word_ariths unsigned_of_nat take_bit_nat_eq_self)

lemma send_limit_pieces:
  assumes "\<forall>d \<in> set ds. \<not> data_is_owned d \<and> d \<noteq> EmptyData" "\<not> ss_ended self" "chan_open tx" "ch_queue tx = []"
    "0 < ch_bound tx" "ss_limit self = LW_ContentLength v" "unat (clw_total v) \<le> unat (clw_limit v)"
    "unat (clw_total v) + length (concat (map data_bytes ds)) < 2 ^ 64"
    "send_pieces w ds (self, tx) = (r, ms, s)"
  shows "prefix (concat (map fst ms)) (concat (map data_bytes ds))
     \<and> unat (clw_total v) + length (concat (map fst ms)) \<le> unat (clw_limit v)
     \<and> (if unat (clw_total v) + length (concat (map data_bytes ds)) \<le> unat (clw_limit v)
        then r = Ok (Inr ()) \<and> concat (map fst ms) = concat (map data_bytes ds)
        else \<exists>m. r = Ok (Inl (User m)))"
  using assms
proof (induction ds arbitrary: self tx v r ms s)
  case (Cons d ds)
  let ?b = "data_bytes d" and ?eob = "ds = []"
  let ?v = "v\<lparr>clw_total := clw_total v + of_nat (length ?b)\<rparr>"
  have d: "d \<noteq> EmptyData" "\<not> data_is_owned d" using Cons.prems(1) by auto
  have len: "length ?b < USIZE_BOUND" "unat (clw_total v) + length ?b < 2 ^ 64" using Cons.prems(8) by auto
  have room: "length (ch_queue tx) < ch_bound tx" using Cons.prems(4,5) by simp
  have count: "unat (clw_total ?v) = unat (clw_total v) + length ?b" using unat_count[OF len(2)] by simp
  have ref: "lw_refuses (ss_limit self) ?b \<longleftrightarrow> ?b \<noteq> [] \<and> unat (clw_limit v) < unat (clw_total v) + length ?b"
    using Cons.prems(6) unat_count[OF len(2)] by (simp add: lw_refuses_def word_less_nat_alt)
  show ?case
  proof (cases "lw_refuses (ss_limit self) ?b")
    case True
    with poll_send_data_refused[OF Cons.prems(2,3) room True d(2), of w ?eob] Cons.prems(7,9) ref show ?thesis by auto
  next
    case False
    have fits: "unat (clw_total v) + length ?b \<le> unat (clw_limit v)" using False ref Cons.prems(7) by (cases "?b = []") auto
    obtain d1 where snd: "poll_send_data w d ?eob (self, tx)
        = (Ok (Inr ()), d1, ss_after self d ?eob, snd (sender_send (message self d ?eob) tx))"
      using poll_send_data_sends[OF Cons.prems(2,3) room d(1) len(1)] False d(2) by blast
    obtain tx2 where rcv: "poll_recv w False (snd (sender_send (message self d ?eob) tx)) = (Ok (Some (message self d ?eob)), tx2)"
      "chan_open tx2" "ch_queue tx2 = []" "0 < ch_bound tx2"
      using send_then_recv[OF Cons.prems(3-5)] by blast
    obtain ms1 where rest: "send_pieces w ds (ss_after self d ?eob, tx2) = (r, ms1, s)"
      "ms = message self d ?eob # ms1"
      using Cons.prems(9) snd rcv(1) by (auto split: prod.splits)
    have m: "fst (message self d ?eob) = ?b" using Cons.prems(6) by (simp add: message_def lw_defs)
    have after: "ss_limit (ss_after self d ?eob) = LW_ContentLength ?v"
      using Cons.prems(6) by (simp add: ss_after_def lw_count_def)
    show ?thesis
    proof (cases "ds = []")
      case True
      with rest m fits show ?thesis by auto
    next
      case False
      have "prefix (concat (map fst ms1)) (concat (map data_bytes ds))
         \<and> unat (clw_total ?v) + length (concat (map fst ms1)) \<le> unat (clw_limit ?v)
         \<and> (if unat (clw_total ?v) + length (concat (map data_bytes ds)) \<le> unat (clw_limit ?v)
            then r = Ok (Inr ()) \<and> concat (map fst ms1) = concat (map data_bytes ds)
            else \<exists>m. r = Ok (Inl (User m)))"
      proof (rule Cons.IH[OF _ _ rcv(2-4) after _ _ rest(1)])
        show "\<not> ss_ended (ss_after self d ?eob)" using False by (simp add: ss_after_def)
        show "unat (clw_total ?v) \<le> unat (clw_limit ?v)" using count fits by simp
        show "unat (clw_total ?v) + length (concat (map data_bytes ds)) < 2 ^ 64"
          using Cons.prems(8) by (simp only: count) simp
      qed (use Cons.prems(1) in auto)
      then show ?thesis unfolding rest(2) by (simp only: count) (simp add: m add.assoc)
    qed
  qed
qed simp

text \<open>
  C32. Borrowed data is held to the announced length. Send any borrowed pieces through a stream
  made for a \<^verbatim>\<open>content-length\<close> of \<open>N\<close>, each message taken before the next call. What is sent is
  always a prefix of the pieces and at most \<open>N\<close> bytes; when the pieces fit, every call
  succeeds and everything is sent; when they do not, the calls end with a user error.
\<close>

theorem content_length_send_limit:
  assumes "\<forall>d \<in> set ds. \<not> data_is_owned d \<and> d \<noteq> EmptyData" "length (concat (map data_bytes ds)) < 2 ^ 64"
    and "send_pieces w ds (send_stream_new (LW_ContentLength (clw_new N)) False, receiver_new 1) = (r, ms, s)"
  shows "prefix (concat (map fst ms)) (concat (map data_bytes ds)) \<and> length (concat (map fst ms)) \<le> unat N
     \<and> (if length (concat (map data_bytes ds)) \<le> unat N
        then r = Ok (Inr ()) \<and> concat (map fst ms) = concat (map data_bytes ds)
        else \<exists>m. r = Ok (Inl (User m)))"
  using send_limit_pieces[OF assms(1) _ _ _ _ _ _ _ assms(3), of "clw_new N"] assms(2)
  by (simp add: send_stream_new_def clw_new_def chan_open_def receiver_new_def)

theorem content_length_send_limit_witness:
  "\<exists>r ms s. send_pieces 3 [Shared ''hel'', Shared ''lo'', Shared ''!'']
       (send_stream_new (LW_ContentLength (clw_new 5)) False, receiver_new 1) = (r, ms, s)
     \<and> (\<exists>m. r = Ok (Inl (User m))) \<and> length (concat (map fst ms)) \<le> 5"
proof -
  let ?ds = "[Shared ''hel'', Shared ''lo'', Shared ''!'']"
  obtain r ms s where run: "send_pieces 3 ?ds
      (send_stream_new (LW_ContentLength (clw_new 5)) False, receiver_new 1) = (r, ms, s)" by (metis prod_cases3)
  have a: "\<forall>d \<in> set ?ds. \<not> data_is_owned d \<and> d \<noteq> EmptyData" "length (concat (map data_bytes ?ds)) < 2 ^ 64"
    by (simp_all add: data_is_owned_def)
  from content_length_send_limit[OF a run] run show ?thesis by simp
qed

text \<open>
  Owned data is not held to the announced length, and its end flag does not close the stream.
  On an open stream for a \<^verbatim>\<open>content-length\<close>, a call with owned data of any length
  succeeds and sends all of it; after a call with the end flag the stream still takes data.
\<close>

theorem owned_data_unlimited:
  assumes "chan_open tx" "length (ch_queue tx) < ch_bound tx" "\<not> ss_ended self" "ss_limit self = LW_ContentLength v"
  shows "\<exists>self1 tx1. poll_send_data w (Owned bs) eob (self, tx) = (Ok (Inr ()), EmptyData, self1, tx1)
     \<and> ch_queue tx1 = ch_queue tx @ [(bs, eob)] \<and> \<not> ss_ended self1"
proof -
  have "sender_poll_ready w True tx = (Ok True, tx)"
    using assms(1,2) by (simp add: sender_poll_ready_def inner_poll_ready_def chan_open_def)
  moreover have "lw_can_write_entire_vec (ss_limit self)" using assms(4) by (simp add: lw_can_write_entire_vec_def)
  moreover obtain b tx1 where "sender_send (bs, eob) tx = (b, tx1)" by fastforce
  moreover from this have "b" "ch_queue tx1 = ch_queue tx @ [(bs, eob)]"
    using mpsc.send_open[OF assms(1)] by blast+
  ultimately show ?thesis using assms(3)
    by (auto simp: poll_send_data_def data_is_owned_def data_take_owned_def lw_accept_entire_vec_eq ship_def)
qed

theorem owned_data_unlimited_witness:
  "\<exists>self1 tx1. poll_send_data 3 (Owned ''hello'') True
      (send_stream_new (LW_ContentLength (clw_new 2)) False, receiver_new 1) = (Ok (Inr ()), EmptyData, self1, tx1)
     \<and> ch_queue tx1 = [(''hello'', True)] \<and> \<not> ss_ended self1"
  using owned_data_unlimited[of "receiver_new 1" "send_stream_new (LW_ContentLength (clw_new 2)) False" "clw_new 2" 3 "''hello''" True]
  by (simp add: send_stream_new_def chan_open_def receiver_new_def)

text \<open>
  A history of a body channel: the connection sends a chunk (\<open>Inl\<close>), or the user polls the
  stream with a buffer of some size (\<open>Inr\<close>). The result is what the user has read.
\<close>

fun recv_run :: "waker \<Rightarrow> (bytes + nat) list \<Rightarrow> recv_stream \<times> recv_chan \<Rightarrow> bytes \<times> recv_stream \<times> recv_chan" where
  "recv_run w [] s = ([], s)"
| "recv_run w (Inl v # ops) (self, rx) = recv_run w ops (self, snd (sender_send (Inr v) rx))"
| "recv_run w (Inr n # ops) s = (case poll_body_data w n s of
      (Ok bs, s1) \<Rightarrow> (case recv_run w ops s1 of (out, s2) \<Rightarrow> (bs @ out, s2))
    | (_, s1) \<Rightarrow> recv_run w ops s1)"

definition rs_live :: "recv_stream \<times> recv_chan \<Rightarrow> bool" where
  "rs_live = (\<lambda>(self, rx). rs_ok (self, rx) \<and> \<not> rs_ended self \<and> chan_open rx \<and> 0 < ch_senders rx
     \<and> (\<forall>m \<in> set (ch_queue rx). \<exists>v. m = Inr v))"

lemma chunk_bytes_append:
  "\<forall>m \<in> set xs. \<exists>v. m = Inr v \<Longrightarrow> chunk_bytes (xs @ ys) = chunk_bytes xs @ chunk_bytes ys"
  by (induction xs) auto

lemma poll_body_data_keeps:
  assumes "rs_ok (self, rx)" "\<not> rs_ended self" "chan_open rx" "\<forall>m \<in> set (ch_queue rx). \<exists>v. m = Inr v"
    "poll_body_data w n (self, rx) = (r, self1, rx1)"
  shows "rs_ok (self1, rx1) \<and> chan_open rx1 \<and> set (ch_queue rx1) \<subseteq> set (ch_queue rx) \<and> ch_senders rx1 = ch_senders rx
    \<and> (r = Pending \<or> (\<exists>bs. r = Ok bs)) \<and> (rs_ended self1 \<longrightarrow> ch_senders rx = 0)
    \<and> rs_stream (self, rx) = (case r of Ok bs \<Rightarrow> bs | _ \<Rightarrow> []) @ rs_stream (self1, rx1)"
proof -
  note spec = poll_body_data_spec[OF assms(1,5)]
  have np: "r \<noteq> Panic p" for p using spec by blast
  have ne: "r \<noteq> Err e" for e
  proof
    assume "r = Err e"
    with spec obtain cs where "ch_queue rx = Inl e # cs" by blast
    with assms(4) show False by simp
  qed
  have res: "r = Pending \<or> (\<exists>bs. r = Ok bs)" using np ne by (cases r) auto
  have stream: "rs_ok (self1, rx1) \<and> rs_stream (self, rx) = (case r of Ok bs \<Rightarrow> bs | _ \<Rightarrow> []) @ rs_stream (self1, rx1)"
    using spec np ne by (cases r) auto
  have "(rs_ended self1 \<longrightarrow> ch_senders rx = 0) \<and> chan_open rx1 \<and> set (ch_queue rx1) \<subseteq> set (ch_queue rx)"
  proof (cases "rs_ready self")
    case (Some cb)
    have "cb_ok cb" using assms(1) Some by (simp add: rs_ok_def)
    then obtain s1 where s1: "ship_ready n cb self = (Ok (take n (cb_deref cb)), s1)" "rs_ended s1 = rs_ended self"
      using ship_ready_spec[of cb n self rx] by metis
    then have "self1 = s1" "rx1 = rx" using assms(2,5) Some by (simp_all add: poll_body_data_def)
    with s1(2) assms(2,3) show ?thesis by simp
  next
    case None
    obtain q rx2 where q: "poll_recv w True rx = (q, rx2)" by fastforce
    have op: "chan_open rx2" "set (ch_queue rx2) \<subseteq> set (ch_queue rx)"
      using q assms(3) by (auto simp: chan_defs chan_open_def split: list.splits if_splits)
    show ?thesis
    proof (cases rule: poll_recv_cases[of w True rx])
      case (Message m rx3)
      then obtain v where v: "m = Inr v" using assms(4) by auto
      obtain s1 where s1: "ship_ready n (consume_buf_new v) (self\<lparr>rs_ready := Some (consume_buf_new v)\<rparr>) = (Ok (take n v), s1)"
        "rs_ended s1 = rs_ended self"
        using ship_ready_spec[of "consume_buf_new v" n "self\<lparr>rs_ready := Some (consume_buf_new v)\<rparr>" rx] by auto
      have "self1 = s1" "rx1 = rx3"
        using assms(2,5) None Message(1) v s1(1) by (simp_all add: poll_body_data_def)
      with s1(2) assms(2) op q Message(1) show ?thesis by simp
    next
      case (Closed rx3)
      with assms(2,5) None q op show ?thesis by (auto simp: poll_body_data_def)
    next
      case (Waiting rx3)
      with assms(2,5) None q op show ?thesis by (auto simp: poll_body_data_def)
    qed
  qed
  with stream res spec show ?thesis by blast
qed

lemma poll_body_data_live:
  assumes "rs_live (self, rx)" "poll_body_data w n (self, rx) = (r, self1, rx1)"
  shows "rs_live (self1, rx1) \<and> rs_stream (self, rx) = (case r of Ok bs \<Rightarrow> bs | _ \<Rightarrow> []) @ rs_stream (self1, rx1)"
proof -
  have live: "rs_ok (self, rx)" "\<not> rs_ended self" "chan_open rx" "0 < ch_senders rx"
    "\<forall>m \<in> set (ch_queue rx). \<exists>v. m = Inr v" using assms(1) by (auto simp: rs_live_def)
  from poll_body_data_keeps[OF live(1-3,5) assms(2)] live show ?thesis by (auto simp: rs_live_def)
qed

lemma send_live:
  assumes "rs_live (self, rx)"
  shows "rs_live (self, snd (sender_send (Inr v) rx))
    \<and> rs_stream (self, snd (sender_send (Inr v) rx)) = rs_stream (self, rx) @ v"
proof -
  obtain b rx1 where s: "sender_send (Inr v) rx = (b, rx1)" by fastforce
  have live: "chan_open rx" "\<not> rs_ended self" "\<forall>m \<in> set (ch_queue rx). \<exists>v. m = Inr v"
    using assms by (auto simp: rs_live_def)
  have "chan_open rx1" "ch_queue rx1 = ch_queue rx @ [Inr v]" using mpsc.send_open[OF live(1) s] by blast+
  moreover have "ch_senders rx1 = ch_senders rx"
    using s live(1) by (auto simp: sender_send_def inner_enqueue_def wake_all_def chan_open_def)
  ultimately show ?thesis using assms s live
    by (auto simp: rs_live_def rs_ok_def rs_stream_def chunk_bytes_append)
qed

text \<open>
  C33. What the user reads is what the connection passed on. For every history of chunks sent by
  the connection and reads by the user, with buffers of any sizes, the bytes read so far,
  followed by those still ready and queued, are the chunks sent, in order; nothing is lost,
  repeated or reordered, and the stream does not report its end while the connection holds the sender.
\<close>

theorem recv_stream_fifo:
  assumes "rs_live s" "recv_run w ops s = (out, s')"
  shows "rs_live s' \<and> out @ rs_stream s' = rs_stream s @ concat (List.map_filter (\<lambda>x. case x of Inl v \<Rightarrow> Some v | Inr n \<Rightarrow> None) ops)"
  using assms
proof (induction ops arbitrary: s out)
  case Nil
  then show ?case by (simp add: map_filter_simps)
next
  case (Cons x ops)
  obtain self rx where s: "s = (self, rx)" by fastforce
  show ?case
  proof (cases x)
    case (Inl v)
    with Cons.IH[of "(self, snd (sender_send (Inr v) rx))" out] Cons.prems send_live[of self rx v] s
    show ?thesis by (simp add: map_filter_simps)
  next
    case (Inr n)
    obtain r self1 rx1 where r: "poll_body_data w n (self, rx) = (r, self1, rx1)" by (metis prod_cases3)
    obtain out1 where out1: "recv_run w ops (self1, rx1) = (out1, s')" "out = (case r of Ok bs \<Rightarrow> bs | _ \<Rightarrow> []) @ out1"
      using Cons.prems(2) r s Inr by (cases r) (auto split: prod.splits)
    have "rs_live (self, rx)" using Cons.prems(1) s by simp
    note live = poll_body_data_live[OF this r]
    with Cons.IH[OF _ out1(1)] out1(2) s Inr show ?thesis by (simp add: map_filter_simps)
  qed
qed

theorem recv_stream_fifo_witness:
  "\<exists>out s'. recv_run 3 [Inr 4, Inl ''hello'', Inr 2, Inl ''!'', Inr 2] (recv_stream_new False, receiver_new 1) = (out, s')
     \<and> out @ rs_stream s' = ''hello!''"
proof -
  let ?s = "(recv_stream_new False, receiver_new 1)"
  let ?ops = "[Inr 4, Inl ''hello'', Inr 2, Inl ''!'', Inr 2] :: (bytes + nat) list"
  obtain out s' where run: "recv_run 3 ?ops ?s = (out, s')" by (metis surj_pair)
  have "rs_live ?s"
    by (simp add: rs_live_def rs_ok_def recv_stream_new_def chan_open_def receiver_new_def)
  from recv_stream_fifo[OF this run]
  have "out @ rs_stream s' = ''hello!''"
    by (simp add: map_filter_simps rs_stream_def recv_stream_new_def ready_bytes_def receiver_new_def)
  with run show ?thesis by blast
qed

text \<open>
  A finished body is read to its end. When the connection has dropped the sender after
  passing on the chunks \<open>vs\<close> and no error, a user who keeps reading with a buffer of any size
  gets exactly their concatenation, and the stream then says that it is at its end.
\<close>

theorem recv_stream_complete:
  assumes "ch_queue rx = map Inr vs" "ch_senders rx = 0" "0 < n" "2 + length (concat vs) + 2 * length vs < k"
  shows "\<exists>self' rx'. poll_all (poll_body_data w) (replicate k n) (recv_stream_new False, rx) = (concat vs, self', rx')
     \<and> is_end_stream self'"
proof -
  let ?s = "(recv_stream_new False, rx)"
  have cb: "chunk_bytes (map Inr vs) = concat vs" by (induction vs) simp_all
  have "rs_ok ?s" "rs_fine ?s" "rs_stream ?s = concat vs" "rs_togo ?s < k"
    using assms by (auto simp: rs_ok_def rs_fine_def rs_stream_def rs_togo_def recv_stream_new_def ready_bytes_def cb)
  with rs_drain.poll_all_complete[of ?s n k w] assms(3) show ?thesis by (auto simp: is_end_stream_def)
qed

theorem recv_stream_complete_witness:
  "\<exists>self' rx'. poll_all (poll_body_data 3) (replicate 12 2)
      (recv_stream_new False, (receiver_new 1)\<lparr>ch_queue := [Inr ''hel'', Inr ''lo''], ch_senders := 0\<rparr>)
        = (''hello'', self', rx') \<and> is_end_stream self'"
  using recv_stream_complete[of "(receiver_new 1)\<lparr>ch_queue := [Inr ''hel'', Inr ''lo''], ch_senders := 0\<rparr>"
      "[''hel'', ''lo'']" 2 12 3] by simp

end
