(* ===== verification/Http11.thy ===== *)
theory Http11
  imports Errors Buf_Reader Http_Api
begin

text \<open>
  \<^verbatim>\<open>src/http11.rs\<close>: writing the head of a request or a response into a buffer of fixed size,
  finding the end of a head in a connection, and turning a head into a request or a response.
  The scanner is compared with a reference that reads the bytes one by one from the stream
  (\<open>head_len\<close>): what it finds does not depend on how the transport cuts the bytes, and a head
  written here is found with exactly the length it was written with. The parser \<^verbatim>\<open>httparse\<close>
  and the builders of the \<^verbatim>\<open>http\<close> crate are a parameter (\<open>http_api\<close>).
\<close>

abbreviation READ_BUF_INIT_SIZE :: nat where "READ_BUF_INIT_SIZE \<equiv> 16384"

section \<open>Writing a head\<close>

text \<open>
  An \<^verbatim>\<open>io::Cursor\<close> over a slice: a write that does not fit fails with \<^verbatim>\<open>WriteZero\<close>. The bytes
  returned stand for the count: they are what the slice holds up to it.
\<close>

record cursor =
  cu_cap :: nat
  cu_bytes :: bytes

definition cu_write_all :: "bytes \<Rightarrow> cursor \<Rightarrow> cursor res" where
  "cu_write_all bs w =
     (if length (cu_bytes w) + length bs \<le> cu_cap w then Ok (w\<lparr>cu_bytes := cu_bytes w @ bs\<rparr>)
      else Err (IoError WriteZero ''failed to write whole buffer''))"

fun write_headers :: "(string \<times> header_value) list \<Rightarrow> cursor \<Rightarrow> cursor res" where
  "write_headers [] w = Ok w"
| "write_headers ((name, value) # hs) w =
     rbind (cu_write_all (name @ '': '') w) (\<lambda>w.
     rbind (cu_write_all (hv_as_bytes value) w) (\<lambda>w.
     rbind (cu_write_all CRLF w) (\<lambda>w.
     write_headers hs w)))"

definition version_text :: "http_version \<Rightarrow> string res" where
  "version_text v = (case v of
      HTTP_10 \<Rightarrow> Ok ''1.0''
    | HTTP_11 \<Rightarrow> Ok ''1.1''
    | _ \<Rightarrow> Panic ''Unsupported http version'')"

definition host_port :: "uri \<Rightarrow> nat" where
  "host_port u =
     (let default_port = (if uri_scheme_str u = Some ''https'' then 443
                          else if uri_scheme_str u = Some ''http'' then 80
                          else 0)
      in case uri_port_u16 u of
           Some p \<Rightarrow> if p = default_port then 0 else p
         | None \<Rightarrow> 0)"

definition write_http1x_req :: "request \<Rightarrow> nat \<Rightarrow> bytes res" where
  "write_http1x_req req cap =
     (let pq = (case uri_path_and_query (req_uri req) of Some pq \<Rightarrow> pq | None \<Rightarrow> ''/'') in
      rbind (version_text (req_version req)) (\<lambda>ver.
      rbind (cu_write_all (req_method req @ '' '' @ pq @ '' HTTP/'' @ ver @ CRLF)
               \<lparr>cu_cap = cap, cu_bytes = []\<rparr>) (\<lambda>w.
      rbind (if find (\<lambda>(name, value). name = ''host'') (hm_iter (req_headers req)) = None then
               (case uri_host (req_uri req) of
                  Some h \<Rightarrow>
                    rbind (cu_write_all (''host: '' @ h) w) (\<lambda>w.
                    rbind (if host_port (req_uri req) \<noteq> 0
                           then cu_write_all ('':'' @ show_radix 10 (host_port (req_uri req))) w
                           else Ok w) (\<lambda>w.
                    cu_write_all CRLF w))
                | None \<Rightarrow> Ok w)
             else Ok w) (\<lambda>w.
      rbind (write_headers (hm_iter (req_headers req)) w) (\<lambda>w.
      rbind (cu_write_all CRLF w) (\<lambda>w.
      Ok (cu_bytes w)))))))"

definition write_http1x_res :: "response \<Rightarrow> nat \<Rightarrow> bytes res" where
  "write_http1x_res res cap =
     rbind (version_text (res_version res)) (\<lambda>ver.
     rbind (cu_write_all (''HTTP/'' @ ver @ '' '' @ show_radix 10 (sc_as_u16 (res_status res)) @ '' ''
              @ (case sc_canonical_reason (res_status res) of Some r \<Rightarrow> r | None \<Rightarrow> ''Unknown'') @ CRLF)
              \<lparr>cu_cap = cap, cu_bytes = []\<rparr>) (\<lambda>w.
     rbind (write_headers (hm_iter (res_headers res)) w) (\<lambda>w.
     rbind (cu_write_all CRLF w) (\<lambda>w.
     Ok (cu_bytes w)))))"

text \<open>
  How the client and the server use the writers: into the room of a fresh \<open>FastBuf\<close>, which is then
  extended by the count that was returned.
\<close>

definition write_head_into :: "nat \<Rightarrow> (nat \<Rightarrow> bytes res) \<Rightarrow> fast_buf res" where
  "write_head_into size_limit writer =
     rbind (fb_borrow (fb_with_capacity size_limit)) (\<lambda>write_to.
     rbind (writer (fb_len (fr_buf write_to))) (\<lambda>bs.
     fr_extend (length bs) (fr_fill 0 bs write_to)))"

section \<open>Parsing a head\<close>

text \<open>
  What \<^verbatim>\<open>httparse\<close> leaves in its \<^verbatim>\<open>Response\<close> and \<^verbatim>\<open>Request\<close>, and the functions of the two foreign
  crates that are called with it. An error is what it displays as.
\<close>

record parsed_res =
  pr_is_partial :: bool
  pr_version :: "nat option"
  pr_code :: "nat option"
  pr_headers :: "(string \<times> bytes) list"

record parsed_req =
  pq_is_partial :: bool
  pq_version :: "nat option"
  pq_path :: "string option"
  pq_method :: "string option"
  pq_headers :: "(string \<times> bytes) list"

record http_api =
  api_parse_res :: "bytes \<Rightarrow> string + parsed_res"
  api_parse_req :: "bytes \<Rightarrow> string + parsed_req"
  api_header_name :: "string \<Rightarrow> string option"
  api_header_value :: "bytes \<Rightarrow> header_value option"
  api_build_uri :: "string option \<Rightarrow> string + uri"
  api_build_res :: "http_version \<Rightarrow> nat option \<Rightarrow> (string \<times> header_value) list \<Rightarrow> string + response"
  api_build_req ::
    "http_version \<Rightarrow> uri \<Rightarrow> string option \<Rightarrow> (string \<times> header_value) list \<Rightarrow> string + request"

definition version_of :: "nat option \<Rightarrow> http_version" where
  "version_of v = (case v of
      Some n \<Rightarrow> if n = 0 then HTTP_10 else HTTP_11
    | None \<Rightarrow> HTTP_11)"

definition invalid_data :: "string + 'a \<Rightarrow> io_error + 'a" where
  "invalid_data r = (case r of Inl e \<Rightarrow> Inl (IoError InvalidData e) | Inr a \<Rightarrow> Inr a)"

text \<open>The loop that hands the parsed headers to the builder, dropping those it cannot take.\<close>

fun kept_headers :: "http_api \<Rightarrow> bool \<Rightarrow> (string \<times> bytes) list \<Rightarrow> (string \<times> header_value) list" where
  "kept_headers api skip_empty [] = []"
| "kept_headers api skip_empty ((name, value) # hs) =
     (if name = [] \<and> skip_empty then kept_headers api skip_empty hs
      else case (api_header_name api name, api_header_value api value) of
          (Some n, Some v) \<Rightarrow> (n, v) # kept_headers api skip_empty hs
        | _ \<Rightarrow> kept_headers api skip_empty hs)"

definition try_parse_res :: "http_api \<Rightarrow> bytes \<Rightarrow> bool \<Rightarrow> io_error + response option" where
  "try_parse_res api buf end_of_stream =
     (case invalid_data (api_parse_res api buf) of
        Inl e \<Rightarrow> Inl e
      | Inr parser \<Rightarrow>
          if pr_is_partial parser \<and> \<not> end_of_stream then Inr None
          else case invalid_data (api_build_res api (version_of (pr_version parser)) (pr_code parser)
                      (kept_headers api end_of_stream (pr_headers parser))) of
              Inl e \<Rightarrow> Inl e
            | Inr built \<Rightarrow> Inr (Some built))"

definition try_parse_req :: "http_api \<Rightarrow> bytes \<Rightarrow> bool \<Rightarrow> io_error + request option" where
  "try_parse_req api buf _ =
     (case invalid_data (api_parse_req api buf) of
        Inl e \<Rightarrow> Inl e
      | Inr parser \<Rightarrow>
          if pq_is_partial parser then Inr None
          else case invalid_data (api_build_uri api (pq_path parser)) of
              Inl e \<Rightarrow> Inl e
            | Inr u \<Rightarrow>
                (case invalid_data (api_build_req api
                        (if pq_version parser = Some 1 then HTTP_11 else HTTP_10) u (pq_method parser)
                        (kept_headers api False (pq_headers parser))) of
                   Inl e \<Rightarrow> Inl e
                 | Inr built \<Rightarrow> Inr (Some built)))"

section \<open>Finding the end of a head\<close>

abbreviation END_OF_HEADER :: bytes where "END_OF_HEADER \<equiv> CRLF @ CRLF"

text \<open>What the inner loop does with one byte.\<close>

definition head_step :: "nat \<Rightarrow> byte \<Rightarrow> nat" where
  "head_step end_index c =
     (if c = END_OF_HEADER ! end_index then end_index + 1
      else if end_index = 0 \<and> c = LF then 3
      else if end_index > 0 then 0
      else end_index)"

datatype scan_result =
    ScanFound nat
  | ScanEof
  | ScanTooBig
  | ScanMore nat nat
  | ScanPanic

function scan_head :: "bytes \<Rightarrow> bool \<Rightarrow> nat \<Rightarrow> nat \<Rightarrow> scan_result" where
  "scan_head buf end_of_stream end_index buf_index =
     (if end_index = length END_OF_HEADER \<or> end_of_stream \<and> buf_index > 0 then ScanFound buf_index
      else if end_of_stream \<and> buf_index = 0 then ScanEof
      else if buf_index = READ_BUF_INIT_SIZE then ScanTooBig
      else if buf_index = length buf then ScanMore end_index buf_index
      else if buf_index > length buf \<or> end_index > length END_OF_HEADER then ScanPanic
      else scan_head buf end_of_stream (head_step end_index (buf ! buf_index)) (buf_index + 1))"
  by pat_completeness auto
termination
  by (relation "measure (\<lambda>(buf, eos, ei, bi). length buf - bi)") auto

declare scan_head.simps [simp del]

lemma tr_poll_read_shrinks:
  "tr_poll_read n t = (Ok bs, t') \<Longrightarrow> 0 < n \<Longrightarrow> rx_size (tr_rx t') < rx_size (tr_rx t)"
  by (auto simp: tr_poll_read.simps split: list.splits rx_event.splits if_splits)

lemma tr_poll_read_unclean:
  "tr_poll_read n t = (Ok bs, t') \<Longrightarrow> bs \<noteq> [] \<Longrightarrow> rx_clean (tr_rx t') \<Longrightarrow> rx_clean (tr_rx t)"
  by (auto simp: tr_poll_read.simps split: list.splits rx_event.splits if_splits)

lemma poll_fill_buf_rx:
  assumes "poll_fill_buf force io = (Ok buf, io')" "force \<or> fb_len (bi_buf io) = 0"
  shows "rx_size (tr_rx (bi_inner io')) < rx_size (tr_rx (bi_inner io))"
proof -
  let ?len = "fb_len (bi_buf io)"
  obtain br where br: "fb_borrow (bi_buf io) = Ok br"
    using assms by (cases "fb_borrow (bi_buf io)") (auto simp: poll_fill_buf_def Let_def)
  then have "?len < fb_len (fr_buf br)"
    by (auto simp: fb_borrow_def set_len_def Let_def split: if_splits)
  moreover obtain q t where q: "tr_poll_read (fb_len (fr_buf br) - ?len) (bi_inner io) = (q, t)" by fastforce
  moreover obtain bs where "q = Ok bs" "bi_inner io' = t"
    using assms br q by (cases q; cases "fr_extend (length (case q of Ok bs \<Rightarrow> bs | _ \<Rightarrow> []))
        (fr_fill ?len (case q of Ok bs \<Rightarrow> bs | _ \<Rightarrow> []) br)") (auto simp: poll_fill_buf_def Let_def)
  ultimately show ?thesis using tr_poll_read_shrinks[of _ "bi_inner io" bs t] by auto
qed

lemma poll_fill_buf_noread:
  "poll_fill_buf False io = (r, io') \<Longrightarrow> fb_len (bi_buf io) \<noteq> 0 \<Longrightarrow> io' = io"
  by (auto simp: poll_fill_buf_def Let_def)

function crlf_loop ::
  "(bytes \<Rightarrow> bool \<Rightarrow> 'a) \<Rightarrow> bool \<Rightarrow> nat \<Rightarrow> nat \<Rightarrow> buf_io \<Rightarrow> 'a res \<times> buf_io" where
  "crlf_loop f force_append end_index buf_index io =
     ready (poll_fill_buf force_append io) (\<lambda>buf io1.
       let end_of_stream = (length buf = buf_index) in
       case scan_head buf end_of_stream end_index buf_index of
         ScanFound n \<Rightarrow>
           (let ret = f (take n buf) end_of_stream in
            ready (consume n io1) (\<lambda>_ io2. (Ok ret, io2)))
       | ScanEof \<Rightarrow> (Err (IoError UnexpectedEof ''EOF and no header length''), io1)
       | ScanTooBig \<Rightarrow>
           (Err (IoError InvalidData (''No header found in '' @ show_radix 10 READ_BUF_INIT_SIZE
              @ '' bytes'')), io1)
       | ScanMore ei bi \<Rightarrow> crlf_loop f True ei bi io1
       | ScanPanic \<Rightarrow> (Panic ''index out of bounds'', io1))"
  by pat_completeness auto
termination
proof (relation "measures [\<lambda>(f, fa, ei, bi, io). rx_size (tr_rx (bi_inner io)),
    \<lambda>(f, fa, ei, bi, io). if fa then 0 else 1]", goal_cases)
  case (2 f force ei bi io buf io1 x x61 x62)
  show ?case
  proof (cases "force \<or> fb_len (bi_buf io) = 0")
    case True
    with 2 show ?thesis by (auto dest: poll_fill_buf_rx)
  next
    case False
    with 2 poll_fill_buf_noread[of io "Ok buf" io1] show ?thesis by auto
  qed
qed simp

declare crlf_loop.simps [simp del]

definition poll_for_crlfcrlf :: "(bytes \<Rightarrow> bool \<Rightarrow> 'a) \<Rightarrow> buf_io \<Rightarrow> 'a res \<times> buf_io" where
  "poll_for_crlfcrlf f io = crlf_loop f False 0 0 io"

section \<open>The written head\<close>

definition enc_header :: "string \<times> header_value \<Rightarrow> bytes" where
  "enc_header h = fst h @ '': '' @ hv_as_bytes (snd h) @ CRLF"

definition enc_headers :: "(string \<times> header_value) list \<Rightarrow> bytes" where
  "enc_headers hs = concat (map enc_header hs)"

text \<open>
  The host line of a request: only when no header gives the host and the URI names one, with the
  port unless there is none or it is the default of the scheme. This and the names of the versions are stated
  here on their own, not by the functions of the code.
\<close>

definition enc_port :: "uri \<Rightarrow> bytes" where
  "enc_port u = (case uri_port_u16 u of
      None \<Rightarrow> []
    | Some p \<Rightarrow> if p = 0 \<or> (uri_scheme_str u, p) \<in> {(Some ''http'', 80), (Some ''https'', 443)} then []
        else '':'' @ show_radix 10 p)"

definition version_name :: "http_version \<Rightarrow> string option" where
  "version_name v = (if v = HTTP_10 then Some ''1.0'' else if v = HTTP_11 then Some ''1.1'' else None)"

lemma enc_port_eq: "enc_port u = (if host_port u = 0 then [] else '':'' @ show_radix 10 (host_port u))"
  by (auto simp: enc_port_def host_port_def Let_def split: option.split)

lemma version_name_eq: "version_text v = (case version_name v of Some ver \<Rightarrow> Ok ver | None \<Rightarrow> Panic ''Unsupported http version'')"
  by (cases v) (simp_all add: version_text_def version_name_def)

definition enc_host :: "request \<Rightarrow> bytes" where
  "enc_host req =
     (if ''host'' \<in> fst ` set (hm_iter (req_headers req)) then []
      else case uri_host (req_uri req) of
          None \<Rightarrow> []
        | Some h \<Rightarrow> ''host: '' @ h @ enc_port (req_uri req) @ CRLF)"

definition enc_req_line :: "string \<Rightarrow> request \<Rightarrow> bytes" where
  "enc_req_line ver req = req_method req @ '' ''
     @ (case uri_path_and_query (req_uri req) of Some pq \<Rightarrow> pq | None \<Rightarrow> ''/'') @ '' HTTP/'' @ ver @ CRLF"

definition enc_req :: "string \<Rightarrow> request \<Rightarrow> bytes" where
  "enc_req ver req = enc_req_line ver req @ enc_host req @ enc_headers (hm_iter (req_headers req)) @ CRLF"

definition enc_res :: "string \<Rightarrow> response \<Rightarrow> bytes" where
  "enc_res ver res =
     ''HTTP/'' @ ver @ '' '' @ show_radix 10 (sc_as_u16 (res_status res)) @ '' ''
     @ (case sc_canonical_reason (res_status res) of Some r \<Rightarrow> r | None \<Rightarrow> ''Unknown'') @ CRLF
     @ enc_headers (hm_iter (res_headers res)) @ CRLF"

text \<open>A sequence of writes writes the concatenation, or nothing when that does not fit.\<close>

definition cu_result :: "nat \<Rightarrow> bytes \<Rightarrow> cursor res" where
  "cu_result cap bs = (if length bs \<le> cap then Ok \<lparr>cu_cap = cap, cu_bytes = bs\<rparr>
     else Err (IoError WriteZero ''failed to write whole buffer''))"

lemma cu_write_all_result:
  "rbind (cu_result cap bs) (\<lambda>w. rbind (cu_write_all cs w) k) = rbind (cu_result cap (bs @ cs)) k"
  "rbind (cu_result cap bs) (cu_write_all cs) = cu_result cap (bs @ cs)"
  by (auto simp: cu_result_def cu_write_all_def)

lemma write_headers_result:
  "rbind (cu_result cap bs) (write_headers hs) = cu_result cap (bs @ enc_headers hs)"
proof (induction hs arbitrary: bs)
  case Nil
  then show ?case by (auto simp: enc_headers_def cu_result_def)
next
  case (Cons h hs)
  obtain n v where h: "h = (n, v)" by fastforce
  have "rbind (cu_result cap bs) (write_headers (h # hs)) = rbind (cu_result cap (bs @ enc_header h)) (write_headers hs)"
    by (auto simp: h enc_header_def cu_result_def cu_write_all_def)
  with Cons.IH show ?case by (simp add: enc_headers_def)
qed

lemma write_headers_bind:
  "rbind (cu_result cap bs) (\<lambda>w. rbind (write_headers hs w) k) = rbind (cu_result cap (bs @ enc_headers hs)) k"
  using write_headers_result[of cap bs hs] by (auto simp: cu_result_def split: if_splits)

lemma rbind_assoc: "rbind (rbind m f) g = rbind m (\<lambda>x. rbind (f x) g)"
  by (cases m) simp_all

lemma cu_result_start: "cu_write_all bs \<lparr>cu_cap = cap, cu_bytes = []\<rparr> = cu_result cap bs"
  by (simp add: cu_write_all_def cu_result_def)

lemma cu_result_bytes:
  "rbind (cu_result cap bs) (\<lambda>w. Ok (cu_bytes w)) =
    (if length bs \<le> cap then Ok bs else Err (IoError WriteZero ''failed to write whole buffer''))"
  by (simp add: cu_result_def)

lemmas write_simps = cu_write_all_result write_headers_bind cu_result_start cu_result_bytes rbind_assoc

lemma host_header_absent:
  "find (\<lambda>(name, value). name = ''host'') hs = None \<longleftrightarrow> ''host'' \<notin> fst ` set hs"
  by (force simp: find_None_iff)

lemma write_req_eq:
  assumes "version_text (req_version req) = Ok ver"
  shows "write_http1x_req req cap =
    (if length (enc_req ver req) \<le> cap then Ok (enc_req ver req)
     else Err (IoError WriteZero ''failed to write whole buffer''))"
proof -
  have host: "rbind (cu_result cap (enc_req_line ver req)) (\<lambda>w.
      rbind (if find (\<lambda>(name, value). name = ''host'') (hm_iter (req_headers req)) = None then
               (case uri_host (req_uri req) of
                  Some h \<Rightarrow>
                    rbind (cu_write_all (''host: '' @ h) w) (\<lambda>w.
                    rbind (if host_port (req_uri req) \<noteq> 0
                           then cu_write_all ('':'' @ show_radix 10 (host_port (req_uri req))) w
                           else Ok w) (\<lambda>w.
                    cu_write_all CRLF w))
                | None \<Rightarrow> Ok w)
             else Ok w) k) = rbind (cu_result cap (enc_req_line ver req @ enc_host req)) k" for k
  proof (cases "find (\<lambda>(name, value). name = ''host'') (hm_iter (req_headers req))")
    case None
    then have "''host'' \<notin> fst ` set (hm_iter (req_headers req))" unfolding host_header_absent .
    then show ?thesis
      by (cases "uri_host (req_uri req)"; cases "host_port (req_uri req) = 0")
        (simp_all add: None write_simps enc_host_def enc_port_eq)
  next
    case (Some h)
    then have "\<not> find (\<lambda>(name, value). name = ''host'') (hm_iter (req_headers req)) = None" by simp
    then have "''host'' \<in> fst ` set (hm_iter (req_headers req))" unfolding host_header_absent by blast
    with Some show ?thesis by (simp add: enc_host_def)
  qed
  show ?thesis
    unfolding write_http1x_req_def Let_def assms rbind_simps cu_result_start enc_req_line_def[symmetric] host
    by (simp add: write_simps enc_req_def)
qed

lemma write_res_eq:
  assumes "version_text (res_version res) = Ok ver"
  shows "write_http1x_res res cap =
    (if length (enc_res ver res) \<le> cap then Ok (enc_res ver res)
     else Err (IoError WriteZero ''failed to write whole buffer''))"
  using assms by (simp add: write_http1x_res_def write_simps enc_res_def)

section \<open>The end of a head in a stream of bytes\<close>

text \<open>
  The reference scanner: how many bytes of the stream make up the head, its terminator
  included, when \<open>e\<close> bytes of the terminator have just been seen.
\<close>

fun head_len :: "nat \<Rightarrow> bytes \<Rightarrow> nat option" where
  "head_len e [] = (if e = 4 then Some 0 else None)"
| "head_len e (c # cs) = (if e = 4 then Some 0 else map_option Suc (head_len (head_step e c) cs))"

lemma head_step_le: "e < 4 \<Longrightarrow> head_step e c \<le> 4"
  by (simp add: head_step_def)

lemma head_len_append:
  "head_len e (xs @ ys) = (case head_len e xs of
      Some k \<Rightarrow> Some k
    | None \<Rightarrow> map_option (\<lambda>k. length xs + k) (head_len (foldl head_step e xs) ys))"
proof (induction xs arbitrary: e)
  case Nil
  have "map_option ((+) 0) x = x" for x :: "nat option" by (cases x) simp_all
  then show ?case by (cases ys) auto
next
  case (Cons x xs)
  have "map_option (\<lambda>k. Suc (length xs + k)) y = map_option ((+) (Suc (length xs))) y" for y
    by (cases y) simp_all
  with Cons show ?case by (auto simp: option.map_comp comp_def split: option.splits)
qed

lemma head_len_le: "head_len e xs = Some k \<Longrightarrow> k \<le> length xs"
  by (induction xs arbitrary: e k) (auto split: if_splits)

lemma foldl_head_step_le: "e \<le> 4 \<Longrightarrow> head_len e xs = None \<Longrightarrow> foldl head_step e xs < 4"
  by (induction xs arbitrary: e) (auto split: if_splits simp: head_step_le)

text \<open>While the stream goes on, the scanner over a buffer is the reference over its bytes.\<close>

lemma scan_head_eq:
  assumes "e \<le> 4" "bi \<le> length buf" "bi \<le> READ_BUF_INIT_SIZE"
  shows "scan_head buf False e bi =
    (case head_len e (drop bi buf) of
       Some k \<Rightarrow> if bi + k \<le> READ_BUF_INIT_SIZE then ScanFound (bi + k) else ScanTooBig
     | None \<Rightarrow> if length buf < READ_BUF_INIT_SIZE
         then ScanMore (foldl head_step e (drop bi buf)) (length buf) else ScanTooBig)"
  using assms
proof (induction "length buf - bi" arbitrary: e bi)
  case 0
  then show ?case by (subst scan_head.simps) auto
next
  case (Suc m)
  show ?case
  proof (cases "e = 4 \<or> bi = READ_BUF_INIT_SIZE")
    case True
    then show ?thesis using Suc.prems Suc.hyps(2)
      by (subst scan_head.simps) (auto simp: Cons_nth_drop_Suc[symmetric] split: option.splits)
  next
    case False
    with Suc have lt: "e < 4" "bi < length buf" "bi < READ_BUF_INIT_SIZE" by auto
    then have "scan_head buf False e bi = scan_head buf False (head_step e (buf ! bi)) (Suc bi)"
      by (subst scan_head.simps) auto
    moreover have "drop bi buf = buf ! bi # drop (Suc bi) buf" using lt by (simp add: Cons_nth_drop_Suc)
    ultimately show ?thesis
      using Suc.hyps(1)[of "Suc bi" "head_step e (buf ! bi)"] Suc.hyps(2) lt head_step_le[of e "buf ! bi"]
      by (auto split: option.splits)
  qed
qed

text \<open>One fill of the read buffer: nothing read, or the answer of the transport appended.\<close>

lemma poll_fill_buf_cases:
  assumes "rx_ok io" "poll_fill_buf force io = (r, io')" "\<forall>p. r \<noteq> Panic p"
  obtains (Kept) "\<not> force" "unread io \<noteq> []" "r = Ok (unread io)" "io' = io"
  | (Read) n q t where "0 < n" "tr_poll_read n (bi_inner io) = (q, t)" "bi_inner io' = t"
      "force \<or> unread io = []" "unread io' = unread io @ (case q of Ok bs \<Rightarrow> bs | _ \<Rightarrow> [])"
      "r = (case q of Ok bs \<Rightarrow> Ok (unread io @ bs) | _ \<Rightarrow> q)" "bi_pos io' = bi_pos io"
proof (cases "fb_len (bi_buf io) = 0 \<or> force")
  case False
  with assms have "r = Ok (unread io)" "io' = io" "unread io \<noteq> []"
    using rx_ok_pos[OF assms(1)] by (auto simp: poll_fill_buf_def Let_def unread_nil_iff rx_ok_def)
  with False Kept show ?thesis by blast
next
  case True
  let ?len = "fb_len (bi_buf io)"
  have ok: "fb_ok (bi_buf io)" using assms by (auto simp: rx_ok_def)
  note spec = poll_fill_buf_spec[OF assms(1,2)]
  obtain br where br: "fb_borrow (bi_buf io) = Ok br"
    using assms(2,3) True by (cases "fb_borrow (bi_buf io)") (auto simp: poll_fill_buf_def Let_def fb_borrow_def split: if_splits)
  note brD = fb_borrow_OkD[OF br ok]
  have n: "0 < fb_len (fr_buf br) - ?len"
    using br by (auto simp: fb_borrow_def set_len_def Let_def split: if_splits)
  obtain q t where q: "tr_poll_read (fb_len (fr_buf br) - ?len) (bi_inner io) = (q, t)" by fastforce
  have emp: "force \<or> unread io = []" using True assms(1) by (auto simp: unread_nil_iff)
  show ?thesis
  proof (cases q)
    case (Ok bs)
    have "?len = fr_cur_len br" using brD by simp
    then have "fr_cur_len br + length bs \<le> fb_len (fr_buf br)"
      using tr_poll_read_stream(1) q Ok n by fastforce
    then obtain b where b: "fr_extend (length bs) (fr_fill ?len bs br) = Ok b"
      "fb_deref b = fr_bytes br @ bs"
      using fr_fill_extend[OF brD(1)] brD(3) by metis
    have "io' = io\<lparr>bi_inner := t, bi_buf := b, bi_pending_rx := False\<rparr>" "r = Ok (unread io')"
      using assms(2) True br q Ok b by (auto simp: poll_fill_buf_def Let_def)
    moreover from this have "unread io' = unread io @ bs"
      using b brD rx_ok_pos[OF assms(1)] ok by (simp add: unread_def)
    ultimately show ?thesis using Read[OF n q _ emp] Ok by auto
  next
    case (Err e)
    then have "bi_inner io' = t" "r = Err e" "bi_pos io' = bi_pos io"
      using assms(2) True br q by (auto simp: poll_fill_buf_def Let_def)
    then show ?thesis using Read[OF n q _ emp] Err spec by auto
  next
    case Pending
    then have "bi_inner io' = t" "r = Pending" "bi_pos io' = bi_pos io"
      using assms(2) True br q by (auto simp: poll_fill_buf_def Let_def)
    then show ?thesis using Read[OF n q _ emp] Pending spec by auto
  next
    case (Panic p)
    with q tr_poll_read_stream(4) show ?thesis by auto
  qed
qed

section \<open>A poll for a head finds the head of the stream\<close>

definition TOO_BIG :: io_error where
  "TOO_BIG = IoError InvalidData (''No header found in '' @ show_radix 10 READ_BUF_INIT_SIZE @ '' bytes'')"

text \<open>
  What one poll may answer. A value is \<open>f\<close> of the head of the stream, or of a torso before an
  early end; a pending poll leaves the stream as it was; on a connection that neither fails nor
  ends the only error is a head that does not end within the limit.
\<close>

definition head_poll :: "(bytes \<Rightarrow> bool \<Rightarrow> 'a) \<Rightarrow> buf_io \<Rightarrow> 'a res \<Rightarrow> buf_io \<Rightarrow> bool" where
  "head_poll f io r io' \<longleftrightarrow>
     rx_ok io' \<and> same_tx io io' \<and> (\<forall>p. r \<noteq> Panic p) \<and> (io_clean io \<longrightarrow> io_clean io')
     \<and> rx_size (tr_rx (bi_inner io')) \<le> rx_size (tr_rx (bi_inner io))
     \<and> (\<forall>a. r = Ok a \<longrightarrow> (\<exists>k. k \<le> READ_BUF_INIT_SIZE \<and> k \<le> length (in_stream io)
           \<and> in_stream io' = drop k (in_stream io)
           \<and> (a = f (take k (in_stream io)) False \<and> head_len 0 (in_stream io) = Some k
              \<or> a = f (take k (in_stream io)) True \<and> 0 < k \<and> head_len 0 (take k (in_stream io)) = None
                \<and> \<not> io_clean io)))
     \<and> (r = Pending \<longrightarrow> in_stream io' = in_stream io \<and> bi_pos io' = bi_pos io
           \<and> (rx_size (tr_rx (bi_inner io')) < rx_size (tr_rx (bi_inner io))
              \<or> head_len 0 (in_stream io) = None \<and> length (in_stream io) < READ_BUF_INIT_SIZE))
     \<and> (\<forall>e. r = Err e \<longrightarrow> in_stream io' = in_stream io
           \<and> (io_clean io \<longrightarrow> e = TOO_BIG \<and> READ_BUF_INIT_SIZE \<le> length (in_stream io)
                \<and> head_len 0 (take READ_BUF_INIT_SIZE (in_stream io)) = None))"

lemma head_poll_trans:
  assumes "head_poll f io1 r io'" "same_tx io io1" "in_stream io1 = in_stream io" "bi_pos io1 = bi_pos io"
    "io_clean io \<longrightarrow> io_clean io1" "io_clean io1 \<longrightarrow> io_clean io"
    "rx_size (tr_rx (bi_inner io1)) \<le> rx_size (tr_rx (bi_inner io))"
  shows "head_poll f io r io'"
  using assms same_tx_trans[of io io1 io'] unfolding head_poll_def by fastforce

lemma head_len_take: "head_len e s = Some k \<Longrightarrow> k \<le> n \<Longrightarrow> head_len e (take n s) = Some k"
proof (induction s arbitrary: e k n)
  case (Cons c s)
  then show ?case by (cases n) (auto split: if_splits)
qed simp

text \<open>
  The state of the loop: the first \<open>bi\<close> buffered bytes have been scanned and hold no end of a
  head, and the position of the buffer leaves room for the largest head.
\<close>

definition scanned :: "bool \<Rightarrow> nat \<Rightarrow> nat \<Rightarrow> buf_io \<Rightarrow> bool" where
  "scanned force e bi io \<longleftrightarrow> rx_ok io \<and> bi \<le> length (unread io) \<and> bi < READ_BUF_INIT_SIZE
     \<and> e = foldl head_step 0 (take bi (unread io)) \<and> head_len 0 (take bi (unread io)) = None
     \<and> (if force then bi = length (unread io) else bi = 0)
     \<and> bi_pos io + READ_BUF_INIT_SIZE \<le> MAX_CAPACITY"

lemma scanned_no_panic:
  assumes "scanned force e bi io" "poll_fill_buf force io = (Panic p, io')"
  shows False
proof -
  have full: "fb_len (bi_buf io) = fb_cap (bi_buf io)" "MAX_CAPACITY \<le> fb_cap (bi_buf io)"
    using poll_fill_buf_spec[OF _ assms(2)] assms(1) by (auto simp: scanned_def)
  moreover have "length (unread io) = fb_len (bi_buf io) - bi_pos io"
    using assms(1) by (simp add: scanned_def length_unread)
  ultimately have "READ_BUF_INIT_SIZE \<le> length (unread io)" "fb_len (bi_buf io) \<noteq> 0"
    using assms(1) by (auto simp: scanned_def)
  then show False using assms by (cases force) (auto simp: scanned_def poll_fill_buf_def Let_def)
qed

lemma head_len_scanned:
  assumes "scanned force e bi io"
  shows "head_len 0 (take bi (unread io) @ ys) = map_option ((+) bi) (head_len e ys)"
proof -
  have "length (take bi (unread io)) = bi" using assms by (simp add: scanned_def)
  with assms show ?thesis by (simp only: scanned_def head_len_append) simp
qed

text \<open>The step of the loop once the buffer has been filled to \<open>buf\<close>.\<close>

lemma scanned_step:
  assumes "scanned force e bi io" "rx_ok io1" "unread io1 = take bi (unread io) @ fresh" "fresh \<noteq> []"
    "bi_pos io1 = bi_pos io"
  shows "scan_head (unread io1) False e bi =
    (case head_len 0 (unread io1) of
       Some k \<Rightarrow> if k \<le> READ_BUF_INIT_SIZE then ScanFound k else ScanTooBig
     | None \<Rightarrow> if length (unread io1) < READ_BUF_INIT_SIZE
         then ScanMore (foldl head_step 0 (unread io1)) (length (unread io1)) else ScanTooBig)"
    and "head_len 0 (unread io1) = None \<Longrightarrow> length (unread io1) < READ_BUF_INIT_SIZE \<Longrightarrow>
      scanned True (foldl head_step 0 (unread io1)) (length (unread io1)) io1"
proof -
  have bi: "bi \<le> length (unread io)" "bi < READ_BUF_INIT_SIZE" "e = foldl head_step 0 (take bi (unread io))"
    "bi_pos io + READ_BUF_INIT_SIZE \<le> MAX_CAPACITY" "head_len 0 (take bi (unread io)) = None"
    using assms(1) by (auto simp: scanned_def)
  have e: "e \<le> 4" using foldl_head_step_le[OF _ bi(5)] bi(3) by simp
  have len: "length (take bi (unread io)) = bi" using bi(1) by simp
  have d: "drop bi (unread io1) = fresh" "foldl head_step e fresh = foldl head_step 0 (unread io1)"
    using assms(3) len bi(3) by auto
  have bl: "bi \<le> length (unread io1)" using assms(3) len by simp
  note hl = head_len_scanned[OF assms(1), of fresh, folded assms(3)]
  show "scan_head (unread io1) False e bi =
    (case head_len 0 (unread io1) of
       Some k \<Rightarrow> if k \<le> READ_BUF_INIT_SIZE then ScanFound k else ScanTooBig
     | None \<Rightarrow> if length (unread io1) < READ_BUF_INIT_SIZE
         then ScanMore (foldl head_step 0 (unread io1)) (length (unread io1)) else ScanTooBig)"
    using bi(2) by (subst scan_head_eq[OF e bl]) (auto simp: d hl split: option.splits)
  show "scanned True (foldl head_step 0 (unread io1)) (length (unread io1)) io1"
    if "head_len 0 (unread io1) = None" "length (unread io1) < READ_BUF_INIT_SIZE"
    using that assms(2,5) bi(4) by (simp add: scanned_def)
qed

lemma head_poll_found:
  assumes "rx_ok io1" "same_tx io io1" "in_stream io1 = in_stream io" "io_clean io \<longrightarrow> io_clean io1"
    "rx_size (tr_rx (bi_inner io1)) \<le> rx_size (tr_rx (bi_inner io))"
    "k \<le> length (unread io1)" "k \<le> READ_BUF_INIT_SIZE"
    "\<not> eos \<and> head_len 0 (unread io1) = Some k \<or> eos \<and> 0 < k \<and> head_len 0 (take k (unread io1)) = None \<and> \<not> io_clean io"
    "ready (consume k io1) (\<lambda>_ io2. (Ok (f (take k (unread io1)) eos), io2)) = (r, io')"
  shows "head_poll f io r io'"
proof -
  obtain io2 where io2: "consume k io1 = (Ok (), io2)" "rx_ok io2" "same_tx io1 io2"
    "in_stream io2 = drop k (in_stream io1)"
    by (rule consume_spec[OF assms(1,6)]) 
  have same: "bi_inner io2 = bi_inner io1"
    using io2(1) by (auto simp: consume_def Let_def split: if_splits)
  have s: "in_stream io = unread io1 @ rx_bytes (tr_rx (bi_inner io1))"
    using assms(3) by (simp add: in_stream_def)
  then have tk: "take k (in_stream io) = take k (unread io1)" and k: "k \<le> length (in_stream io)"
    using assms(6) by simp_all
  have "head_len 0 (in_stream io) = Some k" if "head_len 0 (unread io1) = Some k"
    using that unfolding s by (simp add: head_len_append)
  with assms(8) have found: "f (take k (unread io1)) eos = f (take k (in_stream io)) False \<and> head_len 0 (in_stream io) = Some k
      \<or> f (take k (unread io1)) eos = f (take k (in_stream io)) True \<and> 0 < k
        \<and> head_len 0 (take k (in_stream io)) = None \<and> \<not> io_clean io"
    by (cases eos) (auto simp: tk)
  have "r = Ok (f (take k (unread io1)) eos)" "io' = io2" using assms(9) io2(1) by auto
  with found k assms(2-7) io2 same same_tx_trans[of io io1 io2] show ?thesis
    unfolding head_poll_def by (auto simp: io_clean_def)
qed

lemma head_poll_err:
  assumes "rx_ok io1" "same_tx io io1" "in_stream io1 = in_stream io" "io_clean io \<longrightarrow> io_clean io1"
    "rx_size (tr_rx (bi_inner io1)) \<le> rx_size (tr_rx (bi_inner io))"
    "io_clean io \<Longrightarrow> e = TOO_BIG \<and> READ_BUF_INIT_SIZE \<le> length (in_stream io)
      \<and> head_len 0 (take READ_BUF_INIT_SIZE (in_stream io)) = None"
  shows "head_poll f io (Err e) io1"
  using assms by (auto simp: head_poll_def)

lemma head_len_none_take: "head_len e (xs @ ys) = None \<Longrightarrow> head_len e xs = None"
  by (auto simp: head_len_append split: option.splits)

lemma too_big_stream:
  assumes "in_stream io1 = in_stream io"
    "(\<exists>k. head_len 0 (unread io1) = Some k \<and> READ_BUF_INIT_SIZE < k)
      \<or> head_len 0 (unread io1) = None \<and> READ_BUF_INIT_SIZE \<le> length (unread io1)"
  shows "READ_BUF_INIT_SIZE \<le> length (in_stream io)" "head_len 0 (take READ_BUF_INIT_SIZE (in_stream io)) = None"
proof -
  let ?n = READ_BUF_INIT_SIZE
  have s: "in_stream io = unread io1 @ rx_bytes (tr_rx (bi_inner io1))"
    using assms(1) by (simp add: in_stream_def)
  have len: "?n \<le> length (unread io1)" using assms(2) head_len_le by fastforce
  then show "?n \<le> length (in_stream io)" unfolding s by simp
  have "take ?n (in_stream io) = take ?n (unread io1)" using len unfolding s by simp
  moreover have "head_len 0 (take ?n (unread io1)) = None"
  proof (cases "head_len 0 (take ?n (unread io1))")
    case (Some k)
    then have "k \<le> ?n" using head_len_le by fastforce
    moreover have "head_len 0 (take ?n (unread io1) @ drop ?n (unread io1)) = Some k"
      using Some by (simp add: head_len_append del: append_take_drop_id)
    ultimately show ?thesis using assms(2) by auto
  qed
  ultimately show "head_len 0 (take ?n (in_stream io)) = None" by simp
qed

lemma crlf_loop_step:
  assumes "scanned force e bi io" "poll_fill_buf force io = (Ok (unread io1), io1)"
    "crlf_loop f force e bi io = (r, io')"
  shows "ready (Ok (unread io1), io1) (\<lambda>buf io1.
       case scan_head buf (length buf = bi) e bi of
         ScanFound n \<Rightarrow> ready (consume n io1) (\<lambda>_ io2. (Ok (f (take n buf) (length buf = bi)), io2))
       | ScanEof \<Rightarrow> (Err (IoError UnexpectedEof ''EOF and no header length''), io1)
       | ScanTooBig \<Rightarrow> (Err TOO_BIG, io1)
       | ScanMore ei bi \<Rightarrow> crlf_loop f True ei bi io1
       | ScanPanic \<Rightarrow> (Panic ''index out of bounds'', io1)) = (r, io')"
  using assms(2,3) unfolding crlf_loop.simps[of f force e bi io] Let_def TOO_BIG_def by simp

lemma crlf_loop_poll:
  "scanned force e bi io \<Longrightarrow> crlf_loop f force e bi io = (r, io') \<Longrightarrow> head_poll f io r io'"
proof (induction f force e bi io arbitrary: r io' rule: crlf_loop.induct)
  case (1 f force e bi io)
  note sc = "1.prems"(1)
  have ok: "rx_ok io" and bi: "head_len 0 (take bi (unread io)) = None" "bi \<le> length (unread io)"
    "e = foldl head_step 0 (take bi (unread io))" "bi < READ_BUF_INIT_SIZE"
    using sc by (auto simp: scanned_def)
  then have e: "e < 4" using foldl_head_step_le[of 0] by simp
  obtain q io1 where q: "poll_fill_buf force io = (q, io1)" by fastforce
  have np: "\<forall>p. q \<noteq> Panic p" using scanned_no_panic[OF sc] q by blast
  note spec = poll_fill_buf_spec[OF ok q]
  have filled: "head_poll f io r io'"
    if Ok: "q = Ok (unread io1)" and un: "unread io1 = take bi (unread io) @ fresh" and pos: "bi_pos io1 = bi_pos io"
      and clean: "io_clean io \<longrightarrow> io_clean io1" "fresh \<noteq> [] \<longrightarrow> io_clean io1 \<longrightarrow> io_clean io" "fresh = [] \<longrightarrow> \<not> io_clean io"
      and size: "rx_size (tr_rx (bi_inner io1)) \<le> rx_size (tr_rx (bi_inner io))" for fresh
  proof -
    have ok1: "rx_ok io1" "same_tx io io1" "in_stream io1 = in_stream io" using spec Ok by auto
    note loop = crlf_loop_step[OF sc q[unfolded Ok] "1.prems"(2)]
    show ?thesis
    proof (cases "fresh = []")
      case True
      then have len: "length (unread io1) = bi" "take bi (unread io1) = take bi (unread io)" using un bi(2) by auto
      show ?thesis
      proof (cases "bi = 0")
        case True
        then have "scan_head (unread io1) True e bi = ScanEof" using e by (simp add: scan_head.simps)
        with loop len have "r = Err (IoError UnexpectedEof ''EOF and no header length'')" "io' = io1" by auto
        with head_poll_err[OF ok1 clean(1) size] clean(3) \<open>fresh = []\<close> show ?thesis by simp
      next
        case False
        then have "scan_head (unread io1) True e bi = ScanFound bi" by (simp add: scan_head.simps)
        with loop len have "ready (consume bi io1) (\<lambda>_ io2. (Ok (f (take bi (unread io1)) True), io2)) = (r, io')"
          by simp
        with head_poll_found[OF ok1 clean(1) size, of bi True] len bi False clean(3) \<open>fresh = []\<close>
        show ?thesis by simp
      qed
    next
      case False
      then have len: "(length (unread io1) = bi) = False" using un bi(2) by auto
      note step = scanned_step[OF sc ok1(1) un False pos]
      show ?thesis
      proof (cases "scan_head (unread io1) False e bi")
        case (ScanFound k)
        with step(1) have k: "head_len 0 (unread io1) = Some k" "k \<le> READ_BUF_INIT_SIZE"
          by (auto split: option.splits if_splits)
        from loop len ScanFound
        have "ready (consume k io1) (\<lambda>_ io2. (Ok (f (take k (unread io1)) False), io2)) = (r, io')" by simp
        with head_poll_found[OF ok1 clean(1) size, of k False] k head_len_le[OF k(1)] show ?thesis by simp
      next
        case ScanTooBig
        with loop len have "r = Err TOO_BIG" "io' = io1" by auto
        moreover have "READ_BUF_INIT_SIZE \<le> length (in_stream io)
            \<and> head_len 0 (take READ_BUF_INIT_SIZE (in_stream io)) = None"
          using too_big_stream[OF ok1(3)] step(1) ScanTooBig
          by (auto split: option.splits if_splits simp: not_le not_less)
        ultimately show ?thesis using head_poll_err[OF ok1 clean(1) size, of TOO_BIG f] by simp
      next
        case (ScanMore e1 b1)
        with step(1) have m: "head_len 0 (unread io1) = None" "length (unread io1) < READ_BUF_INIT_SIZE"
          "e1 = foldl head_step 0 (unread io1)" "b1 = length (unread io1)"
          by (auto split: option.splits if_splits)
        with loop len ScanMore have rest: "crlf_loop f True e1 b1 io1 = (r, io')" by simp
        have "head_poll f io1 r io'"
          using "1.IH"[OF q[unfolded Ok] refl _ step(2)[OF m(1,2), folded m(3,4)] rest] len ScanMore by simp
        then show ?thesis by (rule head_poll_trans[OF _ ok1(2,3) pos clean(1) clean(2)[THEN mp, OF False] size])
      qed (use step(1) in \<open>auto split: option.splits if_splits\<close>)
    qed
  qed
  from ok q np show ?case
  proof (cases rule: poll_fill_buf_cases)
    case Kept
    have "bi = 0" using sc Kept(1) by (simp add: scanned_def)
    with Kept q show ?thesis by (intro filled[of "unread io"]) simp_all
  next
    case (Read n qt t)
    note fr = tr_poll_read_size(1)[OF Read(2)] tr_poll_read_clean[OF Read(2,1)]
    have tk: "take bi (unread io) = unread io" using sc Read(4) by (auto simp: scanned_def split: if_splits)
    have rest: "io' = io1 \<and> (q = Pending \<and> r = Pending \<or> (\<exists>x. q = Err x \<and> r = Err x))" if "\<forall>bs. q \<noteq> Ok bs"
      using that np "1.prems"(2) q by (cases q) (auto simp: crlf_loop.simps[of f force e bi io])
    show ?thesis
    proof (cases qt)
      case (Ok bs)
      then have un: "unread io1 = take bi (unread io) @ bs" "q = Ok (unread io1)" using Read tk by auto
      have unclean: "bs \<noteq> [] \<longrightarrow> io_clean io1 \<longrightarrow> io_clean io"
        using tr_poll_read_unclean[of n "bi_inner io" bs t] Read(2,3) Ok by (simp add: io_clean_def)
      show ?thesis
        using filled[OF un(2,1) Read(7) _ unclean] fr Read(3) Ok by (auto simp: io_clean_def)
    next
      case (Err x)
      with Read rest have "r = Err x" "io' = io1" by auto
      with spec Err Read fr show ?thesis
        using head_poll_err[of io1 io x f] by (auto simp: io_clean_def)
    next
      case Pending
      with Read rest have r: "r = Pending" "io' = io1" "q = Pending" by auto
      have "rx_size (tr_rx t) < rx_size (tr_rx (bi_inner io)) \<or> tr_rx (bi_inner io) = []"
        using tr_poll_read_pending[of n "bi_inner io" t] Read(2) Pending
        by (cases "tr_rx (bi_inner io)") (auto simp: tr_poll_read.simps split: rx_event.splits)
      with r spec Read fr Pending bi tk show ?thesis
        by (auto simp: head_poll_def io_clean_def in_stream_def)
    next
      case (Panic p)
      with Read(2) tr_poll_read_stream(4) show ?thesis by auto
    qed
  qed
qed

section \<open>A poll for a head is safe whatever the buffer holds\<close>

text \<open>
  The only way a poll can panic is a read buffer that is full at its largest size. The other
  results keep the connection well-formed, and a pending poll waits for the transport.
\<close>

definition full_buffer_panic :: "string \<Rightarrow> bool" where
  "full_buffer_panic p \<longleftrightarrow> p = ''attempt to subtract with overflow''
     \<or> p = ''assertion failed: self.0.capacity() > len_at_start''"

lemma poll_fill_buf_panic:
  assumes "rx_ok io" "poll_fill_buf force io = (Panic p, io')"
  shows "full_buffer_panic p"
proof -
  have cap: "fb_cap (bi_buf io) \<noteq> 0" and ok: "fb_ok (bi_buf io)" using assms(1) by (auto simp: rx_ok_def)
  show ?thesis
  proof (cases "fb_borrow (bi_buf io)")
    case (Panic p1)
    with assms cap show ?thesis
      by (auto simp: poll_fill_buf_def Let_def fb_borrow_def full_buffer_panic_def split: if_splits)
  next
    case (Ok br)
    note br = fb_borrow_OkD[OF Ok ok]
    obtain q t where q: "tr_poll_read (fb_len (fr_buf br) - fb_len (bi_buf io)) (bi_inner io) = (q, t)" by fastforce
    have ext: "\<exists>b. fr_extend (length bs) (fr_fill (fb_len (bi_buf io)) bs br) = Ok b" if "q = Ok bs" for bs
    proof -
      have "fr_cur_len br + length bs \<le> fb_len (fr_buf br)"
        using tr_poll_read_stream(1)[OF q[unfolded that]] br by auto
      then show ?thesis using fr_fill_extend[OF br(1)] br(3) by metis
    qed
    from assms(2) Ok q tr_poll_read_stream(4) ext show ?thesis
      by (cases q) (auto simp: poll_fill_buf_def Let_def split: if_splits)
  qed auto
qed

lemma scan_head_eos: "e \<le> 4 \<Longrightarrow> scan_head buf True e bi = ScanFound bi \<or> scan_head buf True e bi = ScanEof"
  by (subst (1 2) scan_head.simps) auto

lemma crlf_loop_safe:
  assumes "rx_ok io" "e \<le> 4" "bi \<le> length (unread io)" "bi \<le> READ_BUF_INIT_SIZE"
    "crlf_loop f force e bi io = (r, io')"
  shows "(\<forall>p. r = Panic p \<longrightarrow> full_buffer_panic p)
    \<and> ((\<forall>p. r \<noteq> Panic p) \<longrightarrow> rx_ok io' \<and> same_tx io io') \<and> (r = Pending \<longrightarrow> bi_pending_rx io')"
  using assms
proof (induction f force e bi io arbitrary: r io' rule: crlf_loop.induct)
  case (1 f force e bi io)
  obtain q io1 where q: "poll_fill_buf force io = (q, io1)" by fastforce
  note spec = poll_fill_buf_spec[OF "1.prems"(1) q]
  show ?case
  proof (cases q)
    case (Panic p)
    with poll_fill_buf_panic[OF "1.prems"(1)] "1.prems"(5) q show ?thesis by (auto simp: crlf_loop.simps[of f force e bi io])
  next
    case (Ok buf)
    with spec have buf: "rx_ok io1" "same_tx io io1" "buf = unread io1" "prefix (unread io) buf" by auto
    have bi: "bi \<le> length buf" using "1.prems"(3) prefix_length_le[OF buf(4)] by simp
    have loop: "(case scan_head buf (length buf = bi) e bi of
         ScanFound n \<Rightarrow> ready (consume n io1) (\<lambda>_ io2. (Ok (f (take n buf) (length buf = bi)), io2))
       | ScanEof \<Rightarrow> (Err (IoError UnexpectedEof ''EOF and no header length''), io1)
       | ScanTooBig \<Rightarrow> (Err TOO_BIG, io1)
       | ScanMore ei bi \<Rightarrow> crlf_loop f True ei bi io1
       | ScanPanic \<Rightarrow> (Panic ''index out of bounds'', io1)) = (r, io')"
      using "1.prems"(5) q Ok unfolding crlf_loop.simps[of f force e bi io] Let_def TOO_BIG_def by simp
    have found: ?thesis if s: "scan_head buf (length buf = bi) e bi = ScanFound n" and n: "n \<le> length buf" for n
    proof -
      have "n \<le> length (unread io1)" using n buf(3) by simp
      from consume_spec[OF buf(1) this] obtain io2 where "consume n io1 = (Ok (), io2)" "rx_ok io2" "same_tx io1 io2"
        by metis
      with loop s same_tx_trans[OF buf(2)] show ?thesis by auto
    qed
    show ?thesis
    proof (cases "length buf = bi")
      case True
      with scan_head_eos[OF "1.prems"(2), of buf bi] found[of bi] loop buf show ?thesis by auto
    next
      case go: False
      show ?thesis
      proof (cases "scan_head buf False e bi")
        case (ScanFound n)
        have "n \<le> length buf"
          using ScanFound scan_head_eq[OF "1.prems"(2) bi "1.prems"(4)] head_len_le[of e "drop bi buf"] bi
          by (auto split: option.splits if_splits)
        with found[of n] ScanFound go show ?thesis by simp
      next
        case (ScanMore e1 b1)
        have m: "e1 = foldl head_step e (drop bi buf)" "b1 = length buf" "length buf < READ_BUF_INIT_SIZE"
          "head_len e (drop bi buf) = None"
          using ScanMore scan_head_eq[OF "1.prems"(2) bi "1.prems"(4)] by (auto split: option.splits if_splits)
        have rest: "crlf_loop f True e1 b1 io1 = (r, io')" using loop go ScanMore by simp
        have "e1 \<le> 4" using foldl_head_step_le[OF "1.prems"(2) m(4)] m(1) by simp
        with "1.IH"[OF q[unfolded Ok] refl _ buf(1) _ _ _ rest] m buf ScanMore go
        have "(\<forall>p. r = Panic p \<longrightarrow> full_buffer_panic p)
          \<and> ((\<forall>p. r \<noteq> Panic p) \<longrightarrow> rx_ok io' \<and> same_tx io1 io') \<and> (r = Pending \<longrightarrow> bi_pending_rx io')" by simp
        with same_tx_trans[OF buf(2)] show ?thesis by blast
      qed (use scan_head_eq[OF "1.prems"(2) bi "1.prems"(4)] loop go buf in \<open>auto split: option.splits if_splits\<close>)
    qed
  next
    case Pending
    with "1.prems"(5) q spec show ?thesis by (auto simp: crlf_loop.simps[of f force e bi io])
  next
    case (Err x)
    with "1.prems"(5) q spec show ?thesis by (auto simp: crlf_loop.simps[of f force e bi io])
  qed
qed

lemma poll_for_crlfcrlf_safe:
  assumes "rx_ok io" "poll_for_crlfcrlf f io = (r, io')"
  shows "r = Panic p \<Longrightarrow> full_buffer_panic p" "(\<And>p. r \<noteq> Panic p) \<Longrightarrow> rx_ok io' \<and> same_tx io io'"
    "r = Pending \<Longrightarrow> bi_pending_rx io'"
  using crlf_loop_safe[OF assms(1) _ _ _ assms(2)[unfolded poll_for_crlfcrlf_def]] by auto

text \<open>What is parsed is a whole head, unless the stream has ended in front of its end.\<close>

lemma crlf_loop_parsed:
  assumes "rx_ok io" "bi \<le> length (unread io)" "bi \<le> READ_BUF_INIT_SIZE" "e = foldl head_step 0 (take bi (unread io))"
    "head_len 0 (take bi (unread io)) = None" "crlf_loop f force e bi io = (Ok a, io')"
  shows "\<exists>bs eos. a = f bs eos \<and> (eos \<or> head_len 0 bs = Some (length bs))"
  using assms
proof (induction f force e bi io arbitrary: rule: crlf_loop.induct)
  case (1 f force e bi io)
  obtain q io1 where q: "poll_fill_buf force io = (q, io1)" by fastforce
  then obtain buf where Ok: "q = Ok buf" using "1.prems"(6) by (cases q) (auto simp: crlf_loop.simps[of f force e bi io])
  have buf: "rx_ok io1" "buf = unread io1" "prefix (unread io) buf" using poll_fill_buf_spec[OF "1.prems"(1) q] Ok by auto
  have bi: "bi \<le> length buf" "take bi buf = take bi (unread io)" using "1.prems"(2) buf(3) by (auto simp: prefix_def)
  have e: "e \<le> 4" using foldl_head_step_le[of 0, OF _ "1.prems"(5)] "1.prems"(4) by simp
  have loop: "(case scan_head buf (length buf = bi) e bi of
       ScanFound n \<Rightarrow> ready (consume n io1) (\<lambda>_ io2. (Ok (f (take n buf) (length buf = bi)), io2))
     | ScanEof \<Rightarrow> (Err (IoError UnexpectedEof ''EOF and no header length''), io1)
     | ScanTooBig \<Rightarrow> (Err TOO_BIG, io1)
     | ScanMore ei bi \<Rightarrow> crlf_loop f True ei bi io1
     | ScanPanic \<Rightarrow> (Panic ''index out of bounds'', io1)) = (Ok a, io')"
    using "1.prems"(6) q Ok unfolding crlf_loop.simps[of f force e bi io] Let_def TOO_BIG_def by simp
  have parsed: "a = f (take n buf) (length buf = bi)" if "scan_head buf (length buf = bi) e bi = ScanFound n" for n
    using loop that by (cases "consume n io1"; cases "fst (consume n io1)") auto
  show ?case
  proof (cases "length buf = bi")
    case True
    then show ?thesis using scan_head_eos[OF e, of buf bi] loop parsed by auto
  next
    case go: False
    note eq = scan_head_eq[OF e bi(1) "1.prems"(3)]
    show ?thesis
    proof (cases "scan_head buf False e bi")
      case (ScanFound n)
      then obtain k where k: "head_len e (drop bi buf) = Some k" "n = bi + k" using eq by (auto split: option.splits if_splits)
      then have "take n buf = take bi (unread io) @ take k (drop bi buf)" using bi(2) by (simp add: take_add)
      moreover have "head_len e (take k (drop bi buf)) = Some k" using head_len_take[OF k(1), of k] by simp
      moreover have "length (take bi (unread io)) = bi" "length (take k (drop bi buf)) = k" using "1.prems"(2) head_len_le[OF k(1)] by simp_all
      ultimately have "head_len 0 (take n buf) = Some (length (take n buf))" using "1.prems"(4,5) by (simp add: head_len_append)
      with parsed[of n] ScanFound go show ?thesis by (intro exI[of _ "take n buf"] exI[of _ False]) simp
    next
      case (ScanMore e1 b1)
      have m: "e1 = foldl head_step e (drop bi buf)" "b1 = length buf" "length buf < READ_BUF_INIT_SIZE" "head_len e (drop bi buf) = None"
        using ScanMore eq by (auto split: option.splits if_splits)
      have rest: "crlf_loop f True e1 b1 io1 = (Ok a, io')" using loop go ScanMore by simp
      have split: "take bi (unread io) @ drop bi buf = buf" using bi(2) by (metis append_take_drop_id)
      have "foldl head_step 0 (take bi (unread io) @ drop bi buf) = e1" "head_len 0 (take bi (unread io) @ drop bi buf) = None"
        using m(1,4) by (simp_all only: foldl_append head_len_append "1.prems"(5) "1.prems"(4)[symmetric] option.case option.map)
      then have "e1 = foldl head_step 0 (take b1 (unread io1))" "head_len 0 (take b1 (unread io1)) = None" "b1 \<le> length (unread io1)"
        using m(2) buf(2) unfolding split by simp_all
      moreover have "scan_head buf (length buf = bi) e bi = ScanMore e1 b1" "b1 \<le> READ_BUF_INIT_SIZE" using ScanMore go m(2,3) by simp_all
      ultimately show ?thesis using "1.IH"[OF q[unfolded Ok] refl _ buf(1) _ _ _ _ rest] by blast
    qed (use loop go in auto)
  qed
qed

lemma poll_for_crlfcrlf_parsed:
  assumes "rx_ok io" "poll_for_crlfcrlf f io = (Ok a, io')"
  obtains bs eos where "a = f bs eos" "eos \<or> head_len 0 bs = Some (length bs)"
  using crlf_loop_parsed[OF assms(1) _ _ _ _ assms(2)[unfolded poll_for_crlfcrlf_def]] by auto

section \<open>A written head ends where it was written to end\<close>

text \<open>A line of a head: not empty, and without the two bytes that end lines.\<close>

definition plain :: "bytes \<Rightarrow> bool" where
  "plain l \<longleftrightarrow> CR \<notin> set l \<and> LF \<notin> set l"

lemma plain_append [simp]: "plain (a @ b) \<longleftrightarrow> plain a \<and> plain b"
  by (auto simp: plain_def)

lemma plain_Cons [simp]: "plain (c # b) \<longleftrightarrow> c \<noteq> CR \<and> c \<noteq> LF \<and> plain b"
  by (auto simp: plain_def)

lemma plain_Nil [simp]: "plain []"
  by (simp add: plain_def)

lemma head_step_plain:
  assumes "c \<noteq> CR" "c \<noteq> LF" "e < 4"
  shows "head_step e c = 0"
proof -
  from assms(3) have "e = 0 \<or> e = 1 \<or> e = 2 \<or> e = 3" by linarith
  with assms(1,2) show ?thesis by (auto simp: head_step_def numeral_3_eq_3)
qed

lemma head_len_plain:
  "plain l \<Longrightarrow> l \<noteq> [] \<Longrightarrow> e < 4 \<Longrightarrow> head_len e (l @ ys) = map_option ((+) (length l)) (head_len 0 ys)"
proof (induction l arbitrary: e)
  case (Cons c l)
  then have e: "head_len e ((c # l) @ ys) = map_option Suc (head_len 0 (l @ ys))"
    by (simp add: head_step_plain)
  show ?case
  proof (cases "l = []")
    case True
    with e show ?thesis by (simp add: fun_eq_iff cong: option.map_cong)
  next
    case False
    with Cons e show ?thesis by (simp add: option.map_comp comp_def cong: option.map_cong)
  qed
qed simp

lemma head_len_line:
  assumes "plain l" "l \<noteq> []" "e < 4"
  shows "head_len e (l @ CRLF @ ys) = map_option ((+) (length l + 2)) (head_len 2 ys)"
proof -
  have "head_step 0 CR = Suc 0" "head_step (Suc 0) LF = 2" by (simp_all add: head_step_def)
  with head_len_plain[OF assms, of "CRLF @ ys"] show ?thesis
    by (simp add: option.map_comp comp_def add.assoc cong: option.map_cong)
qed

definition plain_headers :: "(string \<times> header_value) list \<Rightarrow> bool" where
  "plain_headers hs \<longleftrightarrow> (\<forall>(n, v) \<in> set hs. plain n \<and> plain (hv_as_bytes v))"

lemma head_len_headers:
  "plain_headers hs \<Longrightarrow>
    head_len 2 (enc_headers hs @ CRLF @ ys) = Some (length (enc_headers hs) + 2)"
proof (induction hs)
  case Nil
  then show ?case by (cases ys) (simp_all add: enc_headers_def head_step_def)
next
  case (Cons h hs)
  obtain n v where h: "h = (n, v)" by fastforce
  let ?l = "n @ '': '' @ hv_as_bytes v"
  have "plain ?l" "?l \<noteq> []" using Cons.prems by (auto simp: plain_headers_def h)
  with head_len_line[of ?l 2 "enc_headers hs @ CRLF @ ys"] Cons
  show ?case by (simp add: enc_headers_def enc_header_def h plain_headers_def)
qed

definition plain_req :: "request \<Rightarrow> bool" where
  "plain_req req \<longleftrightarrow> plain (req_method req)
     \<and> (\<forall>pq. uri_path_and_query (req_uri req) = Some pq \<longrightarrow> plain pq)
     \<and> (\<forall>h. uri_host (req_uri req) = Some h \<longrightarrow> plain h) \<and> plain_headers (hm_iter (req_headers req))"

definition plain_res :: "response \<Rightarrow> bool" where
  "plain_res res \<longleftrightarrow> (\<forall>r. sc_canonical_reason (res_status res) = Some r \<longrightarrow> plain r)
     \<and> plain_headers (hm_iter (res_headers res))"

lemma version_text_plain: "version_text v = Ok ver \<Longrightarrow> plain ver"
  by (cases v) (auto simp: version_text_def)

lemma show_decimal_plain: "plain (show_radix 10 n)"
proof -
  have "\<forall>d \<in> set [0..<10]. digit_char d \<noteq> CR \<and> digit_char d \<noteq> LF" by code_simp
  then show ?thesis using show_radix_set[of 10 n] by (fastforce simp: plain_def)
qed

lemma head_len_req:
  assumes "plain_req req" "version_text (req_version req) = Ok ver"
  shows "head_len 0 (enc_req ver req @ rest) = Some (length (enc_req ver req))"
proof -
  let ?hs = "enc_headers (hm_iter (req_headers req)) @ CRLF @ rest"
  let ?line = "req_method req @ '' '' @ (case uri_path_and_query (req_uri req) of Some pq \<Rightarrow> pq | None \<Rightarrow> ''/'')
      @ '' HTTP/'' @ ver"
  have hs: "head_len 2 ?hs = Some (length (enc_headers (hm_iter (req_headers req))) + 2)"
    using assms(1) by (intro head_len_headers) (simp add: plain_req_def)
  have "head_len 2 (enc_host req @ ?hs) = map_option ((+) (length (enc_host req))) (head_len 2 ?hs)"
  proof (cases "enc_host req = []")
    case False
    then obtain h where h: "uri_host (req_uri req) = Some h"
      by (auto simp: enc_host_def split: if_splits option.splits)
    let ?h = "''host: '' @ h @ (if host_port (req_uri req) = 0 then [] else '':'' @ show_radix 10 (host_port (req_uri req)))"
    have "enc_host req = ?h @ CRLF" using False h by (auto simp: enc_host_def enc_port_eq split: if_splits)
    moreover have "plain ?h" using assms(1) h by (simp add: plain_req_def show_decimal_plain)
    ultimately show ?thesis using head_len_line[of ?h 2 ?hs] by simp
  qed (use hs in simp)
  moreover have "plain ?line" using assms version_text_plain[OF assms(2)]
    by (auto simp: plain_req_def split: option.splits)
  ultimately show ?thesis using head_len_line[of ?line 0 "enc_host req @ ?hs"] hs
    by (simp add: enc_req_def enc_req_line_def)
qed

lemma head_len_res:
  assumes "plain_res res" "version_text (res_version res) = Ok ver"
  shows "head_len 0 (enc_res ver res @ rest) = Some (length (enc_res ver res))"
proof -
  let ?hs = "enc_headers (hm_iter (res_headers res)) @ CRLF @ rest"
  let ?line = "''HTTP/'' @ ver @ '' '' @ show_radix 10 (sc_as_u16 (res_status res)) @ '' ''
     @ (case sc_canonical_reason (res_status res) of Some r \<Rightarrow> r | None \<Rightarrow> ''Unknown'')"
  have hs: "head_len 2 ?hs = Some (length (enc_headers (hm_iter (res_headers res))) + 2)"
    using assms(1) by (intro head_len_headers) (simp add: plain_res_def)
  moreover have "plain ?line" using assms version_text_plain[OF assms(2)] show_decimal_plain
    by (auto simp: plain_res_def split: option.splits)
  ultimately show ?thesis using head_len_line[of ?line 0 ?hs] by (simp add: enc_res_def)
qed

section \<open>Properties\<close>

text \<open>A task that polls until the answer is not \<open>Pending\<close>, at most \<open>m\<close> times.\<close>

fun repoll :: "nat \<Rightarrow> ('s \<Rightarrow> 'a res \<times> 's) \<Rightarrow> 's \<Rightarrow> 'a res \<times> 's" where
  "repoll 0 p s = (Pending, s)"
| "repoll (Suc m) p s = (case p s of
      (Pending, s') \<Rightarrow> repoll m p s'
    | (r, s') \<Rightarrow> (r, s'))"

lemma poll_for_crlfcrlf_spec:
  assumes "rx_ok io" "bi_pos io + READ_BUF_INIT_SIZE \<le> MAX_CAPACITY" "poll_for_crlfcrlf f io = (r, io')"
  shows "head_poll f io r io'"
  using assms by (intro crlf_loop_poll[of False 0 0]) (auto simp: scanned_def poll_for_crlfcrlf_def)

lemma repoll_head:
  assumes "rx_ok io" "io_clean io" "bi_pos io + READ_BUF_INIT_SIZE \<le> MAX_CAPACITY"
    "\<not> (head_len 0 (in_stream io) = None \<and> length (in_stream io) < READ_BUF_INIT_SIZE)"
    "rx_size (tr_rx (bi_inner io)) < m"
  shows "\<exists>r io'. repoll m (poll_for_crlfcrlf f) io = (r, io') \<and> r \<noteq> Pending \<and> head_poll f io r io'"
  using assms
proof (induction m arbitrary: io)
  case (Suc m)
  obtain r io1 where q: "poll_for_crlfcrlf f io = (r, io1)" by fastforce
  note hp = poll_for_crlfcrlf_spec[OF Suc.prems(1,3) q]
  show ?case
  proof (cases "r = Pending")
    case False
    with hp q show ?thesis by (cases r) auto
  next
    case True
    with hp Suc.prems have io1: "rx_ok io1" "io_clean io1" "in_stream io1 = in_stream io" "bi_pos io1 = bi_pos io"
      "same_tx io io1" "rx_size (tr_rx (bi_inner io1)) < rx_size (tr_rx (bi_inner io))"
      by (auto simp: head_poll_def)
    then have "\<exists>r io'. repoll m (poll_for_crlfcrlf f) io1 = (r, io') \<and> r \<noteq> Pending \<and> head_poll f io1 r io'"
      using Suc.prems by (intro Suc.IH) simp_all
    then obtain r' io' where r': "repoll m (poll_for_crlfcrlf f) io1 = (r', io')" "r' \<noteq> Pending"
      "head_poll f io1 r' io'" by blast
    have "head_poll f io r' io'"
      by (rule head_poll_trans[OF r'(3) io1(5,3,4)]) (use io1 Suc.prems in simp_all)
    with r' q True show ?thesis by simp
  qed
qed simp

lemma repoll_found:
  assumes "rx_ok io" "io_clean io" "bi_pos io + READ_BUF_INIT_SIZE \<le> MAX_CAPACITY"
    and "head_len 0 (in_stream io) = Some k" "k \<le> READ_BUF_INIT_SIZE" "rx_size (tr_rx (bi_inner io)) < m"
  shows "\<exists>io'. repoll m (poll_for_crlfcrlf f) io = (Ok (f (take k (in_stream io)) False), io')
     \<and> in_stream io' = drop k (in_stream io) \<and> rx_ok io' \<and> io_clean io' \<and> same_tx io io'
     \<and> rx_size (tr_rx (bi_inner io')) \<le> rx_size (tr_rx (bi_inner io))"
proof -
  obtain r io' where r: "repoll m (poll_for_crlfcrlf f) io = (r, io')" "r \<noteq> Pending" "head_poll f io r io'"
    using repoll_head[OF assms(1-3) _ assms(6), of f] assms(4) by auto
  moreover have "r \<noteq> Err e" for e
    using r(3) assms(2) head_len_take[OF assms(4,5)] by (auto simp: head_poll_def)
  ultimately show ?thesis using assms(2,4) by (cases r) (auto simp: head_poll_def)
qed

text \<open>
  C18. The head that is found is the head of the stream. Let a connection that neither fails nor
  ends hold a head of \<open>k\<close> bytes, at most 16384, followed by anything. However the transport cuts
  and delays the bytes, polling for the head ends, applies the parser to exactly those
  \<open>k\<close> bytes, and leaves the connection at the first byte after them with nothing written.
\<close>

theorem head_found:
  assumes "rx_ok io" "io_clean io" "bi_pos io + READ_BUF_INIT_SIZE \<le> MAX_CAPACITY"
    and "head_len 0 (in_stream io) = Some k" "k \<le> READ_BUF_INIT_SIZE" "rx_size (tr_rx (bi_inner io)) < m"
  shows "\<exists>io'. repoll m (poll_for_crlfcrlf f) io = (Ok (f (take k (in_stream io)) False), io')
     \<and> in_stream io' = drop k (in_stream io) \<and> rx_ok io' \<and> io_clean io' \<and> same_tx io io'"
  using repoll_found[OF assms, of f] by blast

definition wit_head_io :: buf_io where
  "wit_head_io = bi_with_capacity 8
     \<lparr>tr_rx = [RxData ''GET / HT'', RxPending, RxData (''TP/1.1'' @ [CR]), RxData (LF # CRLF @ ''body'')],
      tr_tx = [], tr_flush = [], tr_close = [], tr_sent = [], tr_flushed = 0, tr_closed = False\<rparr>"

theorem head_found_witness:
  "\<exists>io'. repoll 60 (poll_for_crlfcrlf Pair) wit_head_io = (Ok (''GET / HTTP/1.1'' @ CRLF @ CRLF, False), io')
     \<and> in_stream io' = ''body'' \<and> rx_ok io' \<and> io_clean io' \<and> same_tx wit_head_io io'"
proof -
  have a: "rx_ok wit_head_io" "io_clean wit_head_io"
    "bi_pos wit_head_io + READ_BUF_INIT_SIZE \<le> MAX_CAPACITY" by code_simp+
  have b: "head_len 0 (in_stream wit_head_io) = Some 18" by code_simp
  have c: "(18::nat) \<le> READ_BUF_INIT_SIZE" "rx_size (tr_rx (bi_inner wit_head_io)) < 60" by code_simp+
  have "take 18 (in_stream wit_head_io) = ''GET / HTTP/1.1'' @ CRLF @ CRLF"
    "drop 18 (in_stream wit_head_io) = ''body''" by code_simp+
  with head_found[OF a b c, of Pair] show ?thesis by (simp only:)
qed

text \<open>
  C36. A head that does not end is refused. When the first 16384 bytes of a connection that
  neither fails nor ends hold no end of a head, polling ends with the error that says so and
  nothing is taken from the connection; when fewer bytes are there the poll stays pending.
\<close>

theorem head_too_big:
  assumes "rx_ok io" "io_clean io" "bi_pos io + READ_BUF_INIT_SIZE \<le> MAX_CAPACITY"
    and "head_len 0 (take READ_BUF_INIT_SIZE (in_stream io)) = None" "rx_size (tr_rx (bi_inner io)) < m"
  shows "(READ_BUF_INIT_SIZE \<le> length (in_stream io) \<longrightarrow>
      (\<exists>io'. repoll m (poll_for_crlfcrlf f) io = (Err TOO_BIG, io') \<and> in_stream io' = in_stream io))
    \<and> (length (in_stream io) < READ_BUF_INIT_SIZE \<longrightarrow>
      fst (poll_for_crlfcrlf f io) = Pending)"
proof (intro conjI impI)
  have no: "k > READ_BUF_INIT_SIZE" if "head_len 0 (in_stream io) = Some k" for k
    using head_len_take[OF that] assms(4) by (metis not_less option.distinct(1))
  show "\<exists>io'. repoll m (poll_for_crlfcrlf f) io = (Err TOO_BIG, io') \<and> in_stream io' = in_stream io"
    if len: "READ_BUF_INIT_SIZE \<le> length (in_stream io)"
  proof -
    obtain r io' where r: "repoll m (poll_for_crlfcrlf f) io = (r, io')" "r \<noteq> Pending" "head_poll f io r io'"
      using repoll_head[OF assms(1-3) _ assms(5), of f] len by auto
    moreover have "r \<noteq> Ok a" for a using r(3) no assms(2) by (fastforce simp: head_poll_def)
    ultimately show ?thesis using assms(2) by (cases r) (auto simp: head_poll_def)
  qed
  show "fst (poll_for_crlfcrlf f io) = Pending" if len: "length (in_stream io) < READ_BUF_INIT_SIZE"
  proof -
    obtain r io' where q: "poll_for_crlfcrlf f io = (r, io')" by fastforce
    note hp = poll_for_crlfcrlf_spec[OF assms(1,3) q]
    have "r \<noteq> Ok a" "r \<noteq> Err e" "r \<noteq> Panic p" for a e p
      using hp no assms(2) len by (fastforce simp: head_poll_def)+
    with q show ?thesis by (cases r) auto
  qed
qed

definition wit_slow_io :: buf_io where
  "wit_slow_io = bi_with_capacity 8
     \<lparr>tr_rx = [RxData ''GET /'', RxPending, RxData CRLF],
      tr_tx = [], tr_flush = [], tr_close = [], tr_sent = [], tr_flushed = 0, tr_closed = False\<rparr>"

theorem head_too_big_witness:
  "fst (poll_for_crlfcrlf Pair wit_slow_io) = Pending"
proof -
  have a: "rx_ok wit_slow_io" "io_clean wit_slow_io"
    "bi_pos wit_slow_io + READ_BUF_INIT_SIZE \<le> MAX_CAPACITY" by code_simp+
  have "in_stream wit_slow_io = ''GET /'' @ CRLF" by code_simp
  then have b: "length (in_stream wit_slow_io) < READ_BUF_INIT_SIZE"
    "head_len 0 (take READ_BUF_INIT_SIZE (in_stream wit_slow_io)) = None"
    by (simp_all add: head_step_def)
  have "rx_size (tr_rx (bi_inner wit_slow_io)) < 40" by code_simp
  from head_too_big[OF a b(2) this, of Pair] b(1) show ?thesis by blast
qed

lemma written_req_head:
  assumes "plain_req req" "write_http1x_req req cap = Ok bs"
  shows "length bs \<le> cap" "head_len 0 (bs @ rest) = Some (length bs)"
proof -
  obtain ver where ver: "version_text (req_version req) = Ok ver"
    using assms(2) by (cases "req_version req") (auto simp: write_http1x_req_def version_text_def)
  then have "bs = enc_req ver req" "length bs \<le> cap"
    using assms(2) by (auto simp: write_req_eq split: if_splits)
  with head_len_req[OF assms(1) ver] show "length bs \<le> cap" "head_len 0 (bs @ rest) = Some (length bs)" by simp_all
qed

lemma written_res_head:
  assumes "plain_res res" "write_http1x_res res cap = Ok bs"
  shows "length bs \<le> cap" "head_len 0 (bs @ rest) = Some (length bs)"
proof -
  obtain ver where ver: "version_text (res_version res) = Ok ver"
    using assms(2) by (cases "res_version res") (auto simp: write_http1x_res_def version_text_def)
  then have "bs = enc_res ver res" "length bs \<le> cap"
    using assms(2) by (auto simp: write_res_eq split: if_splits)
  with head_len_res[OF assms(1) ver] show "length bs \<le> cap" "head_len 0 (bs @ rest) = Some (length bs)" by simp_all
qed

text \<open>
  A request written here is found as it was written. Let \<open>bs\<close> be what \<^verbatim>\<open>write_http1x_req\<close>
  writes into the buffer of the client for a request whose method, target, host and headers
  contain no line end, and let the connection of a server hold \<open>bs\<close> and then anything. Polling for
  the request hands exactly \<open>bs\<close> to the parser, and leaves what follows.
\<close>

theorem written_request_found:
  assumes "plain_req req" "write_http1x_req req cap = Ok bs" "cap \<le> READ_BUF_INIT_SIZE"
    and "rx_ok io" "io_clean io" "bi_pos io + READ_BUF_INIT_SIZE \<le> MAX_CAPACITY"
    and "in_stream io = bs @ rest" "rx_size (tr_rx (bi_inner io)) < m"
  shows "\<exists>io'. repoll m (poll_for_crlfcrlf (try_parse_req api)) io = (Ok (try_parse_req api bs False), io')
     \<and> in_stream io' = rest"
proof -
  note bs = written_req_head[OF assms(1,2)]
  have "head_len 0 (in_stream io) = Some (length bs)" using bs(2) assms(7) by simp
  from repoll_found[OF assms(4-6) this _ assms(8), of "try_parse_req api"] bs(1) assms(3,7) show ?thesis by auto
qed

text \<open>
  A response written here is found as it was written: the same for \<^verbatim>\<open>write_http1x_res\<close> and
  the connection of a client.
\<close>

theorem written_response_found:
  assumes "plain_res res" "write_http1x_res res cap = Ok bs" "cap \<le> READ_BUF_INIT_SIZE"
    and "rx_ok io" "io_clean io" "bi_pos io + READ_BUF_INIT_SIZE \<le> MAX_CAPACITY"
    and "in_stream io = bs @ rest" "rx_size (tr_rx (bi_inner io)) < m"
  shows "\<exists>io'. repoll m (poll_for_crlfcrlf (try_parse_res api)) io = (Ok (try_parse_res api bs False), io')
     \<and> in_stream io' = rest"
proof -
  note bs = written_res_head[OF assms(1,2)]
  have "head_len 0 (in_stream io) = Some (length bs)" using bs(2) assms(7) by simp
  from repoll_found[OF assms(4-6) this _ assms(8), of "try_parse_res api"] bs(1) assms(3,7) show ?thesis by auto
qed

definition wit_req :: request where
  "wit_req = \<lparr>req_method = ''GET'',
     req_uri = \<lparr>uri_path_and_query = Some ''/x'', uri_scheme_str = Some ''http'', uri_port_u16 = Some 8080,
       uri_host = Some ''h''\<rparr>, req_version = HTTP_11, req_headers = hm_of [(''a'', ''b'')]\<rparr>"

definition wit_res :: response where
  "wit_res = \<lparr>res_status = \<lparr>sc_as_u16 = 200, sc_is_informational = False, sc_is_redirection = False,
       sc_canonical_reason = Some ''OK''\<rparr>, res_version = HTTP_11, res_headers = hm_of [(''content-length'', ''5'')]\<rparr>"

definition wit_req_bytes :: bytes where
  "wit_req_bytes = ''GET /x HTTP/1.1'' @ CRLF @ ''host: h:8080'' @ CRLF @ ''a: b'' @ CRLF @ CRLF"

definition wit_res_bytes :: bytes where
  "wit_res_bytes = ''HTTP/1.1 200 OK'' @ CRLF @ ''content-length: 5'' @ CRLF @ CRLF"

text \<open>A parser and builders for examples: every head parses to the same message.\<close>

definition wit_api :: http_api where
  "wit_api = \<lparr>
     api_parse_res = (\<lambda>_. Inr \<lparr>pr_is_partial = False, pr_version = Some 1, pr_code = Some 200,
       pr_headers = [(''content-length'', ''5'')]\<rparr>),
     api_parse_req = (\<lambda>_. Inr \<lparr>pq_is_partial = False, pq_version = Some 1, pq_path = Some ''/x'',
       pq_method = Some ''POST'', pq_headers = [(''content-length'', ''5'')]\<rparr>),
     api_header_name = Some,
     api_header_value = (\<lambda>v. Some (hv_of v)),
     api_build_uri = (\<lambda>p. Inr \<lparr>uri_path_and_query = p, uri_scheme_str = None, uri_port_u16 = None,
       uri_host = None\<rparr>),
     api_build_res = (\<lambda>v c hs. Inr \<lparr>res_status = \<lparr>sc_as_u16 = (case c of Some n \<Rightarrow> n | None \<Rightarrow> 200),
       sc_is_informational = False, sc_is_redirection = False, sc_canonical_reason = Some ''OK''\<rparr>,
       res_version = v, res_headers = \<lparr>hm_get = map_of hs, hm_iter = hs\<rparr>\<rparr>),
     api_build_req = (\<lambda>v u m hs. Inr \<lparr>req_method = (case m of Some x \<Rightarrow> x | None \<Rightarrow> ''GET''), req_uri = u,
       req_version = v, req_headers = \<lparr>hm_get = map_of hs, hm_iter = hs\<rparr>\<rparr>)\<rparr>"

definition wit_conn :: "bytes \<Rightarrow> buf_io" where
  "wit_conn bs = bi_with_capacity 8
     \<lparr>tr_rx = [RxData (take 20 bs), RxPending, RxData (drop 20 bs @ ''rest'')],
      tr_tx = [], tr_flush = [], tr_close = [], tr_sent = [], tr_flushed = 0, tr_closed = False\<rparr>"

theorem written_request_found_witness:
  "\<exists>io'. repoll 80 (poll_for_crlfcrlf (try_parse_req wit_api)) (wit_conn wit_req_bytes)
      = (Ok (try_parse_req wit_api wit_req_bytes False), io') \<and> in_stream io' = ''rest''"
proof (rule written_request_found)
  show "plain_req wit_req"
    by (simp add: plain_req_def wit_req_def plain_headers_def hm_of_def hv_of_def)
  show "write_http1x_req wit_req 8192 = Ok wit_req_bytes" by code_simp
  show "rx_ok (wit_conn wit_req_bytes)" "io_clean (wit_conn wit_req_bytes)"
    "bi_pos (wit_conn wit_req_bytes) + READ_BUF_INIT_SIZE \<le> MAX_CAPACITY"
    "in_stream (wit_conn wit_req_bytes) = wit_req_bytes @ ''rest''"
    "rx_size (tr_rx (bi_inner (wit_conn wit_req_bytes))) < 80" by code_simp+
qed simp

theorem written_response_found_witness:
  "\<exists>io'. repoll 80 (poll_for_crlfcrlf (try_parse_res wit_api)) (wit_conn wit_res_bytes)
      = (Ok (try_parse_res wit_api wit_res_bytes False), io') \<and> in_stream io' = ''rest''"
proof (rule written_response_found)
  show "plain_res wit_res"
    by (simp add: plain_res_def wit_res_def plain_headers_def hm_of_def hv_of_def)
  show "write_http1x_res wit_res 8192 = Ok wit_res_bytes" by code_simp
  show "rx_ok (wit_conn wit_res_bytes)" "io_clean (wit_conn wit_res_bytes)"
    "bi_pos (wit_conn wit_res_bytes) + READ_BUF_INIT_SIZE \<le> MAX_CAPACITY"
    "in_stream (wit_conn wit_res_bytes) = wit_res_bytes @ ''rest''"
    "rx_size (tr_rx (bi_inner (wit_conn wit_res_bytes))) < 80" by code_simp+
qed simp

text \<open>
  C35. Writing a head is rendering it, when it fits. Both writers produce the bytes of a
  reference rendering (start line; for a request without a host header the host of its URI, with the port when
  that is not the default of the scheme; headers in order; empty line) with the version 1.0 or 1.1 when these fit into the buffer, fail with
  \<^verbatim>\<open>WriteZero\<close> when they do not, and panic for every other version. The reference names the versions and the default
  ports itself.
\<close>

theorem write_head_rendering:
  "write_http1x_req req cap = (case version_name (req_version req) of
      Some ver \<Rightarrow> if length (enc_req ver req) \<le> cap then Ok (enc_req ver req)
        else Err (IoError WriteZero ''failed to write whole buffer'')
    | None \<Rightarrow> Panic ''Unsupported http version'')
   \<and> write_http1x_res res cap = (case version_name (res_version res) of
      Some ver \<Rightarrow> if length (enc_res ver res) \<le> cap then Ok (enc_res ver res)
        else Err (IoError WriteZero ''failed to write whole buffer'')
    | None \<Rightarrow> Panic ''Unsupported http version'')"
proof (rule conjI)
  show "write_http1x_req req cap = (case version_name (req_version req) of
      Some ver \<Rightarrow> if length (enc_req ver req) \<le> cap then Ok (enc_req ver req)
        else Err (IoError WriteZero ''failed to write whole buffer'')
    | None \<Rightarrow> Panic ''Unsupported http version'')"
    using write_req_eq[of req] version_name_eq[of "req_version req"]
    by (cases "version_name (req_version req)") (simp_all add: write_http1x_req_def Let_def)
  show "write_http1x_res res cap = (case version_name (res_version res) of
      Some ver \<Rightarrow> if length (enc_res ver res) \<le> cap then Ok (enc_res ver res)
        else Err (IoError WriteZero ''failed to write whole buffer'')
    | None \<Rightarrow> Panic ''Unsupported http version'')"
    using write_res_eq[of res] version_name_eq[of "res_version res"]
    by (cases "version_name (res_version res)") (simp_all add: write_http1x_res_def)
qed

theorem write_head_rendering_witness:
  "write_http1x_req wit_req 38 = Err (IoError WriteZero ''failed to write whole buffer'')
   \<and> write_http1x_req wit_req 8192 = Ok (''GET /x HTTP/1.1'' @ CRLF @ ''host: h:8080'' @ CRLF @ ''a: b'' @ CRLF @ CRLF)
   \<and> write_http1x_req (wit_req\<lparr>req_version := HTTP_10, req_uri := (req_uri wit_req)\<lparr>uri_port_u16 := Some 80\<rparr>\<rparr>) 8192
       = Ok (''GET /x HTTP/1.0'' @ CRLF @ ''host: h'' @ CRLF @ ''a: b'' @ CRLF @ CRLF)
   \<and> write_http1x_req (wit_req\<lparr>req_version := HTTP_2\<rparr>) 8192 = Panic ''Unsupported http version''
   \<and> write_http1x_res wit_res 8192 = Ok (''HTTP/1.1 200 OK'' @ CRLF @ ''content-length: 5'' @ CRLF @ CRLF)
   \<and> write_http1x_res (wit_res\<lparr>res_version := HTTP_09\<rparr>) 8192 = Panic ''Unsupported http version''"
  unfolding write_head_rendering[THEN conjunct1] write_head_rendering[THEN conjunct2] by code_simp

end
