(* ===== verification/Connection.thy ===== *)
theory Connection
  imports Share Http11
begin

text \<open>
  What the client and the server have in common: well-formed limiters, the frames of reading and
  writing on the invariants of a connection, the channels as both poll them, and the pieces of a
  body that are still to be written.
\<close>

section \<open>Limiters and the connection\<close>

definition limit_ok :: "limit_read \<Rightarrow> bool" where
  "limit_ok l = (case l of LR_ChunkedDecoder d \<Rightarrow> cd_ok d | _ \<Rightarrow> True)"

lemma lr_ok_iff: "lr_ok (l, io) \<longleftrightarrow> rx_ok io \<and> limit_ok l"
  by (simp add: lr_ok_def limit_ok_def)

lemma limit_ok_from_headers [simp]: "limit_ok (lr_from_headers hs srv)"
  by (auto simp: lr_from_headers_def limit_ok_def split: option.splits)

lemma same_tx_ok: "same_tx io io' \<Longrightarrow> tx_ok io' = tx_ok io" "same_tx io io' \<Longrightarrow> can_poll_write io' = can_poll_write io"
  "same_tx io io' \<Longrightarrow> out_stream io' = out_stream io"
  by (auto simp: same_tx_def tx_ok_def can_poll_write_def out_stream_def pending_bytes_def split: option.splits)

lemma same_rx_ok: "same_rx io io' \<Longrightarrow> rx_ok io' = rx_ok io" "same_rx io io' \<Longrightarrow> in_stream io' = in_stream io"
  "same_rx io io' \<Longrightarrow> bi_pending_rx io' = bi_pending_rx io"
  by (auto simp: same_rx_def rx_ok_def in_stream_def unread_def)

lemma lr_poll_read_kind: "lr_poll_read n (l, io) = (r, l1, io1) \<Longrightarrow> lr_is_read_to_end l1 = lr_is_read_to_end l"
  by (cases l) (auto simp: lr_polls lr_is_read_to_end_def)

section \<open>Buffers and heads\<close>

lemma fresh_borrow:
  assumes "0 < n"
  shows "fb_borrow (fb_with_capacity n) = Ok \<lparr>fr_buf = \<lparr>fb_init = [], fb_len = n, fb_cap = n\<rparr>, fr_cur_len = 0\<rparr>"
    "length bs \<le> n \<Longrightarrow> \<exists>b. fr_extend (length bs)
       (fr_fill 0 bs \<lparr>fr_buf = \<lparr>fb_init = [], fb_len = n, fb_cap = n\<rparr>, fr_cur_len = 0\<rparr>) = Ok b \<and> fb_into_vec b = bs"
  using assms
  by (auto simp: fb_borrow_def fb_with_capacity_def Let_def set_len_def fr_extend_def fr_fill_def fr_drop_def
      fb_into_vec_def fb_deref_def)

lemma write_head_into_fits:
  assumes "f n = Ok bs" "length bs \<le> n" "0 < n"
  shows "\<exists>buf. write_head_into n f = Ok buf \<and> fb_deref buf = bs"
  using fresh_borrow[OF assms(3)] assms(1,2) by (auto simp: write_head_into_def fb_into_vec_def)

lemma write_head_into_fails:
  assumes "0 < n"
  shows "f n = Err e \<Longrightarrow> write_head_into n f = Err e" "f n = Panic p \<Longrightarrow> write_head_into n f = Panic p"
  using fresh_borrow(1)[OF assms] by (simp_all add: write_head_into_def)

section \<open>Filling and taking the read buffer\<close>

lemma ensure_read_capacity_only: "reads_only io (ensure_read_capacity n io)"
  by (auto simp: ensure_read_capacity_def reads_only_def same_tx_def io_size_def unread_def fb_ensure_capacity_def
      vec_reserve_def fb_deref_def)

lemma poll_fill_buf_only:
  assumes "poll_fill_buf False io = (r, io1)" "\<forall>p. r \<noteq> Panic p"
  shows "reads_only io io1" "r = Pending \<Longrightarrow> bi_pending_rx io1" "r = Ok buf \<Longrightarrow> buf = unread io1"
    "settled (r = Pending) io io1"
proof -
  have "reads_only io io1 \<and> settled (r = Pending) io io1 \<and> (r = Ok buf \<longrightarrow> buf = unread io1)"
  proof (cases "fb_len (bi_buf io) = 0")
    case False
    with assms show ?thesis by (auto simp: poll_fill_buf_def Let_def)
  next
    case True
    show ?thesis
    proof (cases "fb_borrow (bi_buf io)")
      case (Ok br)
      have len: "fr_cur_len br = 0" using Ok True by (auto simp: fb_borrow_def Let_def split: if_splits)
      obtain q t where q: "tr_poll_read (fb_len (fr_buf br)) (bi_inner io) = (q, t)" by fastforce
      note fr = tr_poll_read_frame[OF q] and size = tr_poll_read_size(1)[OF q] tr_poll_read_size(2)[of "fb_len (fr_buf br)" "bi_inner io" _ t]
      show ?thesis
      proof (cases q)
        case (Ok bs)
        show ?thesis
        proof (cases "fr_extend (length bs) (fr_fill 0 bs br)")
          case e: (Ok b)
          then have b: "fb_deref b = bs" using len
            by (auto simp: fr_extend_def fr_fill_def fr_drop_def set_len_def fb_deref_def split: if_splits)
          have "r = Ok (unread io1)" "io1 = io\<lparr>bi_inner := t, bi_buf := b, bi_pending_rx := False\<rparr>"
            using assms(1) True \<open>fb_borrow _ = _\<close> q Ok e by (auto simp: poll_fill_buf_def Let_def)
          with fr size b q Ok show ?thesis
            by (cases bs) (auto simp: reads_only_def same_tx_def io_size_def unread_def settled_def)
        qed (use assms True \<open>fb_borrow _ = _\<close> q Ok in \<open>auto simp: poll_fill_buf_def Let_def fr_extend_def split: if_splits\<close>)
      next
        case (Panic p)
        with q tr_poll_read_stream(4) show ?thesis by metis
      qed (use assms True \<open>fb_borrow _ = _\<close> q len fr size in
            \<open>auto simp: poll_fill_buf_def Let_def reads_only_def same_tx_def io_size_def unread_def fr_drop_def set_len_def fb_deref_def settled_def\<close>)
    qed (use assms True in \<open>auto simp: poll_fill_buf_def Let_def\<close>)
  qed
  then show "reads_only io io1" "r = Pending \<Longrightarrow> bi_pending_rx io1" "r = Ok buf \<Longrightarrow> buf = unread io1"
    "settled (r = Pending) io io1" by (auto simp: settled_def)
qed

lemma take_read_buf_only:
  assumes "take_read_buf io = (bs, io1)" "can_take_read_buf io"
  shows "bs = unread io" "reads_only io io1" "bs \<noteq> [] \<Longrightarrow> io_size io1 < io_size io" "settled False io io1"
  using assms
  by (auto simp: settled_def take_read_buf_def can_take_read_buf_def reads_only_def same_tx_def io_size_def unread_def fb_into_vec_def)

section \<open>Channels\<close>

lemma sender_poll_ready_cases:
  "sender_poll_ready w True c = (r, c') \<Longrightarrow>
    (\<exists>x. r = Ok x \<and> c' = c) \<or> r = Pending \<and> c' = c\<lparr>ch_wakers := ch_wakers c @ [w]\<rparr>"
  by (auto simp: sender_poll_ready_def inner_poll_ready_def split: if_splits)

lemma poll_recv_Some_queue:
  "poll_recv w reg c = (Ok (Some t), c') \<Longrightarrow> ch_queue c = t # ch_queue c'"
  by (auto simp: chan_defs split: list.splits if_splits)

text \<open>One poll of a receiver, whether it registers or not.\<close>

lemma poll_recv_reg_cases:
  obtains (Message) t q where "poll_recv w reg c = (Ok (Some t), q)" "ch_queue c = t # ch_queue q" "q = wake_all (c\<lparr>ch_queue := ch_queue q\<rparr>)"
  | (Closed) q where "poll_recv w reg c = (Ok None, q)" "ch_queue c = []" "ch_senders c = 0"
      "q = (if reg then c\<lparr>ch_wakers := ch_wakers c @ [w]\<rparr> else c)"
  | (Waiting) q where "poll_recv w reg c = (Pending, q)" "ch_queue c = []" "ch_senders c \<noteq> 0"
      "q = (if reg then c\<lparr>ch_wakers := ch_wakers c @ [w]\<rparr> else c)"
proof (cases "ch_queue c")
  case Nil
  then show ?thesis using Closed Waiting by (cases "ch_senders c = 0") (auto simp: poll_recv_def inner_poll_dequeue_def)
next
  case (Cons t ts)
  then show ?thesis by (intro Message[of t "wake_all (c\<lparr>ch_queue := ts\<rparr>)"])
    (auto simp: poll_recv_def inner_poll_dequeue_def wake_all_def)
qed

section \<open>One read by the user\<close>

text \<open>A stream that holds no empty piece: every read then gets something while there is something.\<close>

definition tidy :: "recv_stream \<times> recv_chan \<Rightarrow> bool" where
  "tidy = (\<lambda>(rs, rx). (\<forall>cb. rs_ready rs = Some cb \<longrightarrow> cb_deref cb \<noteq> []) \<and> Inr [] \<notin> set (ch_queue rx))"

lemma poll_body_data_bound:
  assumes "poll_body_data w n (rs, rx) = (r, rs1, rx1)"
  shows "ch_bound rx1 = ch_bound rx" "set (ch_queue rx1) \<subseteq> set (ch_queue rx)"
proof -
  have rcv: "ch_bound q = ch_bound rx \<and> set (ch_queue q) \<subseteq> set (ch_queue rx)" if "poll_recv w True rx = (x, q)" for x q
    using that by (auto simp: chan_defs split: list.splits if_splits)
  have "rx1 = rx \<or> (\<exists>x. poll_recv w True rx = (x, rx1))"
  proof (cases "rs_ended rs \<or> rs_ready rs \<noteq> None")
    case True
    with assms show ?thesis by (auto simp: poll_body_data_def split: prod.splits option.splits if_splits)
  next
    case False
    obtain x q where x: "poll_recv w True rx = (x, q)" by fastforce
    have "rx1 = q"
    proof (cases "\<exists>v. x = Ok (Some (Inr v))")
      case True
      then obtain v where v: "x = Ok (Some (Inr v))" by blast
      obtain r2 s2 where "ship_ready n (consume_buf_new v) (rs\<lparr>rs_ready := Some (consume_buf_new v)\<rparr>) = (r2, s2)"
        by fastforce
      with assms False x v show ?thesis by (simp add: poll_body_data_def)
    next
      case other: False
      show ?thesis
      proof (cases x)
        case (Ok m)
        with other assms False x show ?thesis
          by (cases m; cases "the m") (auto simp: poll_body_data_def)
      qed (use assms False x in \<open>auto simp: poll_body_data_def\<close>)
    qed
    with x show ?thesis by blast
  qed
  with rcv show "ch_bound rx1 = ch_bound rx" "set (ch_queue rx1) \<subseteq> set (ch_queue rx)" by auto
qed

lemma poll_body_data_gets:
  assumes "rs_ok (rs, rx)" "\<not> rs_ended rs" "\<forall>m \<in> set (ch_queue rx). \<exists>v. m = Inr v" "tidy (rs, rx)" "0 < n"
    "poll_body_data w n (rs, rx) = (r, rs1, rx1)"
  shows "tidy (rs1, rx1)" "rs_stream (rs, rx) \<noteq> [] \<Longrightarrow> \<exists>bs. r = Ok bs \<and> bs \<noteq> []"
    "rs_stream (rs, rx) = [] \<Longrightarrow> ch_queue rx = []
       \<and> (if ch_senders rx = 0 then r = Ok [] \<and> rs_ended rs1 else r = Pending \<and> rs1 = rs)"
proof -
  note live = assms(1-3)
  have no: "\<forall>cb. rs_ready rs = Some cb \<longrightarrow> cb_deref cb \<noteq> []" "Inr [] \<notin> set (ch_queue rx)"
    using assms(4) by (auto simp: tidy_def)
  have "tidy (rs1, rx1) \<and> (rs_stream (rs, rx) \<noteq> [] \<longrightarrow> (\<exists>bs. r = Ok bs \<and> bs \<noteq> []))
     \<and> (rs_stream (rs, rx) = [] \<longrightarrow> ch_queue rx = []
          \<and> (if ch_senders rx = 0 then r = Ok [] \<and> rs_ended rs1 else r = Pending \<and> rs1 = rs))"
  proof (cases "rs_ready rs")
    case (Some cb)
    have "cb_ok cb" using live(1) Some by (simp add: rs_ok_def)
    then obtain s1 where s1: "ship_ready n cb rs = (Ok (take n (cb_deref cb)), s1)" "ready_bytes s1 = drop n (cb_deref cb)"
      "rs_ready s1 = None \<longleftrightarrow> drop n (cb_deref cb) = []" using ship_ready_spec[of cb n rs rx] by metis
    then have "r = Ok (take n (cb_deref cb))" "rs1 = s1" "rx1 = rx"
      using assms(6) live(2) Some by (simp_all add: poll_body_data_def)
    moreover have "\<forall>cb1. rs_ready s1 = Some cb1 \<longrightarrow> cb_deref cb1 \<noteq> []" using s1(2,3) by (auto simp: ready_bytes_def)
    moreover have "take n (cb_deref cb) \<noteq> []" using no(1) Some assms(5) by simp
    moreover have "rs_stream (rs, rx) \<noteq> []" using no(1) Some live(2) by (simp add: rs_stream_def ready_bytes_def)
    ultimately show ?thesis using no(2) by (simp add: tidy_def)
  next
    case None
    then have nr: "ready_bytes rs = []" by (simp add: ready_bytes_def)
    show ?thesis
    proof (cases rule: poll_recv_cases[of w True rx])
      case (Message m rx2)
      then obtain v where v: "m = Inr v" "v \<noteq> []" using live(3) no(2) by (metis list.set_intros(1))
      obtain s1 where s1: "ship_ready n (consume_buf_new v) (rs\<lparr>rs_ready := Some (consume_buf_new v)\<rparr>) = (Ok (take n v), s1)"
        "ready_bytes s1 = drop n v" "rs_ready s1 = None \<longleftrightarrow> drop n v = []"
        using ship_ready_spec[of "consume_buf_new v" n "rs\<lparr>rs_ready := Some (consume_buf_new v)\<rparr>" rx] by auto
      then have "r = Ok (take n v)" "rs1 = s1" "rx1 = rx2"
        using assms(6) live(2) None Message(1) v by (simp_all add: poll_body_data_def)
      moreover have "\<forall>cb1. rs_ready s1 = Some cb1 \<longrightarrow> cb_deref cb1 \<noteq> []" using s1(2,3) by (auto simp: ready_bytes_def)
      moreover have "rs_stream (rs, rx) \<noteq> []" using Message(2) v live(2) by (simp add: rs_stream_def)
      ultimately show ?thesis using v(2) assms(5) no(2) Message(2) by (auto simp: tidy_def)
    next
      case (Closed rx2)
      then have "r = Ok []" "rs1 = rs\<lparr>rs_ended := True\<rparr>" "rx1 = rx2"
        using assms(6) live(2) None by (simp_all add: poll_body_data_def)
      with Closed None nr show ?thesis by (auto simp: tidy_def rs_stream_def)
    next
      case (Waiting rx2)
      with assms(6) live(2) None nr no show ?thesis by (auto simp: poll_body_data_def tidy_def rs_stream_def)
    qed
  qed
  then show "tidy (rs1, rx1)" "rs_stream (rs, rx) \<noteq> [] \<Longrightarrow> \<exists>bs. r = Ok bs \<and> bs \<noteq> []"
    "rs_stream (rs, rx) = [] \<Longrightarrow> ch_queue rx = []
       \<and> (if ch_senders rx = 0 then r = Ok [] \<and> rs_ended rs1 else r = Pending \<and> rs1 = rs)" by blast+
qed

section \<open>Polls that are only made when needed\<close>

text \<open>
  A poll that is only made when its end of the handle is there; \<open>Ok True\<close> is the flag
  \<^verbatim>\<open>pending\<close> of the source.
\<close>

definition poll_if :: "bool \<Rightarrow> ('s \<Rightarrow> unit res \<times> 's) \<Rightarrow> 's \<Rightarrow> bool res \<times> 's" where
  "poll_if guard p s =
     (if guard then
        (case p s of
           (Pending, s1) \<Rightarrow> (Ok True, s1)
         | (Ok _, s1) \<Rightarrow> (Ok False, s1)
         | (Err e, s1) \<Rightarrow> (Err e, s1)
         | (Panic x, s1) \<Rightarrow> (Panic x, s1))
      else (Ok False, s))"

lemma poll_if_cases:
  assumes "poll_if g p s = (r, s1)"
  shows "r = Ok True \<Longrightarrow> g \<and> p s = (Pending, s1)" "r = Ok False \<Longrightarrow> g \<and> p s = (Ok (), s1) \<or> \<not> g \<and> s1 = s"
    "r = Err e \<Longrightarrow> g \<and> p s = (Err e, s1)" "r = Panic x \<Longrightarrow> g \<and> p s = (Panic x, s1)" "r \<noteq> Pending"
  using assms by (auto simp: poll_if_def split: if_splits prod.splits res.splits)

text \<open>What every poll of the loops keeps, the loops keep.\<close>

lemma poll_if_keeps:
  assumes "poll_if g p s = (r, s1)" "P s" "\<And>r s1. g \<Longrightarrow> p s = (r, s1) \<Longrightarrow> P s1"
  shows "P s1"
  using assms(1,2) assms(3)[of "fst (p s)" "snd (p s)"]
  by (auto simp: poll_if_def split: if_splits prod.splits res.splits)

lemma poll_if_True: "poll_if True p s = (case p s of
    (Pending, s1) \<Rightarrow> (Ok True, s1) | (Ok _, s1) \<Rightarrow> (Ok False, s1) | (Err e, s1) \<Rightarrow> (Err e, s1) | (Panic x, s1) \<Rightarrow> (Panic x, s1))"
  by (simp add: poll_if_def)

lemma poll_if_False [simp]: "poll_if False p s = (Ok False, s)"
  by (simp add: poll_if_def)

section \<open>What is to be written\<close>

text \<open>The pieces of a body that will be written: those up to the one with the end flag.\<close>

fun body_upto :: "(bytes \<times> bool) list \<Rightarrow> bytes" where
  "body_upto [] = []"
| "body_upto ((bs, eob) # ms) = bs @ (if eob then [] else body_upto ms)"

lemma map_filter_Cons: "List.map_filter f (x # xs) = (case f x of Some y \<Rightarrow> y # List.map_filter f xs | None \<Rightarrow> List.map_filter f xs)"
  by (simp add: map_filter_simps)

lemma set_map_filter: "set (List.map_filter f xs) = {y. \<exists>x \<in> set xs. f x = Some y}"
  by (force simp: List.map_filter_def)

end
