(* ===== verification/Client.thy ===== *)
theory Client
  imports Connection
begin

text \<open>
  \<^verbatim>\<open>src/client.rs\<close>: the client side of a connection. The user's handles and the connection share
  channels; they live in a store (\<open>client_chans\<close>) and are named by numbers, so that a
  \<open>Handle\<close>, a state of the connection and a stream can hold an end of the same channel. Every
  state of the connection, the loop of \<open>drive\<close> and the operations of the user are functions on
  the connection and the store; all loops terminate.
\<close>

section \<open>Channels and handles\<close>

text \<open>What comes back for a request: an error, or a response with the stream of its body.\<close>

type_synonym res_msg = "io_error + (response \<times> recv_stream \<times> nat)"

record handle =
  h_req :: request
  h_body_rx :: "nat option"
  h_res_tx :: "nat option"

record client_chans =
  cc_req :: "handle chan"
  cc_res :: "nat \<Rightarrow> res_msg chan"
  cc_out :: "nat \<Rightarrow> body_chan"
  cc_in :: "nat \<Rightarrow> recv_chan"
  cc_fresh :: nat

definition on_res :: "nat \<Rightarrow> (res_msg chan \<Rightarrow> res_msg chan) \<Rightarrow> client_chans \<Rightarrow> client_chans" where
  "on_res i f c = c\<lparr>cc_res := (cc_res c)(i := f (cc_res c i))\<rparr>"

definition on_out :: "nat \<Rightarrow> (body_chan \<Rightarrow> body_chan) \<Rightarrow> client_chans \<Rightarrow> client_chans" where
  "on_out i f c = c\<lparr>cc_out := (cc_out c)(i := f (cc_out c i))\<rparr>"

definition on_in :: "nat \<Rightarrow> (recv_chan \<Rightarrow> recv_chan) \<Rightarrow> client_chans \<Rightarrow> client_chans" where
  "on_in i f c = c\<lparr>cc_in := (cc_in c)(i := f (cc_in c i))\<rparr>"

lemma on_simps [simp]:
  "cc_req (on_res i f c) = cc_req c" "cc_out (on_res i f c) = cc_out c" "cc_in (on_res i f c) = cc_in c"
  "cc_res (on_res i f c) = (cc_res c)(i := f (cc_res c i))" "cc_fresh (on_res i f c) = cc_fresh c"
  "cc_req (on_out i g c) = cc_req c" "cc_res (on_out i g c) = cc_res c" "cc_in (on_out i g c) = cc_in c"
  "cc_out (on_out i g c) = (cc_out c)(i := g (cc_out c i))" "cc_fresh (on_out i g c) = cc_fresh c"
  "cc_req (on_in i h c) = cc_req c" "cc_out (on_in i h c) = cc_out c" "cc_res (on_in i h c) = cc_res c"
  "cc_in (on_in i h c) = (cc_in c)(i := h (cc_in c i))" "cc_fresh (on_in i h c) = cc_fresh c"
  by (simp_all add: on_res_def on_out_def on_in_def)

text \<open>Dropping a handle drops the ends of the channels it still holds.\<close>

definition drop_handle :: "handle \<Rightarrow> client_chans \<Rightarrow> client_chans" where
  "drop_handle h c =
     (case h_res_tx h of Some j \<Rightarrow> on_res j sender_drop | None \<Rightarrow> id)
       ((case h_body_rx h of Some i \<Rightarrow> on_out i receiver_drop | None \<Rightarrow> id) c)"

section \<open>States of a connection\<close>

record client_bidirect =
  cbi_handle :: handle
  cbi_response_allows_reuse :: bool
  cbi_holder :: "(nat \<times> limit_read) option"

record body_receiver =
  br_request_allows_reuse :: bool
  br_response_allows_reuse :: bool
  br_cur_read_size :: nat
  br_limit :: limit_read
  br_body_tx :: nat

datatype client_state = SendReq | RecvRes client_bidirect | RecvBody body_receiver

record client =
  cl_io :: buf_io
  cl_state :: client_state
  cl_chans :: client_chans

abbreviation MAX_REQUEST_SIZE :: nat where "MAX_REQUEST_SIZE \<equiv> 8192"
abbreviation MAX_BODY_READ_SIZE :: nat where "MAX_BODY_READ_SIZE \<equiv> 8 * 1024 * 1024"

section \<open>Sending a request\<close>

definition poll_send_req ::
  "waker \<Rightarrow> buf_io \<times> client_chans \<Rightarrow> client_state option res \<times> (buf_io \<times> client_chans)" where
  "poll_send_req w = (\<lambda>(io, c).
     case poll_recv w True (cc_req c) of
       (Ok None, q) \<Rightarrow> (Ok None, (io, c\<lparr>cc_req := q\<rparr>))
     | (Ok (Some h), q) \<Rightarrow>
         (let c1 = c\<lparr>cc_req := q\<rparr>;
              next_state = RecvRes \<lparr>cbi_handle = h, cbi_response_allows_reuse = False, cbi_holder = None\<rparr>
          in case write_head_into MAX_REQUEST_SIZE (write_http1x_req (h_req h)) of
               Ok buf \<Rightarrow>
                 if \<not> can_poll_write io then (Panic ''assertion failed: io.can_poll_write()'', (io, c1))
                 else (case poll_write_all (Some (fb_deref buf)) True io of
                     (Pending, to_send, io1) \<Rightarrow>
                       if to_send \<noteq> None then (Panic ''assertion failed: to_send.is_none()'', (io1, c1))
                       else (Ok (Some next_state), (io1, c1))
                   | (Ok _, _, io1) \<Rightarrow> (Ok (Some next_state), (io1, c1))
                   | (Err e, _, io1) \<Rightarrow> (Err e, (io1, drop_handle h c1))
                   | (Panic p, _, io1) \<Rightarrow> (Panic p, (io1, c1)))
             | Err e \<Rightarrow> (Err e, (io, drop_handle h c1))
             | Pending \<Rightarrow> (Pending, (io, c1))
             | Panic p \<Rightarrow> (Panic p, (io, c1)))
     | (Err e, q) \<Rightarrow> (Err e, (io, c\<lparr>cc_req := q\<rparr>))
     | (Pending, q) \<Rightarrow> (Pending, (io, c\<lparr>cc_req := q\<rparr>))
     | (Panic p, q) \<Rightarrow> (Panic p, (io, c\<lparr>cc_req := q\<rparr>)))"

section \<open>Receiving the response while sending the body\<close>

type_synonym bidirect_state = "client_bidirect \<times> buf_io \<times> client_chans"

text \<open>When the response has no body, whatever its headers say.\<close>

definition response_is_no_body :: "request \<Rightarrow> response \<Rightarrow> limit_read \<Rightarrow> bool" where
  "response_is_no_body req res limit \<longleftrightarrow>
     lr_is_no_body limit
     \<or> req_method req = ''HEAD''
     \<or> sc_is_informational (res_status res)
     \<or> sc_as_u16 (res_status res) = 204
     \<or> sc_as_u16 (res_status res) = 304
     \<or> sc_is_redirection (res_status res) \<and> \<not> headers_indicate_body (res_headers res)"

definition poll_response :: "http_api \<Rightarrow> bidirect_state \<Rightarrow> unit res \<times> bidirect_state" where
  "poll_response api = (\<lambda>(b, io, c).
     case poll_for_crlfcrlf (try_parse_res api) io of
       (Ok (Inl e), io1) \<Rightarrow> (Err e, (b, io1, c))
     | (Ok (Inr None), io1) \<Rightarrow> (Panic ''Parsed partial response'', (b, io1, c))
     | (Ok (Inr (Some res)), io1) \<Rightarrow>
         (let b1 = b\<lparr>cbi_response_allows_reuse := allow_reuse (res_headers res) (res_version res)\<rparr>;
              limit = lr_from_headers (res_headers res) True;
              is_no_body = response_is_no_body (h_req (cbi_handle b)) res limit;
              i = cc_fresh c;
              c1 = c\<lparr>cc_in := (cc_in c)(i := receiver_new 1), cc_fresh := i + 1\<rparr>;
              b2 = b1\<lparr>cbi_holder := if is_no_body then None else Some (i, limit)\<rparr>;
              recv = recv_stream_new is_no_body
          in case h_res_tx (cbi_handle b2) of
               None \<Rightarrow> (Panic ''Missing res_tx'', (b2, io1, c1))
             | Some j \<Rightarrow>
                 (let b3 = b2\<lparr>cbi_handle := (cbi_handle b2)\<lparr>h_res_tx := None\<rparr>\<rparr>;
                      (sent, q) = sender_send (Inr (res, recv, i)) (cc_res c1 j);
                      c2 = on_res j (\<lambda>_. sender_drop q) c1;
                      c3 = (if sent then c2 else on_in i receiver_drop c2);
                      c4 = (if is_no_body then on_in i sender_drop c3 else c3)
                  in (Ok (), (b3, io1, c4))))
     | (Err e, io1) \<Rightarrow> (Err e, (b, io1, c))
     | (Pending, io1) \<Rightarrow> (Pending, (b, io1, c))
     | (Panic p, io1) \<Rightarrow> (Panic p, (b, io1, c)))"

definition poll_send_body :: "waker \<Rightarrow> bidirect_state \<Rightarrow> unit res \<times> bidirect_state" where
  "poll_send_body w = (\<lambda>(b, io, c).
     case h_body_rx (cbi_handle b) of
       None \<Rightarrow> (Panic ''called `Option::unwrap()` on a `None` value'', (b, io, c))
     | Some j \<Rightarrow>
         (case poll_recv w True (cc_out c j) of
            (Ok (Some (chunk, eob)), q) \<Rightarrow>
              (let c1 = on_out j (\<lambda>_. q) c in
               if \<not> can_poll_write io then (Panic ''assertion failed: io.can_poll_write()'', (b, io, c1))
               else
                 let b1 = (if eob then b\<lparr>cbi_handle := (cbi_handle b)\<lparr>h_body_rx := None\<rparr>\<rparr> else b);
                     c2 = (if eob then on_out j receiver_drop c1 else c1)
                 in case poll_write_all (Some chunk) eob io of
                      (Pending, to_send, io1) \<Rightarrow>
                        if to_send \<noteq> None then (Panic ''assertion failed: to_send.is_none()'', (b1, io1, c2))
                        else (Pending, (b1, io1, c2))
                    | (Ok _, _, io1) \<Rightarrow> (Ok (), (b1, io1, c2))
                    | (Err e, _, io1) \<Rightarrow> (Err e, (b1, io1, c2))
                    | (Panic p, _, io1) \<Rightarrow> (Panic p, (b1, io1, c2)))
          | (Ok None, q) \<Rightarrow>
              (Err (IoError OtherKind ''SendStream dropped before sending entire body''),
                (b, io, on_out j (\<lambda>_. q) c))
          | (Err e, q) \<Rightarrow> (Err e, (b, io, on_out j (\<lambda>_. q) c))
          | (Pending, q) \<Rightarrow> (Pending, (b, io, on_out j (\<lambda>_. q) c))
          | (Panic p, q) \<Rightarrow> (Panic p, (b, io, on_out j (\<lambda>_. q) c))))"

definition res_waits :: "bidirect_state \<Rightarrow> bool" where
  "res_waits = (\<lambda>(b, io, c). h_res_tx (cbi_handle b) \<noteq> None)"

definition body_waits :: "bidirect_state \<Rightarrow> bool" where
  "body_waits = (\<lambda>(b, io, c). h_body_rx (cbi_handle b) \<noteq> None)"

definition bidirect_size :: "bidirect_state \<Rightarrow> nat" where
  "bidirect_size = (\<lambda>(b, io, c). (if h_res_tx (cbi_handle b) = None then 0 else 1)
     + (case h_body_rx (cbi_handle b) of None \<Rightarrow> 0 | Some j \<Rightarrow> length (ch_queue (cc_out c j))))"

lemma poll_response_frame:
  assumes "poll_response api (b, io, c) = (r, b1, io1, c1)"
  shows "h_body_rx (cbi_handle b1) = h_body_rx (cbi_handle b)" "h_req (cbi_handle b1) = h_req (cbi_handle b)"
    "cc_out c1 = cc_out c" "cc_req c1 = cc_req c" "cc_fresh c \<le> cc_fresh c1" "r = Pending \<Longrightarrow> b1 = b \<and> c1 = c"
    "r = Ok () \<Longrightarrow> h_res_tx (cbi_handle b1) = None"
  using assms
  by (auto simp: poll_response_def Let_def split: res.splits sum.splits option.splits prod.splits if_splits)

lemma poll_send_body_frame:
  assumes "poll_send_body w (b, io, c) = (r, b1, io1, c1)"
  shows "h_res_tx (cbi_handle b1) = h_res_tx (cbi_handle b)" "h_req (cbi_handle b1) = h_req (cbi_handle b)"
    "cbi_holder b1 = cbi_holder b" "cbi_response_allows_reuse b1 = cbi_response_allows_reuse b"
    "cc_res c1 = cc_res c" "cc_in c1 = cc_in c" "cc_req c1 = cc_req c" "cc_fresh c1 = cc_fresh c"
    "r = Ok () \<Longrightarrow> bidirect_size (b1, io1, c1) < bidirect_size (b, io, c)"
  using assms
  by (auto simp: poll_send_body_def Let_def bidirect_size_def chan_defs
      split: res.splits option.splits prod.splits if_splits list.splits)

lemma bidirect_round_decreases:
  assumes "res_waits s \<or> body_waits s"
    "poll_if (res_waits s) (poll_response api) s = (Ok res_pending, s1)"
    "poll_if (body_waits s1) (poll_send_body w) s1 = (Ok body_pending, s2)"
    "\<not> (res_pending \<and> (body_pending \<or> \<not> body_waits s2) \<or> body_pending \<and> (res_pending \<or> \<not> res_waits s2))"
  shows "bidirect_size s2 < bidirect_size s"
proof -
  obtain b io c b1 io1 c1 b2 io2 c2 where s: "s = (b, io, c)" "s1 = (b1, io1, c1)" "s2 = (b2, io2, c2)"
    by (metis prod_cases3)
  have first: "bidirect_size s1 \<le> bidirect_size s \<and> (body_waits s1 \<longleftrightarrow> body_waits s)
      \<and> (\<not> res_pending \<longrightarrow> \<not> res_waits s1 \<and> (res_waits s \<longrightarrow> bidirect_size s1 < bidirect_size s))"
  proof (cases "res_waits s")
    case True
    then obtain r where r: "poll_response api s = (r, s1)" "r = (if res_pending then Pending else Ok ())"
      using poll_if_cases(1,2)[OF assms(2)] by (cases res_pending) auto
    note fr = poll_response_frame[OF r(1)[unfolded s]]
    from fr r(2) True show ?thesis
      by (cases "h_body_rx (cbi_handle b)")
        (auto simp: s bidirect_size_def body_waits_def res_waits_def split: if_splits)
  next
    case False
    then have "s1 = s" "\<not> res_pending" using assms(2) by (auto simp: poll_if_def)
    with False show ?thesis by simp
  qed
  show ?thesis
  proof (cases "body_waits s1")
    case True
    then obtain r where r: "poll_send_body w s1 = (r, s2)" "r = (if body_pending then Pending else Ok ())"
      using poll_if_cases(1,2)[OF assms(3)] by (cases body_pending) auto
    note fr = poll_send_body_frame[OF r(1)[unfolded s]]
    have "res_waits s2 = res_waits s1" using fr(1) by (simp add: s res_waits_def)
    with assms(4) first have np: "\<not> body_pending" by auto
    with r(2) fr(9) have "bidirect_size s2 < bidirect_size s1" by (simp add: s)
    with first show ?thesis by simp
  next
    case False
    then have "s2 = s1" "\<not> body_pending" using assms(3) by (auto simp: poll_if_def)
    with False first assms(1,4) show ?thesis by auto
  qed
qed

function bidirect_loop :: "http_api \<Rightarrow> waker \<Rightarrow> bidirect_state \<Rightarrow> unit res \<times> bidirect_state" where
  "bidirect_loop api w s =
     (if \<not> res_waits s \<and> \<not> body_waits s then (Ok (), s)
      else
        ready (poll_if (res_waits s) (poll_response api) s) (\<lambda>res_pending s1.
        ready (poll_if (body_waits s1) (poll_send_body w) s1) (\<lambda>body_pending s2.
          if res_pending \<and> (body_pending \<or> \<not> body_waits s2) \<or> body_pending \<and> (res_pending \<or> \<not> res_waits s2)
          then (Pending, s2)
          else bidirect_loop api w s2)))"
  by pat_completeness auto
termination
  by (relation "measure (\<lambda>(api, w, s). bidirect_size s)") 
    (rule wf_measure, unfold in_measure split_conv, rule bidirect_round_decreases, blast+)

declare bidirect_loop.simps [simp del]

text \<open>The state after a response, and after the whole request body, if there was one.\<close>

definition after_bidirect :: "client_bidirect \<Rightarrow> client_state option \<times> client_bidirect" where
  "after_bidirect b =
     (let req = h_req (cbi_handle b);
          request_allows_reuse = allow_reuse (req_headers req) (req_version req)
      in case cbi_holder b of
          Some (body_tx, limit) \<Rightarrow>
            (Some (RecvBody
               \<lparr>br_request_allows_reuse = request_allows_reuse,
                br_response_allows_reuse = cbi_response_allows_reuse b,
                br_cur_read_size =
                  unat (min (case lr_body_size limit of Some n \<Rightarrow> n | None \<Rightarrow> 8192) (of_nat MAX_BODY_READ_SIZE)),
                br_limit = limit,
                br_body_tx = body_tx\<rparr>), b\<lparr>cbi_holder := None\<rparr>)
        | None \<Rightarrow>
            (if request_allows_reuse \<and> cbi_response_allows_reuse b then Some SendReq else None, b))"

definition poll_bidirect ::
  "http_api \<Rightarrow> waker \<Rightarrow> bidirect_state \<Rightarrow> client_state option res \<times> bidirect_state" where
  "poll_bidirect api w s =
     ready (bidirect_loop api w s) (\<lambda>_ (b, io, c).
       case after_bidirect b of (next_state, b1) \<Rightarrow> (Ok next_state, (b1, io, c)))"

section \<open>Receiving the response body\<close>

type_synonym receiver_state = "body_receiver \<times> buf_io \<times> client_chans"

function read_body_loop :: "waker \<Rightarrow> receiver_state \<Rightarrow> unit res \<times> receiver_state" where
  "read_body_loop w (b, io, c) =
     (if lr_is_complete (br_limit b) then (Ok (), (b, io, c))
      else case sender_poll_ready w True (cc_in c (br_body_tx b)) of
          (Ok _, q) \<Rightarrow>
            (let c1 = on_in (br_body_tx b) (\<lambda>_. q) c in
             case fb_borrow (fb_with_capacity (br_cur_read_size b)) of
               Ok read_into \<Rightarrow>
                 (case lr_poll_read (fb_len (fr_buf read_into)) (br_limit b, io) of
                    (Ok bs, limit, io1) \<Rightarrow>
                      (let b1 = b\<lparr>br_limit := limit\<rparr> in
                       if bs \<noteq> [] then
                         (case fr_extend (length bs) (fr_fill 0 bs read_into) of
                            Ok buf \<Rightarrow>
                              read_body_loop w (b1, io1,
                                on_in (br_body_tx b) (\<lambda>q. snd (sender_send (Inr (fb_into_vec buf)) q)) c1)
                          | Err e \<Rightarrow> (Err e, (b1, io1, c1))
                          | Pending \<Rightarrow> (Pending, (b1, io1, c1))
                          | Panic p \<Rightarrow> (Panic p, (b1, io1, c1)))
                       else if \<not> lr_is_complete limit then
                         (Err (IoError UnexpectedEof ''Partial body''), (b1, io1, c1))
                       else read_body_loop w (b1, io1, c1))
                  | (Err e, limit, io1) \<Rightarrow> (Err e, (b\<lparr>br_limit := limit\<rparr>, io1, c1))
                  | (Pending, limit, io1) \<Rightarrow> (Pending, (b\<lparr>br_limit := limit\<rparr>, io1, c1))
                  | (Panic p, limit, io1) \<Rightarrow> (Panic p, (b\<lparr>br_limit := limit\<rparr>, io1, c1)))
             | Err e \<Rightarrow> (Err e, (b, io, c1))
             | Pending \<Rightarrow> (Pending, (b, io, c1))
             | Panic p \<Rightarrow> (Panic p, (b, io, c1)))
        | (Err e, q) \<Rightarrow> (Err e, (b, io, on_in (br_body_tx b) (\<lambda>_. q) c))
        | (Pending, q) \<Rightarrow> (Pending, (b, io, on_in (br_body_tx b) (\<lambda>_. q) c))
        | (Panic p, q) \<Rightarrow> (Panic p, (b, io, on_in (br_body_tx b) (\<lambda>_. q) c)))"
  by pat_completeness auto
termination
  by (relation "measure (\<lambda>(w, b, io, c). if lr_is_complete (br_limit b) then 0 else Suc (io_size io))")
    (auto dest!: lr_poll_read_only(2)[OF sym])

declare read_body_loop.simps [simp del]

definition poll_read_body ::
  "waker \<Rightarrow> receiver_state \<Rightarrow> client_state option res \<times> receiver_state" where
  "poll_read_body w s =
     ready (read_body_loop w s) (\<lambda>_ (b, io, c).
       (Ok (if br_request_allows_reuse b \<and> br_response_allows_reuse b \<and> lr_is_reusable (br_limit b)
            then Some SendReq else None), (b, io, c)))"

section \<open>Driving the connection\<close>

text \<open>
  One round of the loop of \<^verbatim>\<open>drive\<close>; \<open>Ok True\<close> goes on with the next state, \<open>Ok False\<close> returns.
  Replacing a state drops it, and with a \<open>RecvBody\<close> the sender of the body.
\<close>

definition drive_round :: "http_api \<Rightarrow> waker \<Rightarrow> client \<Rightarrow> bool res \<times> client" where
  "drive_round api w self =
     (case poll_finish_pending_write (cl_io self) of
        (Ok _, io) \<Rightarrow>
          (case cl_state self of
             SendReq \<Rightarrow>
               (case poll_send_req w (io, cl_chans self) of
                  (Ok (Some next_state), io1, c) \<Rightarrow> (Ok True, \<lparr>cl_io = io1, cl_state = next_state, cl_chans = c\<rparr>)
                | (Ok None, io1, c) \<Rightarrow> (Ok False, \<lparr>cl_io = io1, cl_state = SendReq, cl_chans = c\<rparr>)
                | (Err e, io1, c) \<Rightarrow> (Err e, \<lparr>cl_io = io1, cl_state = SendReq, cl_chans = c\<rparr>)
                | (Pending, io1, c) \<Rightarrow> (Pending, \<lparr>cl_io = io1, cl_state = SendReq, cl_chans = c\<rparr>)
                | (Panic p, io1, c) \<Rightarrow> (Panic p, \<lparr>cl_io = io1, cl_state = SendReq, cl_chans = c\<rparr>))
           | RecvRes h \<Rightarrow>
               (case poll_bidirect api w (h, io, cl_chans self) of
                  (Ok (Some next_state), h1, io1, c) \<Rightarrow> (Ok True, \<lparr>cl_io = io1, cl_state = next_state, cl_chans = c\<rparr>)
                | (Ok None, h1, io1, c) \<Rightarrow> (Ok False, \<lparr>cl_io = io1, cl_state = RecvRes h1, cl_chans = c\<rparr>)
                | (Err e, h1, io1, c) \<Rightarrow> (Err e, \<lparr>cl_io = io1, cl_state = RecvRes h1, cl_chans = c\<rparr>)
                | (Pending, h1, io1, c) \<Rightarrow> (Pending, \<lparr>cl_io = io1, cl_state = RecvRes h1, cl_chans = c\<rparr>)
                | (Panic p, h1, io1, c) \<Rightarrow> (Panic p, \<lparr>cl_io = io1, cl_state = RecvRes h1, cl_chans = c\<rparr>))
           | RecvBody h \<Rightarrow>
               (case poll_read_body w (h, io, cl_chans self) of
                  (Ok (Some next_state), h1, io1, c) \<Rightarrow>
                    (Ok True, \<lparr>cl_io = io1, cl_state = next_state, cl_chans = on_in (br_body_tx h1) sender_drop c\<rparr>)
                | (Ok None, h1, io1, c) \<Rightarrow> (Ok False, \<lparr>cl_io = io1, cl_state = RecvBody h1, cl_chans = c\<rparr>)
                | (Err e, h1, io1, c) \<Rightarrow> (Err e, \<lparr>cl_io = io1, cl_state = RecvBody h1, cl_chans = c\<rparr>)
                | (Pending, h1, io1, c) \<Rightarrow> (Pending, \<lparr>cl_io = io1, cl_state = RecvBody h1, cl_chans = c\<rparr>)
                | (Panic p, h1, io1, c) \<Rightarrow> (Panic p, \<lparr>cl_io = io1, cl_state = RecvBody h1, cl_chans = c\<rparr>)))
      | (Err e, io) \<Rightarrow> (Err e, self\<lparr>cl_io := io\<rparr>)
      | (Pending, io) \<Rightarrow> (Pending, self\<lparr>cl_io := io\<rparr>)
      | (Panic p, io) \<Rightarrow> (Panic p, self\<lparr>cl_io := io\<rparr>))"

text \<open>What every poll of the loops keeps, the loops keep.\<close>

lemma bidirect_loop_keeps:
  assumes "\<And>s r s1. P s \<Longrightarrow> res_waits s \<Longrightarrow> poll_response api s = (r, s1) \<Longrightarrow> P s1"
    and "\<And>s r s1. P s \<Longrightarrow> body_waits s \<Longrightarrow> poll_send_body w s = (r, s1) \<Longrightarrow> P s1"
    and "P s" "bidirect_loop api w s = (r, s')"
  shows "P s'"
  using assms(3,4)
proof (induction s rule: measure_induct_rule[where f = bidirect_size])
  case (less s)
  note res = assms(1) and body = assms(2)
  show ?case
  proof (cases "\<not> res_waits s \<and> \<not> body_waits s")
    case True
    with less.prems show ?thesis by (simp add: bidirect_loop.simps[of api w s])
  next
    case False
    obtain q1 s1 where q1: "poll_if (res_waits s) (poll_response api) s = (q1, s1)" by (metis surj_pair)
    have P1: "P s1" using poll_if_keeps[OF q1, of P] less.prems(1) res by blast
    show ?thesis
    proof (cases q1)
      case (Ok a)
      note q1 = q1[unfolded Ok]
      obtain q2 s2 where q2: "poll_if (body_waits s1) (poll_send_body w) s1 = (q2, s2)" by (metis surj_pair)
      have P2: "P s2" using poll_if_keeps[OF q2, of P] P1 body by blast
      show ?thesis
      proof (cases q2)
        case (Ok b)
        note q2 = q2[unfolded Ok]
        show ?thesis
        proof (cases "a \<and> (b \<or> \<not> body_waits s2) \<or> b \<and> (a \<or> \<not> res_waits s2)")
          case True
          with less.prems(2) False q1 q2 P2 show ?thesis by (simp add: bidirect_loop.simps[of api w s])
        next
          case go: False
          with less.prems(2) False q1 q2 have "bidirect_loop api w s2 = (r, s')"
            by (simp add: bidirect_loop.simps[of api w s])
          moreover have "bidirect_size s2 < bidirect_size s" using bidirect_round_decreases[OF _ q1 q2 go] False by blast
          ultimately show ?thesis using less.IH P2 by blast
        qed
      qed (use less.prems(2) False q1 q2 P2 in \<open>simp_all add: bidirect_loop.simps[of api w s]\<close>)
    qed (use less.prems(2) False q1 P1 in \<open>simp_all add: bidirect_loop.simps[of api w s]\<close>)
  qed
qed

lemma read_body_loop_keeps:
  assumes "\<And>b io c f. P (b, io, c) \<Longrightarrow> P (b, io, on_in (br_body_tx b) f c)"
    and "\<And>b io c n r l io1. P (b, io, c) \<Longrightarrow> lr_poll_read n (br_limit b, io) = (r, l, io1) \<Longrightarrow>
        P (b\<lparr>br_limit := l\<rparr>, io1, c)"
    and "P (b, io, c)" "read_body_loop w (b, io, c) = (r, s')"
  shows "P s'"
  using assms(3,4)
proof (induction "(b, io, c)" arbitrary: b io c
    rule: measure_induct_rule[where f = "\<lambda>(b, io, c). if lr_is_complete (br_limit b) then 0 else Suc (io_size io)"])
  case (less b io c)
  note ch = assms(1) and rd = assms(2)
  show ?case
  proof (cases "lr_is_complete (br_limit b)")
    case True
    with less.prems show ?thesis by (simp add: read_body_loop.simps)
  next
    case more: False
    obtain q qc where q: "sender_poll_ready w True (cc_in c (br_body_tx b)) = (q, qc)" by fastforce
    let ?c1 = "on_in (br_body_tx b) (\<lambda>_. qc) c"
    have P1: "P (b, io, ?c1)" using ch less.prems(1) .
    show ?thesis
    proof (cases q)
      case (Ok x)
      note q = q[unfolded Ok]
      show ?thesis
      proof (cases "fb_borrow (fb_with_capacity (br_cur_read_size b))")
        case (Ok ref)
        note ref = Ok
        obtain r1 l1 io1 where r1: "lr_poll_read (fb_len (fr_buf ref)) (br_limit b, io) = (r1, l1, io1)"
          by (metis prod_cases3)
        let ?b1 = "b\<lparr>br_limit := l1\<rparr>"
        have P2: "P (?b1, io1, ?c1)" using rd[OF P1 r1] .
        show ?thesis
        proof (cases r1)
          case (Ok bs)
          note r1 = r1[unfolded Ok]
          show ?thesis
          proof (cases "bs = []")
            case True
            show ?thesis
            proof (cases "lr_is_complete l1")
              case True
              with \<open>bs = []\<close> less.prems(2) more q ref r1 have "read_body_loop w (?b1, io1, ?c1) = (r, s')"
                by (simp add: read_body_loop.simps[of w b io c] Let_def)
              with True P2 show ?thesis by (simp add: read_body_loop.simps[of w ?b1])
            qed (use True less.prems(2) more q ref r1 P2 in \<open>auto simp: read_body_loop.simps[of w b io c] Let_def\<close>)
          next
            case ne: False
            show ?thesis
            proof (cases "fr_extend (length bs) (fr_fill 0 bs ref)")
              case (Ok buf)
              let ?c2 = "on_in (br_body_tx b) (\<lambda>q. snd (sender_send (Inr (fb_into_vec buf)) q)) ?c1"
              have "read_body_loop w (?b1, io1, ?c2) = (r, s')"
                using Ok ne less.prems(2) more q ref r1 by (simp add: read_body_loop.simps[of w b io c] Let_def)
              moreover have "P (?b1, io1, ?c2)" using ch[OF P2] by simp
              moreover have "io_size io1 < io_size io" using lr_poll_read_only(2)[OF r1 refl ne] .
              ultimately show ?thesis by (intro less.hyps[of ?b1 io1 ?c2]) (use more in auto)
            qed (use ne less.prems(2) more q ref r1 P2 in \<open>auto simp: read_body_loop.simps[of w b io c] Let_def\<close>)
          qed
        qed (use less.prems(2) more q ref r1 P2 in \<open>auto simp: read_body_loop.simps[of w b io c] Let_def\<close>)
      qed (use less.prems(2) more q P1 in \<open>auto simp: read_body_loop.simps[of w b io c] Let_def\<close>)
    qed (use less.prems(2) more q P1 in \<open>auto simp: read_body_loop.simps[of w b io c] Let_def\<close>)
  qed
qed

lemma poll_bidirect_req:
  assumes "poll_bidirect api w (b, io, c) = (r, b1, io1, c1)"
  shows "cc_req c1 = cc_req c" "r = Ok (Some st) \<Longrightarrow> st = SendReq \<or> (\<exists>h. st = RecvBody h)"
proof -
  obtain q b2 io2 c2 where q: "bidirect_loop api w (b, io, c) = (q, b2, io2, c2)" by (metis prod_cases4)
  have "cc_req (snd (snd (b2, io2, c2))) = cc_req c"
  proof (rule bidirect_loop_keeps[OF _ _ _ q])
    show "cc_req (snd (snd (b, io, c))) = cc_req c" by simp
  qed (use poll_response_frame(4) poll_send_body_frame(7) in \<open>metis prod.collapse\<close>)+
  then have "cc_req c2 = cc_req c" by simp
  with assms q show "cc_req c1 = cc_req c"
    by (cases q) (auto simp: poll_bidirect_def split: prod.splits)
  from assms q show "r = Ok (Some st) \<Longrightarrow> st = SendReq \<or> (\<exists>h. st = RecvBody h)"
    by (cases q) (auto simp: poll_bidirect_def after_bidirect_def Let_def split: prod.splits option.splits if_splits)
qed

lemma poll_read_body_req:
  assumes "poll_read_body w (b, io, c) = (r, b1, io1, c1)"
  shows "cc_req c1 = cc_req c" "r = Ok (Some st) \<Longrightarrow> st = SendReq"
proof -
  obtain q b2 io2 c2 where q: "read_body_loop w (b, io, c) = (q, b2, io2, c2)" by (metis prod_cases4)
  have "cc_req c2 = cc_req c"
    using read_body_loop_keeps[where P = "\<lambda>s. cc_req (snd (snd s)) = cc_req c", OF _ _ _ q] by simp
  with assms q show "cc_req c1 = cc_req c" by (cases q) (auto simp: poll_read_body_def)
  from assms q show "r = Ok (Some st) \<Longrightarrow> st = SendReq"
    by (cases q) (auto simp: poll_read_body_def split: if_splits)
qed

text \<open>How far a state is from needing the next request.\<close>

fun state_rank :: "client_state \<Rightarrow> nat" where
  "state_rank SendReq = 0"
| "state_rank (RecvRes h) = 2"
| "state_rank (RecvBody h) = 1"

definition client_size :: "client \<Rightarrow> nat" where
  "client_size self = 3 * length (ch_queue (cc_req (cl_chans self))) + state_rank (cl_state self)"

lemma drive_round_decreases:
  assumes "drive_round api w self = (Ok True, self1)"
  shows "client_size self1 < client_size self"
proof -
  obtain q io where q: "poll_finish_pending_write (cl_io self) = (q, io)" by fastforce
  with assms have q: "poll_finish_pending_write (cl_io self) = (Ok (), io)"
    by (cases q) (auto simp: drive_round_def)
  show ?thesis
  proof (cases "cl_state self")
    case SendReq
    obtain r io1 c where r: "poll_send_req w (io, cl_chans self) = (r, io1, c)" by (metis prod_cases3)
    with assms q SendReq obtain st where st: "r = Ok (Some st)" "self1 = \<lparr>cl_io = io1, cl_state = st, cl_chans = c\<rparr>"
      by (auto simp: drive_round_def split: res.splits option.splits)
    from r[unfolded st] obtain h where "ch_queue (cc_req (cl_chans self)) = h # ch_queue (cc_req c)" "\<exists>b. st = RecvRes b"
      by (auto simp: poll_send_req_def Let_def split: res.splits option.splits prod.splits if_splits
          dest: poll_recv_Some_queue)
    with st SendReq show ?thesis by (auto simp: client_size_def)
  next
    case (RecvRes h)
    obtain r h1 io1 c where r: "poll_bidirect api w (h, io, cl_chans self) = (r, h1, io1, c)" by (metis prod_cases4)
    with assms q RecvRes obtain st where st: "r = Ok (Some st)" "self1 = \<lparr>cl_io = io1, cl_state = st, cl_chans = c\<rparr>"
      by (auto simp: drive_round_def split: res.splits option.splits)
    with poll_bidirect_req[OF r] RecvRes show ?thesis by (auto simp: client_size_def)
  next
    case (RecvBody h)
    obtain r h1 io1 c where r: "poll_read_body w (h, io, cl_chans self) = (r, h1, io1, c)" by (metis prod_cases4)
    with assms q RecvBody obtain st where st: "r = Ok (Some st)"
      "self1 = \<lparr>cl_io = io1, cl_state = st, cl_chans = on_in (br_body_tx h1) sender_drop c\<rparr>"
      by (auto simp: drive_round_def split: res.splits option.splits)
    with poll_read_body_req[OF r] RecvBody show ?thesis by (auto simp: client_size_def)
  qed
qed

function drive :: "http_api \<Rightarrow> waker \<Rightarrow> client \<Rightarrow> unit res \<times> client" where
  "drive api w self =
     (case drive_round api w self of
        (Ok goes_on, self1) \<Rightarrow> if goes_on then drive api w self1 else (Ok (), self1)
      | (Err e, self1) \<Rightarrow> (Err e, self1)
      | (Pending, self1) \<Rightarrow> (Pending, self1)
      | (Panic p, self1) \<Rightarrow> (Panic p, self1))"
  by pat_completeness auto
termination
  by (relation "measure (\<lambda>(api, w, self). client_size self)") (auto dest: drive_round_decreases[OF sym])

declare drive.simps [simp del]

text \<open>
  An error ends the connection; the user that waits for a response, or for the rest of a body, is
  told. The copy made by \<^verbatim>\<open>clone_error\<close> has the kind and the text of the original.
\<close>

definition clone_error :: "io_error \<Rightarrow> io_error" where
  "clone_error e = IoError (io_kind e) (io_msg e)"

definition try_forward_error :: "io_error \<Rightarrow> client_state \<Rightarrow> client_chans \<Rightarrow> io_error \<times> client_chans" where
  "try_forward_error e self c = (case self of
      SendReq \<Rightarrow> (e, c)
    | RecvRes h \<Rightarrow>
        (case h_res_tx (cbi_handle h) of
           Some j \<Rightarrow> (clone_error e, on_res j (\<lambda>q. snd (sender_send (Inl e) q)) c)
         | None \<Rightarrow> (e, c))
    | RecvBody h \<Rightarrow> (clone_error e, on_in (br_body_tx h) (\<lambda>q. snd (sender_send (Inl e) q)) c))"

definition poll_client :: "http_api \<Rightarrow> waker \<Rightarrow> client \<Rightarrow> unit res \<times> client" where
  "poll_client api w self =
     (case drive api w self of
        (Err e, self1) \<Rightarrow>
          (case try_forward_error e (cl_state self1) (cl_chans self1) of
             (e1, c) \<Rightarrow> (Err e1, self1\<lparr>cl_chans := c\<rparr>))
      | r \<Rightarrow> r)"

section \<open>Opening and dropping a connection\<close>

definition client_new :: "transport \<Rightarrow> client_chans \<Rightarrow> client" where
  "client_new inner c =
     \<lparr>cl_io = bi_with_capacity READ_BUF_INIT_SIZE inner, cl_state = SendReq, cl_chans = c\<rparr>"

text \<open>Two new ends of a fresh channel for requests, and a store with no other channel in use.\<close>

definition handshake :: "transport \<Rightarrow> client" where
  "handshake inner =
     client_new inner
       \<lparr>cc_req = receiver_new 100, cc_res = \<lambda>_. receiver_new 1, cc_out = \<lambda>_. receiver_new 1,
        cc_in = \<lambda>_. receiver_new 1, cc_fresh = 0\<rparr>"

definition drop_state :: "client_state \<Rightarrow> client_chans \<Rightarrow> client_chans" where
  "drop_state self c = (case self of
      SendReq \<Rightarrow> c
    | RecvRes h \<Rightarrow>
        (case cbi_holder h of Some (i, _) \<Rightarrow> on_in i sender_drop | None \<Rightarrow> id) (drop_handle (cbi_handle h) c)
    | RecvBody h \<Rightarrow> on_in (br_body_tx h) sender_drop c)"

text \<open>The requests that are still queued are dropped with the receiver of the queue.\<close>

definition connection_drop :: "client \<Rightarrow> client_chans" where
  "connection_drop self =
     (let c = drop_state (cl_state self) (cl_chans self);
          c1 = fold drop_handle (ch_queue (cc_req c)) c
      in c1\<lparr>cc_req := receiver_drop (cc_req c1)\<rparr>)"

section \<open>The handles of the user\<close>

text \<open>
  \<^verbatim>\<open>SendRequest\<close> is a sender of \<open>cc_req\<close>; it is cloned and dropped as one. A \<^verbatim>\<open>ResponseFuture\<close> is the
  number of its channel, as is the body of the request it comes with.
\<close>

definition send_request_clone :: "client_chans \<Rightarrow> client_chans" where
  "send_request_clone c = c\<lparr>cc_req := sender_clone (cc_req c)\<rparr>"

definition send_request_drop :: "client_chans \<Rightarrow> client_chans" where
  "send_request_drop c = c\<lparr>cc_req := sender_drop (cc_req c)\<rparr>"

definition send_request ::
  "request \<Rightarrow> bool \<Rightarrow> client_chans \<Rightarrow> (error + (nat \<times> send_stream \<times> nat)) \<times> client_chans" where
  "send_request req no_body c =
     (if req_method req = ''CONNECT'' then (Inl (User ''hreq-h1 does not support CONNECT''), c)
      else
        let i = cc_fresh c;
            c1 = c\<lparr>cc_res := (cc_res c)(i := receiver_new 1), cc_out := (cc_out c)(i := receiver_new 1),
                   cc_fresh := i + 1\<rparr>;
            limit = lw_from_headers (req_headers req);
            no_send_body = no_body \<or> lw_is_no_body limit;
            c2 = (if no_send_body then on_out i receiver_drop c1 else c1);
            h = \<lparr>h_req = req, h_body_rx = (if no_send_body then None else Some i), h_res_tx = Some i\<rparr>
        in case sender_send h (cc_req c2) of
            (False, q) \<Rightarrow>
              (err_closed ''Can't enqueue request, connection is closed'',
                on_res i receiver_drop (on_out i sender_drop (drop_handle h (c2\<lparr>cc_req := q\<rparr>))))
          | (True, q) \<Rightarrow> (Inr (i, send_stream_new limit no_send_body, i), c2\<lparr>cc_req := q\<rparr>))"

definition response_future_poll ::
  "waker \<Rightarrow> nat \<Rightarrow> client_chans \<Rightarrow> (error + (response \<times> recv_stream \<times> nat)) res \<times> client_chans" where
  "response_future_poll w i c =
     (case poll_recv w True (cc_res c i) of
        (Ok (Some (Inr v)), q) \<Rightarrow> (Ok (Inr v), on_res i (\<lambda>_. q) c)
      | (Ok (Some (Inl e)), q) \<Rightarrow> (Ok (Inl (from_io e)), on_res i (\<lambda>_. q) c)
      | (Ok None, q) \<Rightarrow> (Ok (err_closed ''Response failed, connection is closed''), on_res i (\<lambda>_. q) c)
      | (Err e, q) \<Rightarrow> (Err e, on_res i (\<lambda>_. q) c)
      | (Pending, q) \<Rightarrow> (Pending, on_res i (\<lambda>_. q) c)
      | (Panic p, q) \<Rightarrow> (Panic p, on_res i (\<lambda>_. q) c))"

end
