(* ===== verification/Client_Proofs.thy ===== *)
theory Client_Proofs
  imports Client
begin

text \<open>
  What the client promises: its states stay well-formed and none of its assertions fails; the
  requests and their bodies reach the connection in order; a pending connection waits for
  something that will wake it; a connection is used again only from the byte after a response;
  an error, or the end of the connection, reaches every user that waits.
\<close>

section \<open>Well-formed states\<close>

definition holder_ok :: "(nat \<times> limit_read) option \<Rightarrow> bool" where
  "holder_ok h = (case h of None \<Rightarrow> True | Some (_, l) \<Rightarrow> limit_ok l \<and> \<not> lr_is_no_body l)"

definition bidirect_ok :: "client_bidirect \<Rightarrow> bool" where
  "bidirect_ok b \<longleftrightarrow> holder_ok (cbi_holder b) \<and> (h_res_tx (cbi_handle b) \<noteq> None \<longrightarrow> cbi_holder b = None)"

definition receiver_ok :: "body_receiver \<Rightarrow> bool" where
  "receiver_ok b \<longleftrightarrow> limit_ok (br_limit b) \<and> 0 < br_cur_read_size b \<and> br_cur_read_size b \<le> MAX_BODY_READ_SIZE"

definition state_ok :: "client_state \<Rightarrow> bool" where
  "state_ok st = (case st of SendReq \<Rightarrow> True | RecvRes b \<Rightarrow> bidirect_ok b | RecvBody b \<Rightarrow> receiver_ok b)"

definition client_ok :: "client \<Rightarrow> bool" where
  "client_ok self \<longleftrightarrow> rx_ok (cl_io self) \<and> tx_ok (cl_io self) \<and> state_ok (cl_state self)"

text \<open>
  The panics that are left: a full read buffer; a parser that says of a whole head that there is more to
  come, which the code takes for impossible; and a request of the user with a version that cannot be written.
\<close>

definition client_panic :: "http_api \<Rightarrow> string \<Rightarrow> bool" where
  "client_panic api p \<longleftrightarrow>
     full_buffer_panic p
     \<or> p = ''Parsed partial response'' \<and> (\<exists>bs. head_len 0 bs = Some (length bs) \<and> try_parse_res api bs False = Inr None)
     \<or> p = ''Unsupported http version''"

lemma parsed_partial:
  assumes "rx_ok io" "poll_for_crlfcrlf (try_parse_res api) io = (Ok (Inr None), io1)"
  shows "client_panic api ''Parsed partial response''"
proof -
  obtain bs eos where bs: "Inr None = try_parse_res api bs eos" "eos \<or> head_len 0 bs = Some (length bs)"
    using assms by (rule poll_for_crlfcrlf_parsed)
  then have "\<not> eos" by (auto simp: try_parse_res_def split: sum.splits if_splits)
  with bs show ?thesis by (auto simp: client_panic_def)
qed

section \<open>One poll for the response\<close>

lemma poll_response_cases:
  assumes "poll_response api (b, io, c) = (r, b1, io1, c1)" "h_res_tx (cbi_handle b) = Some j"
  obtains (Response) res no_body limit recv where
      "poll_for_crlfcrlf (try_parse_res api) io = (Ok (Inr (Some res)), io1)" "r = Ok ()"
      "limit = lr_from_headers (res_headers res) True"
      "no_body = response_is_no_body (h_req (cbi_handle b)) res limit"
      "recv = recv_stream_new no_body"
      "b1 = \<lparr>cbi_handle = (cbi_handle b)\<lparr>h_res_tx := None\<rparr>,
        cbi_response_allows_reuse = allow_reuse (res_headers res) (res_version res),
        cbi_holder = if no_body then None else Some (cc_fresh c, limit)\<rparr>"
      "cc_req c1 = cc_req c" "cc_out c1 = cc_out c" "cc_fresh c1 = Suc (cc_fresh c)"
      "cc_res c1 = (cc_res c)(j := sender_drop (snd (sender_send (Inr (res, recv, cc_fresh c)) (cc_res c j))))"
      "cc_in c1 = (cc_in c)(cc_fresh c := (if no_body then sender_drop else id)
        ((if fst (sender_send (Inr (res, recv, cc_fresh c)) (cc_res c j)) then id else receiver_drop) (receiver_new 1)))"
  | (Refused) e where "poll_for_crlfcrlf (try_parse_res api) io = (Ok (Inl e), io1)" "r = Err e" "b1 = b" "c1 = c"
  | (Partial) "poll_for_crlfcrlf (try_parse_res api) io = (Ok (Inr None), io1)"
      "r = Panic ''Parsed partial response''" "b1 = b" "c1 = c"
  | (Waiting) "poll_for_crlfcrlf (try_parse_res api) io = (Pending, io1)" "r = Pending" "b1 = b" "c1 = c"
  | (Failed) e where "poll_for_crlfcrlf (try_parse_res api) io = (Err e, io1)" "r = Err e" "b1 = b" "c1 = c"
  | (Panicked) p where "poll_for_crlfcrlf (try_parse_res api) io = (Panic p, io1)" "r = Panic p" "b1 = b" "c1 = c"
proof -
  obtain q io2 where q: "poll_for_crlfcrlf (try_parse_res api) io = (q, io2)" by fastforce
  show ?thesis
  proof (cases q)
    case (Ok a)
    show ?thesis
    proof (cases a)
      case (Inr x)
      show ?thesis
      proof (cases x)
        case (Some res)
        let ?limit = "lr_from_headers (res_headers res) True"
        let ?nb = "response_is_no_body (h_req (cbi_handle b)) res ?limit"
        obtain sent qc where s: "sender_send (Inr (res, recv_stream_new ?nb, cc_fresh c)) (cc_res c j) = (sent, qc)"
          by fastforce
        show ?thesis
          using assms q Ok Inr Some s
          by (intro Response[of res ?limit ?nb "recv_stream_new ?nb"])
            (auto simp: poll_response_def Let_def split: if_splits)
      qed (use assms q Ok Inr Partial in \<open>auto simp: poll_response_def\<close>)
    qed (use assms q Ok Refused in \<open>auto simp: poll_response_def\<close>)
  qed (use assms q Waiting Failed Panicked in \<open>auto simp: poll_response_def\<close>)
qed

lemma poll_response_ok:
  assumes "poll_response api (b, io, c) = (r, b1, io1, c1)" "h_res_tx (cbi_handle b) \<noteq> None" "rx_ok io" "bidirect_ok b"
  shows "r = Panic p \<Longrightarrow> client_panic api p" "(\<And>p. r \<noteq> Panic p) \<Longrightarrow> rx_ok io1 \<and> same_tx io io1 \<and> bidirect_ok b1"
    "r = Pending \<Longrightarrow> bi_pending_rx io1"
proof -
  obtain j where j: "h_res_tx (cbi_handle b) = Some j" using assms(2) by auto
  have "(\<forall>p. r = Panic p \<longrightarrow> client_panic api p) \<and> ((\<forall>p. r \<noteq> Panic p) \<longrightarrow> rx_ok io1 \<and> same_tx io io1 \<and> bidirect_ok b1)
      \<and> (r = Pending \<longrightarrow> bi_pending_rx io1)"
    using assms(1) j
  proof (cases rule: poll_response_cases)
    case (Response res no_body limit recv)
    have "\<not> no_body \<Longrightarrow> limit_ok limit \<and> \<not> lr_is_no_body limit"
      using Response(3,4) by (auto simp: response_is_no_body_def)
    with Response(2,6) poll_for_crlfcrlf_safe[OF assms(3) Response(1)] show ?thesis
      by (auto simp: bidirect_ok_def holder_ok_def)
  next
    case (Refused e)
    with poll_for_crlfcrlf_safe[OF assms(3) Refused(1)] assms(4) show ?thesis by auto
  next
    case Partial
    with parsed_partial[OF assms(3)] show ?thesis by simp
  next
    case Waiting
    with poll_for_crlfcrlf_safe[OF assms(3) Waiting(1)] assms(4) show ?thesis by auto
  next
    case (Failed e)
    with poll_for_crlfcrlf_safe[OF assms(3) Failed(1)] assms(4) show ?thesis by auto
  next
    case (Panicked p)
    with poll_for_crlfcrlf_safe(1)[OF assms(3) Panicked(1)] show ?thesis by (simp add: client_panic_def)
  qed
  then show "r = Panic p \<Longrightarrow> client_panic api p" "(\<And>p. r \<noteq> Panic p) \<Longrightarrow> rx_ok io1 \<and> same_tx io io1 \<and> bidirect_ok b1"
    "r = Pending \<Longrightarrow> bi_pending_rx io1" by auto
qed

section \<open>One poll for a piece of the request body\<close>

lemma poll_send_body_cases:
  assumes "poll_send_body w (b, io, c) = (r, b1, io1, c1)" "h_body_rx (cbi_handle b) = Some j"
    "tx_ok io" "can_poll_write io"
  obtains (Piece) chunk eob q where "poll_recv w True (cc_out c j) = (Ok (Some (chunk, eob)), q)"
      "poll_write_all (Some chunk) eob io = (r, None, io1)"
      "b1 = (if eob then b\<lparr>cbi_handle := (cbi_handle b)\<lparr>h_body_rx := None\<rparr>\<rparr> else b)"
      "c1 = on_out j (\<lambda>_. if eob then receiver_drop q else q) c"
  | (Dropped) q where "poll_recv w True (cc_out c j) = (Ok None, q)" "b1 = b" "io1 = io" "c1 = on_out j (\<lambda>_. q) c"
      "r = Err (IoError OtherKind ''SendStream dropped before sending entire body'')"
  | (Waiting) q where "poll_recv w True (cc_out c j) = (Pending, q)" "b1 = b" "io1 = io" "c1 = on_out j (\<lambda>_. q) c"
      "r = Pending" "w \<in> set (ch_wakers q)"
proof (cases rule: poll_recv_cases[of w True "cc_out c j"])
  case (Message m q)
  obtain chunk eob where m: "m = (chunk, eob)" by fastforce
  obtain r1 rest io2 where wr: "poll_write_all (Some chunk) eob io = (r1, rest, io2)" by (metis prod_cases3)
  note idle = poll_write_all_idle[OF assms(3,4) wr]
  have "r = r1 \<and> io1 = io2 \<and> b1 = (if eob then b\<lparr>cbi_handle := (cbi_handle b)\<lparr>h_body_rx := None\<rparr>\<rparr> else b)
      \<and> c1 = on_out j (\<lambda>_. if eob then receiver_drop q else q) c"
    using assms(1,2,4) Message(1) m wr idle(1) by (cases r1) (auto simp: poll_send_body_def on_out_def Let_def)
  with Message(1) m wr idle(1) show ?thesis by (intro Piece) auto
next
  case (Closed q)
  with assms(1,2) show ?thesis by (intro Dropped) (auto simp: poll_send_body_def)
next
  case (Waiting q)
  then have "w \<in> set (ch_wakers q)" by (auto simp: chan_defs split: list.splits if_splits)
  with Waiting(1) assms(1,2) that(3) show ?thesis by (auto simp: poll_send_body_def)
qed

lemma poll_send_body_ok:
  assumes "poll_send_body w (b, io, c) = (r, b1, io1, c1)" "h_body_rx (cbi_handle b) = Some j"
    "tx_ok io" "can_poll_write io" "bidirect_ok b"
  shows "r \<noteq> Panic p" "same_rx io io1" "tx_ok io1" "r = Ok () \<Longrightarrow> can_poll_write io1" "bidirect_ok b1"
    "r = Pending \<Longrightarrow> bi_pending_tx io1 \<or> h_body_rx (cbi_handle b1) = Some j \<and> w \<in> set (ch_wakers (cc_out c1 j))"
proof -
  have ok: "bidirect_ok b1" using poll_send_body_frame[OF assms(1)] assms(5) by (simp add: bidirect_ok_def)
  from assms(1-4) have "(\<forall>p. r \<noteq> Panic p) \<and> same_rx io io1 \<and> tx_ok io1 \<and> (r = Ok () \<longrightarrow> can_poll_write io1)
    \<and> (r = Pending \<longrightarrow> bi_pending_tx io1 \<or> h_body_rx (cbi_handle b1) = Some j \<and> w \<in> set (ch_wakers (cc_out c1 j)))"
  proof (cases rule: poll_send_body_cases)
    case (Piece chunk eob q)
    with poll_write_all_idle[OF assms(3,4) Piece(2)] show ?thesis by auto
  qed (use assms in auto)
  with ok show "r \<noteq> Panic p" "same_rx io io1" "tx_ok io1" "r = Ok () \<Longrightarrow> can_poll_write io1" "bidirect_ok b1"
    "r = Pending \<Longrightarrow> bi_pending_tx io1 \<or> h_body_rx (cbi_handle b1) = Some j \<and> w \<in> set (ch_wakers (cc_out c1 j))"
    by auto
qed

section \<open>The loop over both\<close>

text \<open>One round; \<open>Ok\<close> when the loop goes on.\<close>

definition bidirect_round :: "http_api \<Rightarrow> waker \<Rightarrow> bidirect_state \<Rightarrow> unit res \<times> bidirect_state" where
  "bidirect_round api w s =
     ready (poll_if (res_waits s) (poll_response api) s) (\<lambda>res_pending s1.
     ready (poll_if (body_waits s1) (poll_send_body w) s1) (\<lambda>body_pending s2.
       (if res_pending \<and> (body_pending \<or> \<not> body_waits s2) \<or> body_pending \<and> (res_pending \<or> \<not> res_waits s2)
        then Pending else Ok (), s2)))"

lemma bidirect_loop_round:
  "bidirect_loop api w s =
     (if \<not> res_waits s \<and> \<not> body_waits s then (Ok (), s)
      else ready (bidirect_round api w s) (\<lambda>_ s1. bidirect_loop api w s1))"
  unfolding bidirect_loop.simps[of api w s] bidirect_round_def
  by (auto simp: ready_def split: prod.splits res.splits)

lemma bidirect_round_smaller:
  assumes "bidirect_round api w s = (Ok (), s2)" "res_waits s \<or> body_waits s"
  shows "bidirect_size s2 < bidirect_size s"
proof -
  obtain a s1 b where "poll_if (res_waits s) (poll_response api) s = (Ok a, s1)"
    "poll_if (body_waits s1) (poll_send_body w) s1 = (Ok b, s2)"
    "\<not> (a \<and> (b \<or> \<not> body_waits s2) \<or> b \<and> (a \<or> \<not> res_waits s2))"
    using assms(1) by (auto simp: bidirect_round_def ready_eq_Ok split: if_splits)
  with bidirect_round_decreases[OF assms(2)] show ?thesis by blast
qed

lemma bidirect_loop_rule:
  assumes "bidirect_loop api w s = (r, s')" "I s"
    and "\<And>s s1. I s \<Longrightarrow> res_waits s \<or> body_waits s \<Longrightarrow> bidirect_round api w s = (Ok (), s1) \<Longrightarrow> I s1"
    and "\<And>s r s1. I s \<Longrightarrow> res_waits s \<or> body_waits s \<Longrightarrow> bidirect_round api w s = (r, s1) \<Longrightarrow> r \<noteq> Ok () \<Longrightarrow> Q r s1"
    and "\<And>s. I s \<Longrightarrow> \<not> res_waits s \<Longrightarrow> \<not> body_waits s \<Longrightarrow> Q (Ok ()) s"
  shows "Q r s'"
  using assms(1,2)
proof (induction s rule: measure_induct_rule[where f = bidirect_size])
  case (less s)
  show ?case
  proof (cases "\<not> res_waits s \<and> \<not> body_waits s")
    case True
    with less.prems assms(5) show ?thesis by (subst (asm) bidirect_loop_round) simp
  next
    case False
    then have waits: "res_waits s \<or> body_waits s" by simp
    obtain q s1 where q: "bidirect_round api w s = (q, s1)" by (metis surj_pair)
    have loop: "ready (q, s1) (\<lambda>_ s1. bidirect_loop api w s1) = (r, s')"
      using less.prems(1) False q by (subst (asm) bidirect_loop_round) simp
    show ?thesis
    proof (cases "q = Ok ()")
      case True
      with less.IH[OF bidirect_round_smaller[OF _ waits]] q loop assms(3)[OF less.prems(2) waits] show ?thesis by simp
    next
      case no: False
      then have "q = r" "s1 = s'" using loop by (cases q; simp)+
      with assms(4)[OF less.prems(2) waits q no] show ?thesis by simp
    qed
  qed
qed

definition bidirect_inv :: "bidirect_state \<Rightarrow> bool" where
  "bidirect_inv = (\<lambda>(b, io, c). rx_ok io \<and> tx_ok io \<and> can_poll_write io \<and> bidirect_ok b)"

text \<open>What a state that waits for a response, or for a piece of the request body, has asked to be woken by.\<close>

definition bidirect_waiting :: "waker \<Rightarrow> bidirect_state \<Rightarrow> bool" where
  "bidirect_waiting w = (\<lambda>(b, io, c).
     (h_res_tx (cbi_handle b) \<noteq> None \<longrightarrow> bi_pending_rx io)
     \<and> (case h_body_rx (cbi_handle b) of
          Some j \<Rightarrow> bi_pending_tx io \<or> w \<in> set (ch_wakers (cc_out c j))
        | None \<Rightarrow> h_res_tx (cbi_handle b) \<noteq> None \<or> bi_pending_tx io))"

definition bidirect_post :: "http_api \<Rightarrow> waker \<Rightarrow> unit res \<Rightarrow> bidirect_state \<Rightarrow> bool" where
  "bidirect_post api w r = (\<lambda>(b, io, c).
     (\<forall>p. r = Panic p \<longrightarrow> client_panic api p)
     \<and> ((\<forall>p. r \<noteq> Panic p) \<longrightarrow> rx_ok io \<and> tx_ok io \<and> bidirect_ok b)
     \<and> (r = Ok () \<longrightarrow> can_poll_write io)
     \<and> (r = Pending \<longrightarrow> bidirect_waiting w (b, io, c)))"

lemma bidirect_round_post:
  assumes "bidirect_inv (b, io, c)" "bidirect_round api w (b, io, c) = (r, s2)" "res_waits (b, io, c) \<or> body_waits (b, io, c)"
  shows "bidirect_post api w r s2"
proof -
  have inv: "rx_ok io" "tx_ok io" "can_poll_write io" "bidirect_ok b" using assms(1) by (auto simp: bidirect_inv_def)
  obtain q1 b1 io1 c1 where q1: "poll_if (res_waits (b, io, c)) (poll_response api) (b, io, c) = (q1, b1, io1, c1)"
    by (metis prod_cases4)
  have first: "(\<forall>p. q1 = Panic p \<longrightarrow> client_panic api p) \<and> q1 \<noteq> Pending
      \<and> ((\<forall>p. q1 \<noteq> Panic p) \<longrightarrow> rx_ok io1 \<and> same_tx io io1 \<and> bidirect_ok b1)
      \<and> (q1 = Ok True \<longrightarrow> bi_pending_rx io1 \<and> h_res_tx (cbi_handle b1) \<noteq> None) \<and> (q1 = Ok False \<longrightarrow> h_res_tx (cbi_handle b1) = None)
      \<and> h_body_rx (cbi_handle b1) = h_body_rx (cbi_handle b)"
  proof (cases "h_res_tx (cbi_handle b)")
    case None
    with q1 inv show ?thesis by (auto simp: res_waits_def)
  next
    case (Some j)
    obtain r1 b2 io2 c2 where r1: "poll_response api (b, io, c) = (r1, b2, io2, c2)" by (metis prod_cases4)
    have eq: "q1 = (case r1 of Pending \<Rightarrow> Ok True | Ok _ \<Rightarrow> Ok False | Err e \<Rightarrow> Err e | Panic p \<Rightarrow> Panic p)"
      "b1 = b2" "io1 = io2" "c1 = c2"
      using q1 r1 Some by (cases r1; simp add: res_waits_def poll_if_True)+
    note ok = poll_response_ok[OF r1 _ inv(1,4)] poll_response_frame[OF r1]
    from ok Some eq show ?thesis by (cases r1) auto
  qed
  show ?thesis
  proof (cases "\<exists>a. q1 = Ok a")
    case False
    with assms(2) q1 first have "r = (case q1 of Err e \<Rightarrow> Err e | Panic p \<Rightarrow> Panic p | _ \<Rightarrow> Pending)" "s2 = (b1, io1, c1)" by (cases q1; simp add: bidirect_round_def)+
    with first False inv(2) same_tx_ok[of io io1] show ?thesis by (cases q1) (auto simp: bidirect_post_def)
  next
    case True
    then obtain a where a: "q1 = Ok a" by blast
    with first have ok1: "rx_ok io1" "same_tx io io1" "bidirect_ok b1" by auto
    have tx1: "tx_ok io1" "can_poll_write io1" using inv(2,3) same_tx_ok[OF ok1(2)] by auto
    obtain q2 b2 io2 c2 where q2: "poll_if (body_waits (b1, io1, c1)) (poll_send_body w) (b1, io1, c1) = (q2, b2, io2, c2)"
      by (metis prod_cases4)
    have second: "(\<forall>p. q2 \<noteq> Panic p) \<and> q2 \<noteq> Pending \<and> rx_ok io2 \<and> tx_ok io2 \<and> bidirect_ok b2
        \<and> bi_pending_rx io2 = bi_pending_rx io1 \<and> h_res_tx (cbi_handle b2) = h_res_tx (cbi_handle b1)
        \<and> (q2 = Ok False \<longrightarrow> can_poll_write io2)
        \<and> (q2 = Ok True \<longrightarrow> bi_pending_tx io2
             \<or> (\<exists>j. h_body_rx (cbi_handle b2) = Some j \<and> w \<in> set (ch_wakers (cc_out c2 j))))"
    proof (cases "h_body_rx (cbi_handle b1)")
      case None
      with q2 ok1 tx1 show ?thesis by (auto simp: body_waits_def)
    next
      case (Some j)
      obtain r1 b3 io3 c3 where r1: "poll_send_body w (b1, io1, c1) = (r1, b3, io3, c3)" by (metis prod_cases4)
      have eq: "q2 = (case r1 of Pending \<Rightarrow> Ok True | Ok _ \<Rightarrow> Ok False | Err e \<Rightarrow> Err e | Panic p \<Rightarrow> Panic p)"
        "b2 = b3" "io2 = io3" "c2 = c3"
        using q2 r1 Some by (cases r1; simp add: body_waits_def poll_if_True)+
      note ok = poll_send_body_ok[OF r1 Some tx1 ok1(3)] poll_send_body_frame(1)[OF r1]
      from ok eq same_rx_ok[OF ok(2)] ok1(1) show ?thesis by (cases r1) auto
    qed
    show ?thesis
    proof (cases "\<exists>a. q2 = Ok a")
      case False
      with assms(2) q1 a q2 second have "r = (case q2 of Err e \<Rightarrow> Err e | Panic p \<Rightarrow> Panic p | _ \<Rightarrow> Pending)" "s2 = (b2, io2, c2)" by (cases q2; simp add: bidirect_round_def)+
      with second False show ?thesis by (cases q2) (auto simp: bidirect_post_def)
    next
      case True
      then obtain d where d: "q2 = Ok d" by blast
      have s2: "s2 = (b2, io2, c2)" "r = (if a \<and> (d \<or> \<not> body_waits s2) \<or> d \<and> (a \<or> \<not> res_waits s2) then Pending else Ok ())"
        using assms(2) q1 a q2 d by (auto simp: bidirect_round_def)
      have nd: "\<not> d \<Longrightarrow> can_poll_write io2" using second d by simp
      have "d \<Longrightarrow> r = Pending" using s2 first second a by (cases a) (auto simp: res_waits_def)
      with nd have "r = Ok () \<longrightarrow> can_poll_write io2" by auto
      moreover have "r = Pending \<or> r = Ok ()" using s2(2) by auto
      moreover have "r = Pending \<Longrightarrow> bidirect_waiting w s2"
        using s2 first second a d
        by (cases a; cases d) (auto simp: bidirect_waiting_def res_waits_def body_waits_def split: option.splits if_splits)
      moreover have "rx_ok io2" "tx_ok io2" "bidirect_ok b2" using second by auto
      ultimately show ?thesis unfolding bidirect_post_def s2(1) split_conv by auto
    qed
  qed
qed

lemma bidirect_loop_post:
  assumes "bidirect_inv s" "bidirect_loop api w s = (r, s')"
  shows "bidirect_post api w r s'"
  using assms(2,1)
proof (rule bidirect_loop_rule)
  fix s s1
  assume "bidirect_inv s" "res_waits s \<or> body_waits s" "bidirect_round api w s = (Ok (), s1)"
  then have "bidirect_post api w (Ok ()) s1" using bidirect_round_post by (cases s) blast
  then show "bidirect_inv s1" by (auto simp: bidirect_post_def bidirect_inv_def)
next
  fix s r s1
  assume "bidirect_inv s" "res_waits s \<or> body_waits s" "bidirect_round api w s = (r, s1)"
  then show "bidirect_post api w r s1" using bidirect_round_post by (cases s) blast
qed (auto simp: bidirect_inv_def bidirect_post_def)

lemma after_bidirect_ok:
  assumes "bidirect_ok b" "after_bidirect b = (st, b1)"
  shows "st = Some s \<Longrightarrow> state_ok s" "bidirect_ok b1" "cbi_handle b1 = cbi_handle b"
proof -
  have pos: "0 < unat (min (case lr_body_size l of Some n \<Rightarrow> n | None \<Rightarrow> 8192) (of_nat MAX_BODY_READ_SIZE :: 64 word))"
    if "\<not> lr_is_no_body l" for l
  proof -
    have "(0 :: 64 word) < (case lr_body_size l of Some n \<Rightarrow> n | None \<Rightarrow> 8192)"
      using that by (cases l) (auto simp: lr_body_size_def lr_is_no_body_def word_neq_0_conv)
    moreover have "0 < (of_nat MAX_BODY_READ_SIZE :: 64 word)" by simp
    ultimately show ?thesis by (simp add: min_def unat_gt_0 word_neq_0_conv)
  qed
  have le: "unat (min x (of_nat MAX_BODY_READ_SIZE :: 64 word)) \<le> MAX_BODY_READ_SIZE" for x
  proof -
    have "min x (of_nat MAX_BODY_READ_SIZE :: 64 word) \<le> of_nat MAX_BODY_READ_SIZE" by simp
    then have "unat (min x (of_nat MAX_BODY_READ_SIZE :: 64 word)) \<le> unat (of_nat MAX_BODY_READ_SIZE :: 64 word)"
      by (simp only: word_le_nat_alt)
    then show ?thesis by simp
  qed
  show "st = Some s \<Longrightarrow> state_ok s" "bidirect_ok b1" "cbi_handle b1 = cbi_handle b"
    using assms pos le
    by (auto simp: after_bidirect_def Let_def state_ok_def receiver_ok_def bidirect_ok_def holder_ok_def
        split: option.splits if_splits)
qed

section \<open>The loop over the response body\<close>

text \<open>One round, for a state whose buffer has room; \<open>Ok\<close> when the loop goes on.\<close>

definition receiver_round :: "waker \<Rightarrow> receiver_state \<Rightarrow> unit res \<times> receiver_state" where
  "receiver_round w = (\<lambda>(b, io, c).
     case sender_poll_ready w True (cc_in c (br_body_tx b)) of
       (Ok _, q) \<Rightarrow>
         (case lr_poll_read (br_cur_read_size b) (br_limit b, io) of
            (Ok bs, l, io1) \<Rightarrow>
              (if bs = [] \<and> \<not> lr_is_complete l then Err (IoError UnexpectedEof ''Partial body'') else Ok (),
               (b\<lparr>br_limit := l\<rparr>, io1,
                on_in (br_body_tx b) (\<lambda>_. if bs = [] then q else snd (sender_send (Inr bs) q)) c))
          | (Err e, l, io1) \<Rightarrow> (Err e, (b\<lparr>br_limit := l\<rparr>, io1, on_in (br_body_tx b) (\<lambda>_. q) c))
          | (Pending, l, io1) \<Rightarrow> (Pending, (b\<lparr>br_limit := l\<rparr>, io1, on_in (br_body_tx b) (\<lambda>_. q) c))
          | (Panic p, l, io1) \<Rightarrow> (Panic p, (b\<lparr>br_limit := l\<rparr>, io1, on_in (br_body_tx b) (\<lambda>_. q) c)))
     | (r, q) \<Rightarrow> (Pending, (b, io, on_in (br_body_tx b) (\<lambda>_. q) c)))"

lemma read_body_loop_round:
  assumes "receiver_ok b" "rx_ok io"
  shows "read_body_loop w (b, io, c) =
     (if lr_is_complete (br_limit b) then (Ok (), (b, io, c))
      else ready (receiver_round w (b, io, c)) (\<lambda>_ s1. read_body_loop w s1))"
proof (cases "lr_is_complete (br_limit b)")
  case True
  then show ?thesis by (simp add: read_body_loop.simps)
next
  case False
  have n: "0 < br_cur_read_size b" using assms(1) by (simp add: receiver_ok_def)
  note borrow = fresh_borrow[OF n]
  obtain r l io1 where r: "lr_poll_read (br_cur_read_size b) (br_limit b, io) = (r, l, io1)" by (metis prod_cases3)
  have len: "\<And>bs. r = Ok bs \<Longrightarrow> length bs \<le> br_cur_read_size b"
    using lr_poll_read_stream[OF _ n r] assms by (auto simp: lr_ok_iff receiver_ok_def)
  obtain q qc where q: "sender_poll_ready w True (cc_in c (br_body_tx b)) = (q, qc)" by fastforce
  show ?thesis
  proof (cases "\<exists>x. q = Ok x")
    case True
    then obtain x where x: "q = Ok x" by blast
    show ?thesis
    proof (cases r)
      case (Ok bs)
      obtain buf where buf: "fr_extend (length bs)
          (fr_fill 0 bs \<lparr>fr_buf = \<lparr>fb_init = [], fb_len = br_cur_read_size b, fb_cap = br_cur_read_size b\<rparr>, fr_cur_len = 0\<rparr>) = Ok buf"
        "fb_into_vec buf = bs" using borrow(2)[OF len[OF Ok]] by blast
      show ?thesis
        using False q x r Ok buf
        by (subst read_body_loop.simps)
          (auto simp: borrow(1) receiver_round_def Let_def on_in_def intro!: arg_cong[where f = "read_body_loop w"])
    qed (use False q x r in \<open>simp_all add: read_body_loop.simps[of w b io c] borrow(1) receiver_round_def Let_def\<close>)
  next
    case no: False
    then have "q = Pending" using sender_poll_ready_cases[OF q] by auto
    with False q show ?thesis by (simp add: read_body_loop.simps[of w b io c] receiver_round_def)
  qed
qed

text \<open>What one round does: at most one piece of the body goes from the connection into the channel.\<close>

lemma receiver_round_spec:
  assumes "receiver_ok b" "rx_ok io" "receiver_round w (b, io, c) = (r, b1, io1, c1)"
  shows "\<exists>bs. reads_only io io1 \<and> b1 = b\<lparr>br_limit := br_limit b1\<rparr> \<and> c1 = on_in (br_body_tx b) (\<lambda>_. cc_in c1 (br_body_tx b)) c
    \<and> (\<forall>p. r \<noteq> Panic p)
    \<and> (r = Ok () \<or> r = Pending \<longrightarrow> receiver_ok b1 \<and> rx_ok io1
         \<and> lr_stream (br_limit b, io) = bs @ lr_stream (br_limit b1, io1))
    \<and> (r \<noteq> Ok () \<longrightarrow> bs = []) \<and> (r = Ok () \<longrightarrow> bs \<noteq> [] \<or> lr_is_complete (br_limit b1))
    \<and> (bs \<noteq> [] \<longrightarrow> io_size io1 < io_size io)
    \<and> (chan_open (cc_in c (br_body_tx b)) \<longrightarrow> chan_open (cc_in c1 (br_body_tx b))
         \<and> ch_queue (cc_in c1 (br_body_tx b)) = ch_queue (cc_in c (br_body_tx b)) @ (if bs = [] then [] else [Inr bs])
         \<and> (bs \<noteq> [] \<longrightarrow> length (ch_queue (cc_in c (br_body_tx b))) < ch_bound (cc_in c (br_body_tx b))))
    \<and> ch_senders (cc_in c1 (br_body_tx b)) = ch_senders (cc_in c (br_body_tx b))
    \<and> ch_bound (cc_in c1 (br_body_tx b)) = ch_bound (cc_in c (br_body_tx b))
    \<and> (r = Pending \<longrightarrow> bi_pending_rx io1 \<or> w \<in> set (ch_wakers (cc_in c1 (br_body_tx b))))"
proof -
  let ?j = "br_body_tx b"
  have n: "0 < br_cur_read_size b" and l: "lr_ok (br_limit b, io)" using assms(1,2) by (auto simp: receiver_ok_def lr_ok_iff)
  obtain q qc where q: "sender_poll_ready w True (cc_in c ?j) = (q, qc)" by fastforce
  from sender_poll_ready_cases[OF q] show ?thesis
  proof (elim disjE exE conjE)
    assume wait: "q = Pending" "qc = (cc_in c ?j)\<lparr>ch_wakers := ch_wakers (cc_in c ?j) @ [w]\<rparr>"
    with assms(3) q have "r = Pending" "b1 = b" "io1 = io" "c1 = on_in ?j (\<lambda>_. qc) c" by (auto simp: receiver_round_def)
    with wait assms(1,2) show ?thesis by (intro exI[of _ "[]"]) (auto simp: on_in_def chan_open_def)
  next
    fix x
    assume x: "q = Ok x" "qc = cc_in c ?j"
    have room: "chan_open (cc_in c ?j) \<Longrightarrow> length (ch_queue (cc_in c ?j)) < ch_bound (cc_in c ?j)"
      using q x(1) by (auto simp: sender_poll_ready_def inner_poll_ready_def chan_open_def split: if_splits)
    obtain r1 l1 io2 where r1: "lr_poll_read (br_cur_read_size b) (br_limit b, io) = (r1, l1, io2)" by (metis prod_cases3)
    note st = lr_poll_read_stream[OF l n r1] and only = lr_poll_read_only[OF r1]
    have br: "receiver_ok (b\<lparr>br_limit := l1\<rparr>)" if "lr_ok (l1, io2)"
      using that assms(1) by (simp add: receiver_ok_def lr_ok_iff)
    show ?thesis
    proof (cases r1)
      case (Ok bs)
      obtain sent sc where s: "sender_send (Inr bs) (cc_in c ?j) = (sent, sc)" by fastforce
      have sc: "ch_senders sc = ch_senders (cc_in c ?j)" "ch_bound sc = ch_bound (cc_in c ?j)"
        using s by (auto simp: sender_send_def inner_enqueue_def wake_all_def split: if_splits)
      have sq: "chan_open (cc_in c ?j) \<Longrightarrow> chan_open sc \<and> ch_queue sc = ch_queue (cc_in c ?j) @ [Inr bs]"
        using mpsc.send_open[OF _ s] by blast
      have eq: "b1 = b\<lparr>br_limit := l1\<rparr>" "io1 = io2" "c1 = on_in ?j (\<lambda>_. if bs = [] then cc_in c ?j else sc) c"
        "r = (if bs = [] \<and> \<not> lr_is_complete l1 then Err (IoError UnexpectedEof ''Partial body'') else Ok ())"
        using assms(3) q x r1 Ok s by (auto simp: receiver_round_def)
      have l1: "lr_ok (l1, io2)" "lr_stream (br_limit b, io) = bs @ lr_stream (l1, io2)" using st Ok by auto
      show ?thesis
        using eq l1 br[OF l1(1)] only Ok sc sq room
        by (intro exI[of _ bs]) (auto simp: lr_ok_iff on_in_def)
    next
      case (Err e)
      then have "b1 = b\<lparr>br_limit := l1\<rparr>" "io1 = io2" "c1 = on_in ?j (\<lambda>_. cc_in c ?j) c" "r = Err e"
        using assms(3) q x r1 by (auto simp: receiver_round_def)
      with only show ?thesis by (intro exI[of _ "[]"]) (auto simp: on_in_def)
    next
      case Pending
      then have eq: "b1 = b\<lparr>br_limit := l1\<rparr>" "io1 = io2" "c1 = on_in ?j (\<lambda>_. cc_in c ?j) c" "r = Pending"
        using assms(3) q x r1 by (auto simp: receiver_round_def)
      have l1: "lr_ok (l1, io2)" "lr_stream (l1, io2) = lr_stream (br_limit b, io)" using st Pending by auto
      show ?thesis using eq l1 br[OF l1(1)] only Pending by (intro exI[of _ "[]"]) (auto simp: on_in_def lr_ok_iff)
    next
      case (Panic p)
      with st show ?thesis by auto
    qed
  qed
qed

lemma read_body_loop_rule:
  assumes "read_body_loop w (b, io, c) = (r, s')" "receiver_ok b" "rx_ok io" "I (b, io, c)"
    and "\<And>b io c s1. I (b, io, c) \<Longrightarrow> receiver_ok b \<Longrightarrow> rx_ok io \<Longrightarrow> \<not> lr_is_complete (br_limit b) \<Longrightarrow>
        receiver_round w (b, io, c) = (Ok (), s1) \<Longrightarrow> I s1"
    and "\<And>b io c r s1. I (b, io, c) \<Longrightarrow> receiver_ok b \<Longrightarrow> rx_ok io \<Longrightarrow> \<not> lr_is_complete (br_limit b) \<Longrightarrow>
        receiver_round w (b, io, c) = (r, s1) \<Longrightarrow> r \<noteq> Ok () \<Longrightarrow> Q r s1"
    and "\<And>b io c. I (b, io, c) \<Longrightarrow> receiver_ok b \<Longrightarrow> rx_ok io \<Longrightarrow> lr_is_complete (br_limit b) \<Longrightarrow> Q (Ok ()) (b, io, c)"
  shows "Q r s'"
  using assms(1-4)
proof (induction "(b, io, c)" arbitrary: b io c
    rule: measure_induct_rule[where f = "\<lambda>(b, io, c). if lr_is_complete (br_limit b) then 0 else Suc (io_size io)"])
  case (less b io c)
  note eq = less.prems(1)[unfolded read_body_loop_round[OF less.prems(2,3)]]
  show ?case
  proof (cases "lr_is_complete (br_limit b)")
    case True
    with eq assms(7) less.prems show ?thesis by auto
  next
    case False
    obtain q b1 io1 c1 where q: "receiver_round w (b, io, c) = (q, b1, io1, c1)" by (metis prod_cases4)
    show ?thesis
    proof (cases "q = Ok ()")
      case True
      have "receiver_ok b1" "rx_ok io1" "lr_is_complete (br_limit b1) \<or> io_size io1 < io_size io"
        using receiver_round_spec[OF less.prems(2,3) q] True by auto
      moreover have "I (b1, io1, c1)" using assms(5)[OF less.prems(4,2,3) False] q True by simp
      moreover have "read_body_loop w (b1, io1, c1) = (r, s')" using eq False q True by simp
      ultimately show ?thesis by (intro less.hyps) (use False in auto)
    next
      case no: False
      then have "r = q" "s' = (b1, io1, c1)" using eq False q by (cases q; simp)+
      with assms(6)[OF less.prems(4,2,3) False q no] show ?thesis by simp
    qed
  qed
qed

text \<open>
  The pieces a state passes on are the beginning of what its limiter will deliver, and all of it
  when the loop ends well. \<open>body_moved\<close> relates two states of the loop by the pieces in between.
\<close>

definition body_moved :: "receiver_state \<Rightarrow> bytes list \<Rightarrow> receiver_state \<Rightarrow> bool" where
  "body_moved = (\<lambda>(b, io, c) bss (b1, io1, c1).
     reads_only io io1 \<and> b1 = b\<lparr>br_limit := br_limit b1\<rparr> \<and> c1 = on_in (br_body_tx b) (\<lambda>_. cc_in c1 (br_body_tx b)) c
     \<and> ch_senders (cc_in c1 (br_body_tx b)) = ch_senders (cc_in c (br_body_tx b))
     \<and> [] \<notin> set bss
     \<and> (chan_open (cc_in c (br_body_tx b)) \<longrightarrow> chan_open (cc_in c1 (br_body_tx b))
          \<and> ch_queue (cc_in c1 (br_body_tx b)) = ch_queue (cc_in c (br_body_tx b)) @ map Inr bss
          \<and> ch_bound (cc_in c1 (br_body_tx b)) = ch_bound (cc_in c (br_body_tx b))
          \<and> length (ch_queue (cc_in c1 (br_body_tx b))) \<le> max (ch_bound (cc_in c (br_body_tx b))) (length (ch_queue (cc_in c (br_body_tx b))))))"

lemma body_moved_refl: "body_moved (b, io, c) [] (b, io, c)"
  by (simp add: body_moved_def on_in_def)

lemma body_moved_round:
  assumes "body_moved (b0, io0, c0) bss (b, io, c)" "receiver_ok b" "rx_ok io" "receiver_round w (b, io, c) = (r, b1, io1, c1)"
  shows "\<exists>bss1. body_moved (b0, io0, c0) (bss @ bss1) (b1, io1, c1)
    \<and> (r = Ok () \<or> r = Pending \<longrightarrow> lr_stream (br_limit b, io) = concat bss1 @ lr_stream (br_limit b1, io1))
    \<and> (r \<noteq> Ok () \<longrightarrow> bss1 = [])"
proof -
  obtain bs where bs: "reads_only io io1" "b1 = b\<lparr>br_limit := br_limit b1\<rparr>"
    "c1 = on_in (br_body_tx b) (\<lambda>_. cc_in c1 (br_body_tx b)) c"
    "r = Ok () \<or> r = Pending \<longrightarrow> lr_stream (br_limit b, io) = bs @ lr_stream (br_limit b1, io1)"
    "r \<noteq> Ok () \<longrightarrow> bs = []"
    "chan_open (cc_in c (br_body_tx b)) \<longrightarrow> chan_open (cc_in c1 (br_body_tx b))
         \<and> ch_queue (cc_in c1 (br_body_tx b)) = ch_queue (cc_in c (br_body_tx b)) @ (if bs = [] then [] else [Inr bs])
         \<and> (bs \<noteq> [] \<longrightarrow> length (ch_queue (cc_in c (br_body_tx b))) < ch_bound (cc_in c (br_body_tx b)))"
    "ch_senders (cc_in c1 (br_body_tx b)) = ch_senders (cc_in c (br_body_tx b))"
    "ch_bound (cc_in c1 (br_body_tx b)) = ch_bound (cc_in c (br_body_tx b))"
    using receiver_round_spec[OF assms(2-4)] by metis
  note mv = assms(1)[unfolded body_moved_def split_conv]
  have tx: "br_body_tx b = br_body_tx b0" using mv by (metis body_receiver.select_convs(5) body_receiver.surjective body_receiver.update_convs(4))
  have b1: "b1 = b0\<lparr>br_limit := br_limit b1\<rparr>"
    using mv bs(2) by (metis body_receiver.surjective body_receiver.update_convs(4))
  have c1: "c1 = on_in (br_body_tx b0) (\<lambda>_. cc_in c1 (br_body_tx b0)) c0"
  proof -
    have "c = on_in (br_body_tx b0) (\<lambda>_. cc_in c (br_body_tx b0)) c0" using mv by blast
    then show ?thesis using bs(3) unfolding tx on_in_def by (metis (no_types, lifting) client_chans.cases
        client_chans.select_convs(4) client_chans.update_convs(4) fun_upd_upd)
  qed
  have "body_moved (b0, io0, c0) (bss @ (if bs = [] then [] else [bs])) (b1, io1, c1)"
    using mv bs(1,6-8) b1 c1 unfolding body_moved_def split_conv tx by (auto intro: reads_only_trans)
  with bs(4,5) show ?thesis by (intro exI[of _ "if bs = [] then [] else [bs]"]) auto
qed

lemma read_body_loop_spec:
  assumes "read_body_loop w (b, io, c) = (r, b1, io1, c1)" "receiver_ok b" "rx_ok io"
  shows "\<exists>bss. body_moved (b, io, c) bss (b1, io1, c1)
    \<and> prefix (concat bss) (lr_stream (br_limit b, io)) \<and> (\<forall>p. r \<noteq> Panic p)
    \<and> (r = Ok () \<or> r = Pending \<longrightarrow> receiver_ok b1 \<and> rx_ok io1
         \<and> lr_stream (br_limit b, io) = concat bss @ lr_stream (br_limit b1, io1))
    \<and> (r = Ok () \<longrightarrow> lr_is_complete (br_limit b1))
    \<and> (r = Pending \<longrightarrow> bi_pending_rx io1 \<or> w \<in> set (ch_wakers (cc_in c1 (br_body_tx b))))"
proof -
  let ?I = "\<lambda>(b1, io1, c1). \<exists>bss. body_moved (b, io, c) bss (b1, io1, c1)
    \<and> lr_stream (br_limit b, io) = concat bss @ lr_stream (br_limit b1, io1)"
  let ?Q = "\<lambda>r (b1, io1, c1). \<exists>bss. body_moved (b, io, c) bss (b1, io1, c1)
    \<and> prefix (concat bss) (lr_stream (br_limit b, io)) \<and> (\<forall>p. r \<noteq> Panic p)
    \<and> (r = Ok () \<or> r = Pending \<longrightarrow> receiver_ok b1 \<and> rx_ok io1
         \<and> lr_stream (br_limit b, io) = concat bss @ lr_stream (br_limit b1, io1))
    \<and> (r = Ok () \<longrightarrow> lr_is_complete (br_limit b1))
    \<and> (r = Pending \<longrightarrow> bi_pending_rx io1 \<or> w \<in> set (ch_wakers (cc_in c1 (br_body_tx b))))"
  have "?Q r (b1, io1, c1)"
  proof (rule read_body_loop_rule[where I = ?I and Q = ?Q, OF assms(1-3)], goal_cases)
    case 1
    then show ?case using body_moved_refl by fastforce
  next
    case (2 b2 io2 c2 s1)
    obtain b3 io3 c3 where s1: "s1 = (b3, io3, c3)" by (metis prod_cases3)
    from 2(1) obtain bss where bss: "body_moved (b, io, c) bss (b2, io2, c2)"
      "lr_stream (br_limit b, io) = concat bss @ lr_stream (br_limit b2, io2)" by auto
    from body_moved_round[OF bss(1) 2(2,3) 2(5)[unfolded s1]] obtain bss1
      where "body_moved (b, io, c) (bss @ bss1) (b3, io3, c3)"
        "lr_stream (br_limit b2, io2) = concat bss1 @ lr_stream (br_limit b3, io3)" by auto
    with bss(2) s1 show ?case by (auto intro!: exI[of _ "bss @ bss1"])
  next
    case (3 b2 io2 c2 q s1)
    obtain b3 io3 c3 where s1: "s1 = (b3, io3, c3)" by (metis prod_cases3)
    from 3(1) obtain bss where bss: "body_moved (b, io, c) bss (b2, io2, c2)"
      "lr_stream (br_limit b, io) = concat bss @ lr_stream (br_limit b2, io2)" by auto
    have tx: "br_body_tx b2 = br_body_tx b"
      using bss(1) unfolding body_moved_def split_conv
      by (metis body_receiver.select_convs(5) body_receiver.surjective body_receiver.update_convs(4))
    have "body_moved (b, io, c) bss (b3, io3, c3)"
      "q = Pending \<longrightarrow> lr_stream (br_limit b2, io2) = lr_stream (br_limit b3, io3)"
      using body_moved_round[OF bss(1) 3(2,3) 3(5)[unfolded s1]] 3(6) by auto
    moreover have "(\<forall>p. q \<noteq> Panic p)" "q = Pending \<longrightarrow> receiver_ok b3 \<and> rx_ok io3
        \<and> (bi_pending_rx io3 \<or> w \<in> set (ch_wakers (cc_in c3 (br_body_tx b))))"
      using receiver_round_spec[OF 3(2,3) 3(5)[unfolded s1]] unfolding tx by blast+
    ultimately show ?case using bss(2) 3(6) s1 by (auto intro!: exI[of _ bss])
  next
    case (4 b2 io2 c2)
    then show ?case by auto
  qed
  then show ?thesis by simp
qed

section \<open>Sending a request\<close>

definition head_of :: "request \<Rightarrow> bytes" where
  "head_of req = (case version_text (req_version req) of Ok ver \<Rightarrow> enc_req ver req | _ \<Rightarrow> [])"

lemma write_req_head:
  obtains (Fits) buf where "write_head_into MAX_REQUEST_SIZE (write_http1x_req req) = Ok buf" "fb_deref buf = head_of req"
  | (TooBig) "write_head_into MAX_REQUEST_SIZE (write_http1x_req req) = Err (IoError WriteZero ''failed to write whole buffer'')"
  | (Version) "write_head_into MAX_REQUEST_SIZE (write_http1x_req req) = Panic ''Unsupported http version''"
proof (cases "version_text (req_version req)")
  case (Ok ver)
  note eq = write_req_eq[OF Ok, of MAX_REQUEST_SIZE]
  show ?thesis
  proof (cases "length (enc_req ver req) \<le> MAX_REQUEST_SIZE")
    case True
    with eq write_head_into_fits[of "write_http1x_req req" MAX_REQUEST_SIZE "enc_req ver req"] Ok Fits
    show ?thesis by (auto simp: head_of_def)
  next
    case False
    with eq write_head_into_fails(1)[of MAX_REQUEST_SIZE "write_http1x_req req"] TooBig show ?thesis by simp
  qed
next
  case (Panic p)
  then have "write_http1x_req req MAX_REQUEST_SIZE = Panic p" by (simp add: write_http1x_req_def Let_def)
  moreover have "p = ''Unsupported http version''" using Panic by (auto simp: version_text_def split: http_version.splits)
  ultimately show ?thesis using write_head_into_fails(2)[of MAX_REQUEST_SIZE "write_http1x_req req"] Version by simp
qed (auto simp: version_text_def split: http_version.splits)

lemma poll_send_req_cases:
  assumes "poll_send_req w (io, c) = (r, io1, c1)" "tx_ok io" "can_poll_write io"
  obtains (Sent) h q wr where "poll_recv w True (cc_req c) = (Ok (Some h), q)"
      "poll_write_all (Some (head_of (h_req h))) True io = (wr, None, io1)" "wr = Ok () \<or> wr = Pending"
      "r = Ok (Some (RecvRes \<lparr>cbi_handle = h, cbi_response_allows_reuse = False, cbi_holder = None\<rparr>))"
      "c1 = c\<lparr>cc_req := q\<rparr>"
  | (Failed) h q e where "poll_recv w True (cc_req c) = (Ok (Some h), q)" "r = Err e" "c1 = drop_handle h (c\<lparr>cc_req := q\<rparr>)"
      "io1 = io \<or> poll_write_all (Some (head_of (h_req h))) True io = (Err e, None, io1)"
  | (Version) h q where "poll_recv w True (cc_req c) = (Ok (Some h), q)" "r = Panic ''Unsupported http version''" "io1 = io"
      "c1 = c\<lparr>cc_req := q\<rparr>"
  | (Closed) q where "poll_recv w True (cc_req c) = (Ok None, q)" "r = Ok None" "io1 = io" "c1 = c\<lparr>cc_req := q\<rparr>"
  | (Waiting) q where "poll_recv w True (cc_req c) = (Pending, q)" "r = Pending" "io1 = io" "c1 = c\<lparr>cc_req := q\<rparr>"
      "w \<in> set (ch_wakers q)"
proof (cases rule: poll_recv_cases[of w True "cc_req c"])
  case (Message h q)
  show ?thesis
  proof (cases rule: write_req_head[of "h_req h"])
    case (Fits buf)
    obtain wr rest io2 where wr: "poll_write_all (Some (head_of (h_req h))) True io = (wr, rest, io2)" by (metis prod_cases3)
    note idle = poll_write_all_idle[OF assms(2,3) wr]
    show ?thesis
    proof (cases wr)
      case (Ok u)
      with Message(1) Fits wr idle(1) assms(1,3) Sent show ?thesis by (auto simp: poll_send_req_def Let_def)
    next
      case (Err e)
      with Message(1) Fits wr idle(1) assms(1,3) Failed show ?thesis by (auto simp: poll_send_req_def Let_def)
    next
      case Pending
      with Message(1) Fits wr idle(1) assms(1,3) Sent show ?thesis by (auto simp: poll_send_req_def Let_def)
    next
      case (Panic p)
      with idle(4) show ?thesis by blast
    qed
  next
    case TooBig
    with Message(1) assms(1) Failed show ?thesis by (auto simp: poll_send_req_def Let_def)
  next
    case 3: Version
    with Message(1) assms(1) Version show ?thesis by (auto simp: poll_send_req_def Let_def)
  qed
next
  case (Closed q)
  with assms(1) that(4) show ?thesis by (auto simp: poll_send_req_def)
next
  case (Waiting q)
  then have "w \<in> set (ch_wakers q)" by (auto simp: chan_defs split: list.splits if_splits)
  with Waiting(1) assms(1) that(5) show ?thesis by (auto simp: poll_send_req_def)
qed

section \<open>One round of the connection\<close>

text \<open>What a connection that is pending waits for: the transport, or a channel that will wake it.\<close>

definition client_waiting :: "waker \<Rightarrow> client \<Rightarrow> bool" where
  "client_waiting w self \<longleftrightarrow> bi_pending_tx (cl_io self) \<or> (case cl_state self of
      SendReq \<Rightarrow> w \<in> set (ch_wakers (cc_req (cl_chans self)))
    | RecvRes b \<Rightarrow> bidirect_waiting w (b, cl_io self, cl_chans self)
    | RecvBody b \<Rightarrow> bi_pending_rx (cl_io self) \<or> w \<in> set (ch_wakers (cc_in (cl_chans self) (br_body_tx b))))"

text \<open>The parts a round is made of; the four results of a poll map to those of the round.\<close>

lemma drive_round_cases:
  assumes "drive_round api w self = (r, self1)"
  obtains (Write) r0 io where "poll_finish_pending_write (cl_io self) = (r0, io)" "r0 \<noteq> Ok ()"
      "self1 = self\<lparr>cl_io := io\<rparr>" "r = (case r0 of Err e \<Rightarrow> Err e | Panic p \<Rightarrow> Panic p | _ \<Rightarrow> Pending)"
  | (Send) io q io1 c where "poll_finish_pending_write (cl_io self) = (Ok (), io)" "cl_state self = SendReq"
      "poll_send_req w (io, cl_chans self) = (q, io1, c)"
      "self1 = \<lparr>cl_io = io1, cl_state = (case q of Ok (Some st) \<Rightarrow> st | _ \<Rightarrow> SendReq), cl_chans = c\<rparr>"
      "r = (case q of Ok x \<Rightarrow> Ok (x \<noteq> None) | Err e \<Rightarrow> Err e | Pending \<Rightarrow> Pending | Panic p \<Rightarrow> Panic p)"
  | (Bidirect) io b q b1 io1 c where "poll_finish_pending_write (cl_io self) = (Ok (), io)" "cl_state self = RecvRes b"
      "poll_bidirect api w (b, io, cl_chans self) = (q, b1, io1, c)"
      "self1 = \<lparr>cl_io = io1, cl_state = (case q of Ok (Some st) \<Rightarrow> st | _ \<Rightarrow> RecvRes b1), cl_chans = c\<rparr>"
      "r = (case q of Ok x \<Rightarrow> Ok (x \<noteq> None) | Err e \<Rightarrow> Err e | Pending \<Rightarrow> Pending | Panic p \<Rightarrow> Panic p)"
  | (Body) io b q b1 io1 c where "poll_finish_pending_write (cl_io self) = (Ok (), io)" "cl_state self = RecvBody b"
      "poll_read_body w (b, io, cl_chans self) = (q, b1, io1, c)"
      "self1 = \<lparr>cl_io = io1, cl_state = (case q of Ok (Some st) \<Rightarrow> st | _ \<Rightarrow> RecvBody b1),
         cl_chans = (case q of Ok (Some st) \<Rightarrow> on_in (br_body_tx b1) sender_drop c | _ \<Rightarrow> c)\<rparr>"
      "r = (case q of Ok x \<Rightarrow> Ok (x \<noteq> None) | Err e \<Rightarrow> Err e | Pending \<Rightarrow> Pending | Panic p \<Rightarrow> Panic p)"
proof -
  obtain r0 io where r0: "poll_finish_pending_write (cl_io self) = (r0, io)" by fastforce
  show ?thesis
  proof (cases "r0 = Ok ()")
    case False
    with assms r0 show ?thesis by (intro Write[OF r0 False]) (cases r0; simp add: drive_round_def)+
  next
    case True
    note r0 = r0[unfolded True]
    show ?thesis
    proof (cases "cl_state self")
      case SendReq
      obtain q io1 c where q: "poll_send_req w (io, cl_chans self) = (q, io1, c)" by (metis prod_cases3)
      from assms r0 SendReq q show ?thesis
        by (intro Send[OF r0 SendReq q]) (cases q; auto simp: drive_round_def split: option.splits)+
    next
      case (RecvRes b)
      obtain q b1 io1 c where q: "poll_bidirect api w (b, io, cl_chans self) = (q, b1, io1, c)" by (metis prod_cases4)
      from assms r0 RecvRes q show ?thesis
        by (intro Bidirect[OF r0 RecvRes q]) (cases q; auto simp: drive_round_def split: option.splits)+
    next
      case (RecvBody b)
      obtain q b1 io1 c where q: "poll_read_body w (b, io, cl_chans self) = (q, b1, io1, c)" by (metis prod_cases4)
      from assms r0 RecvBody q show ?thesis
        by (intro Body[OF r0 RecvBody q]) (cases q; auto simp: drive_round_def split: option.splits)+
    qed
  qed
qed

definition client_post :: "http_api \<Rightarrow> waker \<Rightarrow> 'a res \<Rightarrow> client \<Rightarrow> bool" where
  "client_post api w r self \<longleftrightarrow>
     (case r of Ok _ \<Rightarrow> client_ok self | Pending \<Rightarrow> client_ok self \<and> client_waiting w self
      | Err _ \<Rightarrow> True | Panic p \<Rightarrow> client_panic api p)"

lemma drive_round_post:
  assumes "client_ok self" "drive_round api w self = (r, self1)"
  shows "client_post api w r self1"
  using assms(2)
proof (cases rule: drive_round_cases)
  case (Write r0 io)
  have ok: "rx_ok (cl_io self)" "tx_ok (cl_io self)" "state_ok (cl_state self)" using assms(1) by (auto simp: client_ok_def)
  note fin = poll_finish_pending_write_spec[OF ok(2) Write(1)]
  have rx: "rx_ok io" using fin same_rx_ok(1)[of "cl_io self" io] ok(1) by simp
  show ?thesis
  proof (cases r0)
    case Pending
    then have "bi_pending_tx io" using poll_finish_waits Write(1) by blast
    with Pending Write(3,4) rx fin ok(3) show ?thesis by (simp add: client_post_def client_ok_def client_waiting_def)
  qed (use fin Write in \<open>auto simp: client_post_def\<close>)
next
  case (Send io q io1 c)
  have ok: "rx_ok (cl_io self)" "tx_ok (cl_io self)" using assms(1) by (auto simp: client_ok_def)
  note fin = poll_finish_pending_write_spec[OF ok(2) Send(1)]
  have io: "rx_ok io" "tx_ok io" "can_poll_write io" using fin same_rx_ok(1)[of "cl_io self" io] ok(1) by auto
  from Send(3) io(2,3) show ?thesis
  proof (cases rule: poll_send_req_cases)
    case (Sent h qc wr)
    with poll_write_all_idle(2,3)[OF io(2,3) Sent(2)] same_rx_ok(1)[of io io1] io(1) Send(4,5) show ?thesis
      by (simp add: client_post_def client_ok_def state_ok_def bidirect_ok_def holder_ok_def)
  next
    case (Waiting qc)
    with Send(4,5) io show ?thesis by (simp add: client_post_def client_ok_def state_ok_def client_waiting_def)
  qed (use Send(4,5) io in \<open>auto simp: client_post_def client_ok_def state_ok_def client_panic_def\<close>)
next
  case (Bidirect io b q b1 io1 c)
  have ok: "rx_ok (cl_io self)" "tx_ok (cl_io self)" "bidirect_ok b"
    using assms(1) Bidirect(2) by (auto simp: client_ok_def state_ok_def)
  note fin = poll_finish_pending_write_spec[OF ok(2) Bidirect(1)]
  have io: "rx_ok io" "tx_ok io" "can_poll_write io" using fin same_rx_ok(1)[of "cl_io self" io] ok(1) by auto
  then have inv: "bidirect_inv (b, io, cl_chans self)" using ok(3) by (simp add: bidirect_inv_def)
  obtain q2 b2 io2 c2 where q2: "bidirect_loop api w (b, io, cl_chans self) = (q2, b2, io2, c2)" by (metis prod_cases4)
  note post = bidirect_loop_post[OF inv q2, unfolded bidirect_post_def split_conv]
  show ?thesis
  proof (cases q2)
    case (Ok u)
    obtain st b3 where st: "after_bidirect b2 = (st, b3)" by fastforce
    have "q = Ok st" "b1 = b3" "io1 = io2" "c = c2" using Bidirect(3) q2 Ok st by (auto simp: poll_bidirect_def)
    with post Ok after_bidirect_ok[OF _ st] Bidirect(4,5) show ?thesis
      by (auto simp: client_post_def client_ok_def state_ok_def[of "RecvRes _"] split: option.splits)
  next
    case (Err e)
    then show ?thesis using Bidirect(3,5) q2 by (auto simp: poll_bidirect_def client_post_def)
  next
    case Pending
    then have "q = Pending" "b1 = b2" "io1 = io2" "c = c2" using Bidirect(3) q2 by (auto simp: poll_bidirect_def)
    with post Pending Bidirect(4,5) show ?thesis by (auto simp: client_post_def client_ok_def state_ok_def client_waiting_def)
  next
    case (Panic p)
    then show ?thesis using Bidirect(3,5) q2 post by (auto simp: poll_bidirect_def client_post_def)
  qed
next
  case (Body io b q b1 io1 c)
  have ok: "rx_ok (cl_io self)" "tx_ok (cl_io self)" "receiver_ok b"
    using assms(1) Body(2) by (auto simp: client_ok_def state_ok_def)
  note fin = poll_finish_pending_write_spec[OF ok(2) Body(1)]
  have io: "rx_ok io" "tx_ok io" using fin same_rx_ok(1)[of "cl_io self" io] ok(1) by auto
  obtain q2 b2 io2 c2 where q2: "read_body_loop w (b, io, cl_chans self) = (q2, b2, io2, c2)" by (metis prod_cases4)
  obtain bss where loop: "body_moved (b, io, cl_chans self) bss (b2, io2, c2)" "\<forall>p. q2 \<noteq> Panic p"
    "q2 = Ok () \<or> q2 = Pending \<longrightarrow> receiver_ok b2 \<and> rx_ok io2"
    "q2 = Pending \<longrightarrow> bi_pending_rx io2 \<or> w \<in> set (ch_wakers (cc_in c2 (br_body_tx b)))"
    using read_body_loop_spec[OF q2 ok(3) io(1)] by blast
  have tx: "tx_ok io2" "br_body_tx b2 = br_body_tx b"
    using loop(1) io(2) same_tx_ok(1)[of io io2] unfolding body_moved_def reads_only_def split_conv
    by (blast, metis body_receiver.select_convs(5) body_receiver.surjective body_receiver.update_convs(4))
  show ?thesis
  proof (cases q2)
    case (Ok u)
    then have "q = Ok None \<or> q = Ok (Some SendReq)" "b1 = b2" "io1 = io2" using Body(3) q2 by (auto simp: poll_read_body_def)
    with loop(3) Ok tx Body(4,5) show ?thesis by (auto simp: client_post_def client_ok_def state_ok_def)
  next
    case (Err e)
    then show ?thesis using Body(3,5) q2 by (auto simp: poll_read_body_def client_post_def)
  next
    case Pending
    then have "q = Pending" "b1 = b2" "io1 = io2" "c = c2" using Body(3) q2 by (auto simp: poll_read_body_def)
    with loop(3,4) Pending tx Body(4,5) show ?thesis by (auto simp: client_post_def client_ok_def state_ok_def client_waiting_def)
  next
    case (Panic p)
    with loop(2) show ?thesis by blast
  qed
qed

lemma drive_rule:
  assumes "drive api w self = (r, self')" "I self"
    and "\<And>s s1. I s \<Longrightarrow> drive_round api w s = (Ok True, s1) \<Longrightarrow> I s1"
    and "\<And>s s1. I s \<Longrightarrow> drive_round api w s = (Ok False, s1) \<Longrightarrow> Q (Ok ()) s1"
    and "\<And>s s1 e. I s \<Longrightarrow> drive_round api w s = (Err e, s1) \<Longrightarrow> Q (Err e) s1"
    and "\<And>s s1. I s \<Longrightarrow> drive_round api w s = (Pending, s1) \<Longrightarrow> Q Pending s1"
    and "\<And>s s1 p. I s \<Longrightarrow> drive_round api w s = (Panic p, s1) \<Longrightarrow> Q (Panic p) s1"
  shows "Q r self'"
  using assms(1,2)
proof (induction self rule: measure_induct_rule[where f = client_size])
  case (less s)
  obtain q s1 where q: "drive_round api w s = (q, s1)" by fastforce
  show ?case
  proof (cases q)
    case (Ok x)
    show ?thesis
    proof (cases x)
      case True
      with less.prems(1) q Ok have "drive api w s1 = (r, self')" by (simp add: drive.simps[of api w s])
      with less.IH[OF drive_round_decreases] q Ok True assms(3)[OF less.prems(2)] show ?thesis by simp
    next
      case False
      with less.prems q Ok assms(4) show ?thesis by (auto simp: drive.simps[of api w s])
    qed
  qed (use less.prems q assms(5-7) in \<open>auto simp: drive.simps[of api w s]\<close>)
qed

lemma drive_post:
  assumes "client_ok self" "drive api w self = (r, self1)"
  shows "client_post api w r self1"
  using assms(2,1)
  by (rule drive_rule[where I = client_ok]) (fastforce dest: drive_round_post simp: client_post_def)+

section \<open>What is written, and in which order\<close>

definition body_ahead :: "client_chans \<Rightarrow> handle \<Rightarrow> bytes" where
  "body_ahead c h = (case h_body_rx h of None \<Rightarrow> [] | Some j \<Rightarrow> body_upto (ch_queue (cc_out c j)))"

lemma body_ahead_simps [simp]:
  "body_ahead (c\<lparr>cc_req := q\<rparr>) = body_ahead c" "body_ahead (on_in i f c) = body_ahead c"
  by (auto simp: body_ahead_def fun_eq_iff split: option.split)

definition handles :: "client \<Rightarrow> handle list" where
  "handles self = (case cl_state self of RecvRes b \<Rightarrow> [cbi_handle b] | _ \<Rightarrow> []) @ ch_queue (cc_req (cl_chans self))"

definition ids_ok :: "client \<Rightarrow> bool" where
  "ids_ok self \<longleftrightarrow> distinct (List.map_filter h_body_rx (handles self))
     \<and> (\<forall>i \<in> set (List.map_filter h_body_rx (handles self)). i < cc_fresh (cl_chans self))"

text \<open>All that the users have handed over and the connection has yet to write.\<close>

definition ahead :: "client \<Rightarrow> bytes" where
  "ahead self = (case cl_state self of RecvRes b \<Rightarrow> body_ahead (cl_chans self) (cbi_handle b) | _ \<Rightarrow> [])
     @ concat (map (\<lambda>h. head_of (h_req h) @ body_ahead (cl_chans self) h) (ch_queue (cc_req (cl_chans self))))"

lemma ahead_io [simp]: "ahead (self\<lparr>cl_io := io\<rparr>) = ahead self" "handles (self\<lparr>cl_io := io\<rparr>) = handles self"
  by (cases "cl_state self"; simp add: ahead_def handles_def)+

text \<open>Two states of the loop over response and body: what one has to write, the other has written or will.\<close>

definition sends_on :: "bool \<Rightarrow> bidirect_state \<Rightarrow> bidirect_state \<Rightarrow> bool" where
  "sends_on good = (\<lambda>(b, io, c) (b1, io1, c1).
     cc_req c1 = cc_req c \<and> cc_fresh c \<le> cc_fresh c1 \<and> (\<forall>k. h_body_rx (cbi_handle b) \<noteq> Some k \<longrightarrow> cc_out c1 k = cc_out c k)
     \<and> (h_body_rx (cbi_handle b1) = None \<or> h_body_rx (cbi_handle b1) = h_body_rx (cbi_handle b))
     \<and> prefix (out_stream io) (out_stream io1) \<and> prefix (out_stream io1) (out_stream io @ body_ahead c (cbi_handle b))
     \<and> (good \<longrightarrow> out_stream io1 @ body_ahead c1 (cbi_handle b1) = out_stream io @ body_ahead c (cbi_handle b)))"

lemma sends_on_refl [simp]: "sends_on g s s"
  by (cases s) (simp add: sends_on_def)

lemma sends_on_trans:
  assumes "sends_on True s s1" "sends_on g s1 s2"
  shows "sends_on g s s2"
proof -
  obtain b io c b1 io1 c1 b2 io2 c2 where s: "s = (b, io, c)" "s1 = (b1, io1, c1)" "s2 = (b2, io2, c2)"
    by (metis prod_cases3)
  from assms show ?thesis unfolding s sends_on_def split_conv 
    by (auto intro: prefix_order.trans; metis option.distinct(1))
qed

lemma poll_response_sends:
  assumes "poll_response api (b, io, c) = (r, b1, io1, c1)" "res_waits (b, io, c)" "rx_ok io" "\<forall>p. r \<noteq> Panic p" "bidirect_ok b"
  shows "sends_on True (b, io, c) (b1, io1, c1)"
proof -
  have "same_tx io io1" using poll_response_ok(2)[OF assms(1) _ assms(3,5)] assms(2,4) by (auto simp: res_waits_def)
  with poll_response_frame[OF assms(1)] same_tx_ok(3)[of io io1] show ?thesis
    by (auto simp: sends_on_def body_ahead_def split: option.split)
qed

lemma poll_send_body_sends:
  assumes "poll_send_body w (b, io, c) = (r, b1, io1, c1)" "body_waits (b, io, c)" "tx_ok io" "can_poll_write io"
  shows "sends_on (r = Ok () \<or> r = Pending) (b, io, c) (b1, io1, c1)"
proof -
  obtain j where j: "h_body_rx (cbi_handle b) = Some j" using assms(2) by (auto simp: body_waits_def)
  from assms(1) j assms(3,4) show ?thesis
  proof (cases rule: poll_send_body_cases)
    case (Piece chunk eob q)
    note idle = poll_write_all_idle[OF assms(3,4) Piece(2)]
    have q: "ch_queue (cc_out c j) = (chunk, eob) # ch_queue q" using poll_recv_Some_queue[OF Piece(1)] .
    have "prefix (out_stream io1) (out_stream io @ chunk)"
    proof (cases r)
      case (Err e)
      with idle(9) show ?thesis by blast
    next
      case (Panic p)
      with idle(4) show ?thesis by blast
    qed (use idle(7) in simp_all)
    then have "prefix (out_stream io1) (out_stream io @ chunk @ x)" for x by (metis append.assoc prefix_prefix)
    with Piece(3,4) idle(7,8) j q show ?thesis by (auto simp: sends_on_def body_ahead_def)
  next
    case (Dropped q)
    with j show ?thesis by (auto simp: sends_on_def)
  next
    case (Waiting q)
    then have "ch_queue (cc_out c j) = ch_queue q" by (auto simp: chan_defs split: list.splits if_splits)
    with Waiting j show ?thesis by (auto simp: sends_on_def body_ahead_def)
  qed
qed

lemma bidirect_round_sends:
  assumes "bidirect_inv s" "bidirect_round api w s = (r, s2)" "\<forall>p. r \<noteq> Panic p"
  shows "sends_on (r = Ok () \<or> r = Pending) s s2"
proof -
  obtain b io c where s: "s = (b, io, c)" by (metis prod_cases3)
  have inv: "rx_ok io" "tx_ok io" "can_poll_write io" "bidirect_ok b" using assms(1) by (auto simp: s bidirect_inv_def)
  obtain q1 b1 io1 c1 where q1: "poll_if (res_waits s) (poll_response api) s = (q1, b1, io1, c1)" by (metis prod_cases4)
  have first: "(\<forall>p. q1 \<noteq> Panic p) \<longrightarrow> sends_on True s (b1, io1, c1) \<and> tx_ok io1 \<and> can_poll_write io1"
  proof (cases "res_waits s")
    case False
    with q1 inv s show ?thesis by auto
  next
    case True
    obtain r1 b2 io2 c2 where r1: "poll_response api (b, io, c) = (r1, b2, io2, c2)" by (metis prod_cases4)
    have eq: "b1 = b2" "io1 = io2" "c1 = c2" "(\<forall>p. q1 \<noteq> Panic p) \<longrightarrow> (\<forall>p. r1 \<noteq> Panic p)"
      using q1 r1 s True by (cases r1; auto simp: poll_if_True)+
    note sends = poll_response_sends[OF r1 True[unfolded s] inv(1) _ inv(4)]
    have "(\<forall>p. r1 \<noteq> Panic p) \<Longrightarrow> same_tx io io2"
      using poll_response_ok(2)[OF r1 _ inv(1,4)] True s by (auto simp: res_waits_def)
    with sends eq s same_tx_ok[of io io2] inv(2,3) show ?thesis by auto
  qed
  show ?thesis
  proof (cases "\<exists>a. q1 = Ok a")
    case False
    with assms(2) q1 have "s2 = (b1, io1, c1)" "r = (case q1 of Err e \<Rightarrow> Err e | Panic p \<Rightarrow> Panic p | _ \<Rightarrow> Pending)"
      by (cases q1; simp add: bidirect_round_def)+
    with first assms(3) show ?thesis
      by (cases q1) (auto simp: sends_on_def)
  next
    case True
    then obtain a where a: "q1 = Ok a" by blast
    with first have ok1: "sends_on True s (b1, io1, c1)" "tx_ok io1" "can_poll_write io1" by auto
    obtain q2 b2 io2 c2 where q2: "poll_if (body_waits (b1, io1, c1)) (poll_send_body w) (b1, io1, c1) = (q2, b2, io2, c2)"
      by (metis prod_cases4)
    have s2: "s2 = (b2, io2, c2)" "r = Ok () \<or> r = Pending \<Longrightarrow> \<exists>d. q2 = Ok d \<or> q2 = Pending"
      using assms(2) q1 a q2 by (cases q2; auto simp: bidirect_round_def)+
    show ?thesis
    proof (cases "body_waits (b1, io1, c1)")
      case False
      with q2 s2 ok1(1) show ?thesis by (cases "r = Ok () \<or> r = Pending") (auto simp: sends_on_def)
    next
      case True
      obtain r1 b3 io3 c3 where r1: "poll_send_body w (b1, io1, c1) = (r1, b3, io3, c3)" by (metis prod_cases4)
      have eq: "b2 = b3" "io2 = io3" "c2 = c3" "\<exists>d. q2 = Ok d \<or> q2 = Pending \<Longrightarrow> r1 = Ok () \<or> r1 = Pending"
        using q2 r1 True by (cases r1; auto simp: poll_if_True)+
      have "sends_on (r1 = Ok () \<or> r1 = Pending) s s2"
        using sends_on_trans[OF ok1(1) poll_send_body_sends[OF r1 True ok1(2,3)]] eq s2(1) by simp
      moreover have "r = Ok () \<or> r = Pending \<Longrightarrow> r1 = Ok () \<or> r1 = Pending" using eq(4) s2(2) by blast
      ultimately show ?thesis by (cases s; cases s2) (auto simp: sends_on_def)
    qed
  qed
qed

lemma bidirect_loop_sends:
  assumes "bidirect_inv s" "bidirect_loop api w s = (r, s1)" "\<forall>p. r \<noteq> Panic p"
  shows "sends_on (r = Ok () \<or> r = Pending) s s1" "r = Ok () \<Longrightarrow> \<not> res_waits s1 \<and> \<not> body_waits s1"
proof -
  let ?I = "\<lambda>s1. bidirect_inv s1 \<and> sends_on True s s1"
  let ?Q = "\<lambda>r s1. (\<forall>p. r \<noteq> Panic p) \<longrightarrow> sends_on (r = Ok () \<or> r = Pending) s s1
    \<and> (r = Ok () \<longrightarrow> \<not> res_waits s1 \<and> \<not> body_waits s1)"
  have "?Q r s1"
  proof (rule bidirect_loop_rule[where I = ?I and Q = ?Q, OF assms(2)], goal_cases)
    case 1
    then show ?case using assms(1) by simp
  next
    case (2 s2 s3)
    have "bidirect_post api w (Ok ()) s3" using bidirect_round_post 2 by (cases s2) blast
    then have "bidirect_inv s3" by (auto simp: bidirect_post_def bidirect_inv_def)
    moreover have "sends_on True s2 s3" using bidirect_round_sends[of s2 api w "Ok ()" s3] 2 by simp
    ultimately show ?case using sends_on_trans 2(1) by blast
  next
    case (3 s2 r s3)
    with bidirect_round_sends[of s2 api w r s3] sends_on_trans show ?case by blast
  next
    case (4 s2)
    then show ?case by simp
  qed
  with assms(3) show "sends_on (r = Ok () \<or> r = Pending) s s1" "r = Ok () \<Longrightarrow> \<not> res_waits s1 \<and> \<not> body_waits s1" by auto
qed

definition handed_on :: "bool \<Rightarrow> client \<Rightarrow> client \<Rightarrow> bool" where
  "handed_on good s s1 \<longleftrightarrow>
     prefix (out_stream (cl_io s)) (out_stream (cl_io s1))
     \<and> prefix (out_stream (cl_io s1)) (out_stream (cl_io s) @ ahead s)
     \<and> (good \<longrightarrow> ids_ok s1 \<and> out_stream (cl_io s1) @ ahead s1 = out_stream (cl_io s) @ ahead s)"

lemma bodies_frame:
  assumes "\<And>h k. h \<in> set hs \<Longrightarrow> h_body_rx h = Some k \<Longrightarrow> cc_out c1 k = cc_out c k"
  shows "map (\<lambda>h. head_of (h_req h) @ body_ahead c1 h) hs = map (\<lambda>h. head_of (h_req h) @ body_ahead c h) hs"
  using assms by (auto simp: body_ahead_def split: option.split)

lemma drive_round_sends:
  assumes "client_ok self" "ids_ok self" "drive_round api w self = (r, self1)" "\<forall>p. r \<noteq> Panic p"
  shows "handed_on ((\<exists>x. r = Ok x) \<or> r = Pending) self self1"
  using assms(3)
proof (cases rule: drive_round_cases)
  case (Write r0 io)
  have "tx_ok (cl_io self)" using assms(1) by (simp add: client_ok_def)
  from poll_finish_pending_write_spec[OF this Write(1)] Write(3) assms(2) show ?thesis
    by (simp add: handed_on_def ids_ok_def)
next
  case (Send io q io1 c)
  have ok: "tx_ok (cl_io self)" using assms(1) by (simp add: client_ok_def)
  note fin = poll_finish_pending_write_spec[OF ok Send(1)]
  have io: "tx_ok io" "can_poll_write io" "out_stream io = out_stream (cl_io self)" using fin by auto
  from Send(3) io(1,2) show ?thesis
  proof (cases rule: poll_send_req_cases)
    case (Sent h qc wr)
    have "ch_queue (cc_req (cl_chans self)) = h # ch_queue qc" using poll_recv_Some_queue[OF Sent(1)] .
    moreover have "out_stream io1 = out_stream io @ head_of (h_req h)"
      using poll_write_all_idle(7)[OF io(1,2) Sent(2)] Sent(3) by blast
    ultimately show ?thesis using Send(2,4) Sent(4,5) io(3) assms(2)
      by (auto simp: handed_on_def ahead_def ids_ok_def handles_def)
  next
    case (Failed h qc e)
    have q: "ch_queue (cc_req (cl_chans self)) = h # ch_queue qc" using poll_recv_Some_queue[OF Failed(1)] .
    have "prefix (out_stream io) (out_stream io1) \<and> prefix (out_stream io1) (out_stream io @ head_of (h_req h))"
      using Failed(4) poll_write_all_idle(8,9)[OF io(1,2)] by auto
    then have "prefix (out_stream io) (out_stream io1)" "prefix (out_stream io1) ((out_stream io @ head_of (h_req h)) @ x)" for x
      by (blast, meson prefix_prefix)
    then show ?thesis using Send(2,4,5) Failed(2) io(3) q by (auto simp: handed_on_def ahead_def)
  next
    case (Version h qc)
    with Send(5) assms(4) show ?thesis by simp
  next
    case (Closed qc)
    then have "ch_queue qc = ch_queue (cc_req (cl_chans self))" by (auto simp: chan_defs split: list.splits if_splits)
    with Closed Send(2,4,5) io(3) assms(2) show ?thesis
      by (simp add: handed_on_def ahead_def ids_ok_def handles_def)
  next
    case (Waiting qc)
    then have "ch_queue qc = ch_queue (cc_req (cl_chans self))" by (auto simp: chan_defs split: list.splits if_splits)
    with Waiting Send(2,4,5) io(3) assms(2) show ?thesis
      by (simp add: handed_on_def ahead_def ids_ok_def handles_def)
  qed
next
  case (Bidirect io b q b1 io1 c)
  have ok: "rx_ok (cl_io self)" "tx_ok (cl_io self)" "bidirect_ok b"
    using assms(1) Bidirect(2) by (auto simp: client_ok_def state_ok_def)
  note fin = poll_finish_pending_write_spec[OF ok(2) Bidirect(1)]
  have io: "rx_ok io" "tx_ok io" "can_poll_write io" "out_stream io = out_stream (cl_io self)"
    using fin same_rx_ok(1)[of "cl_io self" io] ok(1) by auto
  then have inv: "bidirect_inv (b, io, cl_chans self)" using ok(3) by (simp add: bidirect_inv_def)
  obtain q2 b2 io2 c2 where q2: "bidirect_loop api w (b, io, cl_chans self) = (q2, b2, io2, c2)" by (metis prod_cases4)
  have eq: "io1 = io2" "c = c2" "cbi_handle b1 = cbi_handle b2" "(\<forall>p. q2 \<noteq> Panic p)"
    "((\<exists>x. r = Ok x) \<or> r = Pending) = (q2 = Ok () \<or> q2 = Pending)"
    "q2 = Ok () \<Longrightarrow> \<exists>st. q = Ok st \<and> (\<forall>b. st \<noteq> Some (RecvRes b))" "q2 \<noteq> Ok () \<Longrightarrow> \<forall>st. q \<noteq> Ok st"
    using Bidirect(3,5) q2 assms(4)
    by (cases q2; auto simp: poll_bidirect_def after_bidirect_def Let_def split: prod.splits option.splits if_splits)+
  note sends = bidirect_loop_sends[OF inv q2 eq(4)]
  note on = sends(1)[unfolded sends_on_def split_conv]
  let ?hs = "ch_queue (cc_req (cl_chans self))"
  have ids: "distinct (List.map_filter h_body_rx (cbi_handle b # ?hs))"
    "\<forall>i \<in> set (List.map_filter h_body_rx (cbi_handle b # ?hs)). i < cc_fresh (cl_chans self)"
    using assms(2) Bidirect(2) by (simp_all add: ids_ok_def handles_def)
  have rest: "map (\<lambda>h. head_of (h_req h) @ body_ahead c2 h) ?hs = map (\<lambda>h. head_of (h_req h) @ body_ahead (cl_chans self) h) ?hs"
  proof (rule bodies_frame)
    fix h k
    assume "h \<in> set ?hs" "h_body_rx h = Some k"
    then have "h_body_rx (cbi_handle b) \<noteq> Some k" using ids by (auto simp: map_filter_Cons set_map_filter)
    with on show "cc_out c2 k = cc_out (cl_chans self) k" by blast
  qed
  have self1: "cl_chans self1 = c2" "cl_io self1 = io2" using Bidirect(4) eq(1,2) by simp_all
  have state: "cl_state self1 = RecvRes b1 \<or> (\<forall>b. cl_state self1 \<noteq> RecvRes b) \<and> h_body_rx (cbi_handle b2) = None"
  proof (cases "q2 = Ok ()")
    case True
    with eq(6) obtain st where "q = Ok st" "\<forall>b. st \<noteq> Some (RecvRes b)" by blast
    moreover have "h_body_rx (cbi_handle b2) = None" using sends(2)[OF True] by (simp add: body_waits_def)
    ultimately show ?thesis using Bidirect(4) by (cases st) auto
  next
    case False
    with eq(7) have "\<forall>st. q \<noteq> Ok st" by blast
    with Bidirect(4) show ?thesis by (cases q) auto
  qed
  have fresh: "cc_fresh (cl_chans self) \<le> cc_fresh c2" using on by blast
  have ids1: "distinct (List.map_filter h_body_rx (cbi_handle b2 # ?hs))"
    "\<forall>i \<in> set (List.map_filter h_body_rx (cbi_handle b2 # ?hs)). i < cc_fresh c2"
    using ids on less_le_trans[OF _ fresh] by (auto simp: map_filter_Cons split: option.splits)
  have hs: "handles self1 = cbi_handle b2 # ?hs \<or> handles self1 = ?hs"
    using state self1(1) on eq(3) by (auto simp: handles_def split: client_state.split)
  with ids1 have "ids_ok self1" unfolding ids_ok_def self1(1)
    by (elim disjE) (simp_all add: map_filter_Cons split: option.splits)
  moreover have "ahead self1 = body_ahead c2 (cbi_handle b2)
      @ concat (map (\<lambda>h. head_of (h_req h) @ body_ahead (cl_chans self) h) ?hs)"
    unfolding rest[symmetric] using state
  proof (elim disjE conjE)
    assume "cl_state self1 = RecvRes b1"
    then show "ahead self1 = body_ahead c2 (cbi_handle b2) @ concat (map (\<lambda>h. head_of (h_req h) @ body_ahead c2 h) ?hs)"
      using self1(1) on eq(3) by (simp add: ahead_def)
  next
    assume "\<forall>b. cl_state self1 \<noteq> RecvRes b" "h_body_rx (cbi_handle b2) = None"
    then show "ahead self1 = body_ahead c2 (cbi_handle b2) @ concat (map (\<lambda>h. head_of (h_req h) @ body_ahead c2 h) ?hs)"
      using self1(1) on by (cases "cl_state self1") (simp_all add: ahead_def body_ahead_def[of c2 "cbi_handle b2"])
  qed
  moreover have "ahead self = body_ahead (cl_chans self) (cbi_handle b)
      @ concat (map (\<lambda>h. head_of (h_req h) @ body_ahead (cl_chans self) h) ?hs)"
    using Bidirect(2) by (simp add: ahead_def)
  moreover have "prefix (out_stream io2) ((out_stream io @ body_ahead (cl_chans self) (cbi_handle b)) @ x)" for x
    using on by (meson prefix_prefix)
  ultimately show ?thesis using on self1 eq(5) io(4)
    unfolding handed_on_def by (simp flip: append_assoc)
next
  case (Body io b q b1 io1 c)
  have ok: "rx_ok (cl_io self)" "tx_ok (cl_io self)" "receiver_ok b"
    using assms(1) Body(2) by (auto simp: client_ok_def state_ok_def)
  note fin = poll_finish_pending_write_spec[OF ok(2) Body(1)]
  have io: "rx_ok io" "out_stream io = out_stream (cl_io self)"
    using fin same_rx_ok(1)[of "cl_io self" io] ok(1) by auto
  obtain q2 b2 io2 c2 where q2: "read_body_loop w (b, io, cl_chans self) = (q2, b2, io2, c2)" by (metis prod_cases4)
  obtain bss where mv: "body_moved (b, io, cl_chans self) bss (b2, io2, c2)" using read_body_loop_spec[OF q2 ok(3) io(1)] by blast
  have eq: "io1 = io2" "c = c2" "\<forall>st. q = Ok (Some st) \<longrightarrow> st = SendReq"
    using Body(3) q2 by (cases q2; auto simp: poll_read_body_def split: if_splits)+
  have "out_stream io2 = out_stream io" "c2 = on_in (br_body_tx b) (\<lambda>_. cc_in c2 (br_body_tx b)) (cl_chans self)"
    using mv same_tx_ok(3)[of io io2] unfolding body_moved_def reads_only_def split_conv by blast+
  then obtain f where f: "out_stream io2 = out_stream io" "c2 = on_in (br_body_tx b) f (cl_chans self)" by blast
  have st: "cl_state self1 = SendReq \<or> cl_state self1 = RecvBody b1"
    "cl_chans self1 = c2 \<or> cl_chans self1 = on_in (br_body_tx b1) sender_drop c2"
    using Body(4) eq(2,3) by (cases q; cases "q = Ok None"; auto split: option.splits)+
  have ch: "cc_req (cl_chans self1) = cc_req (cl_chans self)" "cc_fresh (cl_chans self1) = cc_fresh (cl_chans self)" "body_ahead (cl_chans self1) = body_ahead (cl_chans self)"
    using st(2) f(2) by auto
  have hd: "handles self1 = handles self" "ahead self1 = ahead self"
    using Body(2) st(1) by (auto simp: ahead_def handles_def ch)
  show ?thesis unfolding handed_on_def ids_ok_def hd ch(2) using Body(4) eq(1) f(1) io(2) assms(2) by (simp add: ids_ok_def)
qed

lemma handed_on_trans: "handed_on True s s1 \<Longrightarrow> handed_on g s1 s2 \<Longrightarrow> handed_on g s s2"
  unfolding handed_on_def using prefix_order.trans by metis

lemma drive_sends:
  assumes "client_ok self" "ids_ok self" "drive api w self = (r, self1)" "\<forall>p. r \<noteq> Panic p"
  shows "handed_on (r = Ok () \<or> r = Pending) self self1"
proof -
  let ?I = "\<lambda>s. client_ok s \<and> ids_ok s \<and> handed_on True self s"
  have step: "handed_on ((\<exists>x. q = Ok x) \<or> q = Pending) self s1 \<and> (q = Ok True \<longrightarrow> ?I s1)"
    if "?I s" "drive_round api w s = (q, s1)" "\<forall>p. q \<noteq> Panic p" for q s s1
  proof -
    have on: "handed_on ((\<exists>x. q = Ok x) \<or> q = Pending) self s1"
      using handed_on_trans drive_round_sends[OF _ _ that(2,3)] that(1) by blast
    moreover have "client_ok s1 \<and> ids_ok s1" if "q = Ok True"
      using drive_round_post[OF _ \<open>drive_round api w s = (q, s1)\<close>] \<open>?I s\<close> on that
      by (auto simp: client_post_def handed_on_def)
    moreover have "handed_on True self s1" if "q = Ok True" using on that by (metis (full_types))
    ultimately show ?thesis by blast
  qed
  have "(\<forall>p. r \<noteq> Panic p) \<longrightarrow> handed_on (r = Ok () \<or> r = Pending) self self1"
  proof (rule drive_rule[where I = ?I and Q = "\<lambda>r s. (\<forall>p. r \<noteq> Panic p) \<longrightarrow> handed_on (r = Ok () \<or> r = Pending) self s", OF assms(3)], goal_cases)
    case 1
    then show ?case using assms by (simp add: handed_on_def)
  next
    case (2 s s1)
    then show ?case using step[of s "Ok True" s1] by simp
  next
    case (3 s s1)
    then show ?case using step[of s "Ok False" s1] by (auto simp: ex_bool_eq)
  next
    case (4 s s1 e)
    then show ?case using step[of s "Err e" s1] by auto
  next
    case (5 s s1)
    then show ?case using step[of s Pending s1] by auto
  qed simp
  with assms(4) show ?thesis by blast
qed

end
