(* ===== verification/Client_Body.thy ===== *)
theory Client_Body
  imports Client_Proofs
begin

text \<open>
  The body of a response on its way from the connection to the user: the connection is polled in the
  state \<open>RecvBody\<close> and the user reads the stream, in any order. Every byte the limiter delivers
  reaches the user once and in order; a body that arrives in full is delivered in full, with any
  buffer; and the connection goes on to the next request exactly at the byte after it.
\<close>

section \<open>A body that arrives in full\<close>

lemma receiver_round_fine:
  assumes "receiver_ok b" "rx_ok io" "\<not> lr_is_complete (br_limit b)" "lr_fine (br_limit b, io)"
    "receiver_round w (b, io, c) = (r, b1, io1, c1)"
  shows "(\<forall>e. r \<noteq> Err e) \<and> lr_fine (br_limit b1, io1) \<and> lr_beyond (br_limit b1, io1) = lr_beyond (br_limit b, io)
    \<and> (chan_open (cc_in c (br_body_tx b)) \<longrightarrow> length (ch_queue (cc_in c (br_body_tx b))) < ch_bound (cc_in c (br_body_tx b)) \<longrightarrow>
         lr_is_complete (br_limit b1) \<or> io_size io1 < io_size io)"
proof -
  have n: "0 < br_cur_read_size b" and l: "lr_ok (br_limit b, io)" using assms(1,2) by (auto simp: receiver_ok_def lr_ok_iff)
  obtain q qc where q: "sender_poll_ready w True (cc_in c (br_body_tx b)) = (q, qc)" by fastforce
  from sender_poll_ready_cases[OF q] show ?thesis
  proof (elim disjE exE conjE)
    assume "q = Pending"
    with q assms(4,5) show ?thesis
      by (auto simp: receiver_round_def sender_poll_ready_def inner_poll_ready_def chan_open_def split: if_splits)
  next
    fix x
    assume x: "q = Ok x"
    obtain r1 l1 io2 where r1: "lr_poll_read (br_cur_read_size b) (br_limit b, io) = (r1, l1, io2)" by (metis prod_cases3)
    note prog = lr_poll_progress[OF l n assms(4,3) r1] and empty = lr_poll_empty[OF l n assms(4)]
    have "br_limit b1 = l1" "io1 = io2"
      "r = (case r1 of Ok bs \<Rightarrow> if bs = [] \<and> \<not> lr_is_complete l1 then Err (IoError UnexpectedEof ''Partial body'') else Ok ()
        | Err e \<Rightarrow> Err e | Pending \<Rightarrow> Pending | Panic p \<Rightarrow> Panic p)"
      using assms(5) q x r1 by (auto simp: receiver_round_def split: res.splits)
    with prog empty[of l1 io2] r1 show ?thesis by (cases r1) auto
  qed
qed

lemma read_body_loop_fine:
  assumes "read_body_loop w (b, io, c) = (r, b1, io1, c1)" "receiver_ok b" "rx_ok io" "lr_fine (br_limit b, io)"
  shows "(\<forall>e. r \<noteq> Err e) \<and> lr_fine (br_limit b1, io1) \<and> lr_beyond (br_limit b1, io1) = lr_beyond (br_limit b, io)"
proof -
  let ?I = "\<lambda>(b1, io1, c1 :: client_chans). lr_fine (br_limit b1, io1) \<and> lr_beyond (br_limit b1, io1) = lr_beyond (br_limit b, io)"
  let ?Q = "\<lambda>r s. (\<forall>e. r \<noteq> Err e) \<and> ?I s"
  have "?Q r (b1, io1, c1)"
  proof (rule read_body_loop_rule[where I = ?I and Q = ?Q, OF assms(1-3)], goal_cases)
    case 1
    then show ?case using assms(4) by simp
  next
    case (2 b2 io2 c2 s1)
    obtain b3 io3 c3 where s1: "s1 = (b3, io3, c3)" by (metis prod_cases3)
    from receiver_round_fine[OF 2(2,3,4) _ 2(5)[unfolded s1]] 2(1) s1 show ?case by auto
  next
    case (3 b2 io2 c2 q s1)
    obtain b3 io3 c3 where s1: "s1 = (b3, io3, c3)" by (metis prod_cases3)
    from receiver_round_fine[OF 3(2,3,4) _ 3(5)[unfolded s1]] 3(1) s1 show ?case by auto
  next
    case (4 b2 io2 c2)
    then show ?case by simp
  qed
  then show ?thesis by simp
qed

lemma read_body_loop_progress:
  assumes "read_body_loop w (b, io, c) = (r, b1, io1, c1)" "receiver_ok b" "rx_ok io" "lr_fine (br_limit b, io)"
    "chan_open (cc_in c (br_body_tx b))" "ch_queue (cc_in c (br_body_tx b)) = []" "0 < ch_bound (cc_in c (br_body_tx b))"
  shows "lr_is_complete (br_limit b1) \<or> io_size io1 < io_size io"
proof (cases "lr_is_complete (br_limit b)")
  case True
  with assms(1) show ?thesis by (simp add: read_body_loop.simps)
next
  case False
  obtain q b2 io2 c2 where q: "receiver_round w (b, io, c) = (q, b2, io2, c2)" by (metis prod_cases4)
  note fine = receiver_round_fine[OF assms(2,3) False assms(4) q]
  have prog: "lr_is_complete (br_limit b2) \<or> io_size io2 < io_size io" using fine assms(5-7) by simp
  have rest: "ready (q, b2, io2, c2) (\<lambda>_ s1. read_body_loop w s1) = (r, b1, io1, c1)"
    using assms(1) read_body_loop_round[OF assms(2,3)] False q by simp
  show ?thesis
  proof (cases q)
    case (Ok u)
    with rest have loop: "read_body_loop w (b2, io2, c2) = (r, b1, io1, c1)" by simp
    have ok: "receiver_ok b2" "rx_ok io2" using receiver_round_spec[OF assms(2,3) q] Ok by auto
    show ?thesis
    proof (cases "lr_is_complete (br_limit b2)")
      case True
      with loop show ?thesis by (simp add: read_body_loop.simps)
    next
      case False
      have "io_size io1 \<le> io_size io2"
        using read_body_loop_spec[OF loop ok] unfolding body_moved_def reads_only_def split_conv by blast
      with prog False show ?thesis by simp
    qed
  qed (use rest prog in auto)
qed

section \<open>The connection and the reader\<close>

lemma body_moved_tx: "body_moved (b, io, c) bss (b1, io1, c1) \<Longrightarrow> br_body_tx b1 = br_body_tx b"
  unfolding body_moved_def split_conv
  by (metis body_receiver.select_convs(5) body_receiver.surjective body_receiver.update_convs(4))

text \<open>One poll of the connection, seen from the channel.\<close>

lemma poll_read_body_moves:
  assumes "poll_read_body w (b, io, c) = (r, b1, io1, c1)" "receiver_ok b" "rx_ok io" "rs_live (rs, cc_in c (br_body_tx b))"
  shows "\<exists>bss. br_body_tx b1 = br_body_tx b \<and> rs_live (rs, cc_in c1 (br_body_tx b))
    \<and> ch_bound (cc_in c1 (br_body_tx b)) = ch_bound (cc_in c (br_body_tx b))
    \<and> (tidy (rs, cc_in c (br_body_tx b)) \<longrightarrow> tidy (rs, cc_in c1 (br_body_tx b)))
    \<and> rs_stream (rs, cc_in c1 (br_body_tx b)) = rs_stream (rs, cc_in c (br_body_tx b)) @ concat bss
    \<and> prefix (concat bss) (lr_stream (br_limit b, io)) \<and> (\<forall>p. r \<noteq> Panic p) \<and> io_size io1 \<le> io_size io
    \<and> ((\<forall>e. r \<noteq> Err e) \<longrightarrow> receiver_ok b1 \<and> rx_ok io1
         \<and> lr_stream (br_limit b, io) = concat bss @ lr_stream (br_limit b1, io1))
    \<and> (lr_fine (br_limit b, io) \<longrightarrow> (\<forall>e. r \<noteq> Err e) \<and> lr_fine (br_limit b1, io1)
         \<and> lr_beyond (br_limit b1, io1) = lr_beyond (br_limit b, io)
         \<and> (ch_queue (cc_in c (br_body_tx b)) = [] \<longrightarrow> 0 < ch_bound (cc_in c (br_body_tx b)) \<longrightarrow>
              lr_is_complete (br_limit b1) \<or> io_size io1 < io_size io))"
proof -
  let ?j = "br_body_tx b"
  obtain q b2 io2 c2 where q: "read_body_loop w (b, io, c) = (q, b2, io2, c2)" by (metis prod_cases4)
  have eq: "b1 = b2" "io1 = io2" "c1 = c2" "(\<forall>e. r \<noteq> Err e) \<longleftrightarrow> (\<forall>e. q \<noteq> Err e)" "(\<forall>p. r \<noteq> Panic p) \<longleftrightarrow> (\<forall>p. q \<noteq> Panic p)"
    using assms(1) q by (cases q; auto simp: poll_read_body_def)+
  obtain bss where bss: "body_moved (b, io, c) bss (b1, io1, c1)" "prefix (concat bss) (lr_stream (br_limit b, io))"
    "\<forall>p. q \<noteq> Panic p" "q = Ok () \<or> q = Pending \<longrightarrow> receiver_ok b1 \<and> rx_ok io1
         \<and> lr_stream (br_limit b, io) = concat bss @ lr_stream (br_limit b1, io1)"
    using read_body_loop_spec[OF q assms(2,3)] eq by blast
  have op: "chan_open (cc_in c ?j)" "0 < ch_senders (cc_in c ?j)" "\<forall>m \<in> set (ch_queue (cc_in c ?j)). \<exists>v. m = Inr v"
    "\<not> rs_ended rs" "rs_ok (rs, cc_in c ?j)"
    using assms(4) by (auto simp: rs_live_def)
  have mv: "chan_open (cc_in c1 ?j)" "ch_queue (cc_in c1 ?j) = ch_queue (cc_in c ?j) @ map Inr bss"
    "ch_senders (cc_in c1 ?j) = ch_senders (cc_in c ?j)" "[] \<notin> set bss" "ch_bound (cc_in c1 ?j) = ch_bound (cc_in c ?j)"
    "io_size io1 \<le> io_size io"
    using bss(1) op(1) unfolding body_moved_def reads_only_def split_conv by blast+
  have cb: "chunk_bytes (map Inr bss) = concat bss" by (induction bss) simp_all
  have "rs_live (rs, cc_in c1 ?j)" using op mv by (auto simp: rs_live_def rs_ok_def)
  moreover have "rs_stream (rs, cc_in c1 ?j) = rs_stream (rs, cc_in c ?j) @ concat bss"
    using op(3,4) mv(2) cb by (simp add: rs_stream_def chunk_bytes_append)
  moreover have "tidy (rs, cc_in c ?j) \<longrightarrow> tidy (rs, cc_in c1 ?j)" using mv(2,4) by (auto simp: tidy_def)
  moreover have "(\<forall>e. r \<noteq> Err e) \<longrightarrow> q = Ok () \<or> q = Pending" using eq(4) bss(3) by (cases q) auto
  moreover have "lr_fine (br_limit b, io) \<longrightarrow> (\<forall>e. r \<noteq> Err e) \<and> lr_fine (br_limit b1, io1)
         \<and> lr_beyond (br_limit b1, io1) = lr_beyond (br_limit b, io)"
    using read_body_loop_fine[OF q assms(2,3)] eq by blast
  moreover have "lr_fine (br_limit b, io) \<longrightarrow> ch_queue (cc_in c ?j) = [] \<longrightarrow> 0 < ch_bound (cc_in c ?j) \<longrightarrow>
      lr_is_complete (br_limit b1) \<or> io_size io1 < io_size io"
    using read_body_loop_progress[OF q assms(2,3) _ op(1)] eq by blast
  ultimately show ?thesis using body_moved_tx[OF bss(1)] bss(2-4) mv(5,6) eq(5) by (intro exI[of _ bss]) blast
qed

text \<open>
  A history: \<open>None\<close> polls the connection in its state, \<open>Some n\<close> is a read of the user with a
  buffer of \<open>n\<close> bytes. It ends at the first error of the connection. The result is what the user
  has read.
\<close>

type_synonym reading = "recv_stream \<times> receiver_state"

fun body_run :: "waker \<Rightarrow> waker \<Rightarrow> nat option list \<Rightarrow> reading \<Rightarrow> bytes \<times> reading" where
  "body_run w w2 [] s = ([], s)"
| "body_run w w2 (None # ops) (rs, s) = (case poll_read_body w s of
      (Ok _, s1) \<Rightarrow> body_run w w2 ops (rs, s1)
    | (Pending, s1) \<Rightarrow> body_run w w2 ops (rs, s1)
    | (_, s1) \<Rightarrow> ([], (rs, s1)))"
| "body_run w w2 (Some n # ops) (rs, b, io, c) = (case poll_body_data w2 n (rs, cc_in c (br_body_tx b)) of
      (r, rs1, q) \<Rightarrow> (case body_run w w2 ops (rs1, b, io, on_in (br_body_tx b) (\<lambda>_. q) c) of
        (out, s1) \<Rightarrow> ((case r of Ok bs \<Rightarrow> bs | _ \<Rightarrow> []) @ out, s1)))"

text \<open>What the user can read already, and what is still to come from the connection.\<close>

definition at_hand :: "reading \<Rightarrow> bytes" where
  "at_hand = (\<lambda>(rs, b, io, c). rs_stream (rs, cc_in c (br_body_tx b)))"

definition to_come :: "reading \<Rightarrow> bytes" where
  "to_come = (\<lambda>(rs, b, io, c). lr_stream (br_limit b, io))"

definition reading_ok :: "reading \<Rightarrow> bool" where
  "reading_ok = (\<lambda>(rs, b, io, c). receiver_ok b \<and> rx_ok io \<and> rs_live (rs, cc_in c (br_body_tx b)))"

lemma body_run_prefix:
  assumes "reading_ok s" "body_run w w2 ops s = (out, s1)"
  shows "prefix (out @ at_hand s1) (at_hand s @ to_come s) \<and> \<not> is_end_stream (fst s1)"
  using assms
proof (induction w w2 ops s arbitrary: out rule: body_run.induct)
  case (1 w w2 s)
  then show ?case by (cases s) (auto simp: reading_ok_def at_hand_def to_come_def rs_live_def is_end_stream_def)
next
  case (2 w w2 ops rs s)
  obtain b io c where s: "s = (b, io, c)" by (metis prod_cases3)
  obtain r b1 io1 c1 where r: "poll_read_body w (b, io, c) = (r, b1, io1, c1)" by (metis prod_cases4)
  have ok: "receiver_ok b" "rx_ok io" "rs_live (rs, cc_in c (br_body_tx b))" using 2(3) s by (auto simp: reading_ok_def)
  obtain bss where bss: "br_body_tx b1 = br_body_tx b" "rs_live (rs, cc_in c1 (br_body_tx b))"
    "rs_stream (rs, cc_in c1 (br_body_tx b)) = rs_stream (rs, cc_in c (br_body_tx b)) @ concat bss"
    "prefix (concat bss) (lr_stream (br_limit b, io))" "\<forall>p. r \<noteq> Panic p"
    "(\<forall>e. r \<noteq> Err e) \<longrightarrow> receiver_ok b1 \<and> rx_ok io1 \<and> lr_stream (br_limit b, io) = concat bss @ lr_stream (br_limit b1, io1)"
    using poll_read_body_moves[OF r ok] by blast
  show ?case
  proof (cases "\<forall>e. r \<noteq> Err e")
    case True
    with bss(5) 2(4) r s have run: "body_run w w2 ops (rs, b1, io1, c1) = (out, s1)" by (cases r) auto
    have IH: "reading_ok (rs, b1, io1, c1) \<Longrightarrow> prefix (out @ at_hand s1) (at_hand (rs, b1, io1, c1) @ to_come (rs, b1, io1, c1))
        \<and> \<not> is_end_stream (fst s1)"
      using 2(1,2) r s run True bss(5) by (cases r) auto
    have "reading_ok (rs, b1, io1, c1)" using bss True by (simp add: reading_ok_def)
    with IH bss True s show ?thesis by (simp add: at_hand_def to_come_def)
  next
    case False
    then obtain e where "r = Err e" by blast
    with 2(4) r s have "out = []" "s1 = (rs, b1, io1, c1)" by auto
    with bss(1-4) s show ?thesis by (simp add: at_hand_def to_come_def rs_live_def is_end_stream_def)
  qed
next
  case (3 w w2 n ops rs b io c)
  obtain r rs1 q where r: "poll_body_data w2 n (rs, cc_in c (br_body_tx b)) = (r, rs1, q)" by (metis prod_cases3)
  obtain out1 where out1: "body_run w w2 ops (rs1, b, io, on_in (br_body_tx b) (\<lambda>_. q) c) = (out1, s1)"
    "out = (case r of Ok bs \<Rightarrow> bs | _ \<Rightarrow> []) @ out1"
    using 3(3) r by (auto split: prod.splits)
  have ok: "receiver_ok b" "rx_ok io" "rs_live (rs, cc_in c (br_body_tx b))" using 3(2) by (auto simp: reading_ok_def)
  note live = poll_body_data_live[OF ok(3) r]
  have "reading_ok (rs1, b, io, on_in (br_body_tx b) (\<lambda>_. q) c)" using ok live by (simp add: reading_ok_def)
  from 3(1)[OF r[symmetric] refl this out1(1)] live out1(2) show ?case by (simp add: at_hand_def to_come_def)
qed

text \<open>While no poll of the connection fails, the account is exact.\<close>

fun body_run_clean :: "waker \<Rightarrow> waker \<Rightarrow> nat option list \<Rightarrow> reading \<Rightarrow> bool" where
  "body_run_clean w w2 [] s \<longleftrightarrow> True"
| "body_run_clean w w2 (None # ops) (rs, s) \<longleftrightarrow> (case poll_read_body w s of
      (r, s1) \<Rightarrow> (case r of Err _ \<Rightarrow> False | _ \<Rightarrow> True) \<and> body_run_clean w w2 ops (rs, s1))"
| "body_run_clean w w2 (Some n # ops) (rs, b, io, c) \<longleftrightarrow> (case poll_body_data w2 n (rs, cc_in c (br_body_tx b)) of
      (r, rs1, q) \<Rightarrow> body_run_clean w w2 ops (rs1, b, io, on_in (br_body_tx b) (\<lambda>_. q) c))"

lemma body_run_exact:
  assumes "reading_ok s" "body_run w w2 ops s = (out, s1)" "body_run_clean w w2 ops s"
  shows "out @ at_hand s1 @ to_come s1 = at_hand s @ to_come s"
  using assms
proof (induction w w2 ops s arbitrary: out rule: body_run.induct)
  case (1 w w2 s)
  then show ?case by simp
next
  case (2 w w2 ops rs s)
  obtain b io c where s: "s = (b, io, c)" by (metis prod_cases3)
  obtain r b1 io1 c1 where r: "poll_read_body w (b, io, c) = (r, b1, io1, c1)" by (metis prod_cases4)
  have ok: "receiver_ok b" "rx_ok io" "rs_live (rs, cc_in c (br_body_tx b))" using 2(3) s by (auto simp: reading_ok_def)
  have clean: "\<forall>e. r \<noteq> Err e" "body_run_clean w w2 ops (rs, b1, io1, c1)" using 2(5) r s by (cases r; simp)+
  obtain bss where bss: "br_body_tx b1 = br_body_tx b" "rs_live (rs, cc_in c1 (br_body_tx b))"
    "rs_stream (rs, cc_in c1 (br_body_tx b)) = rs_stream (rs, cc_in c (br_body_tx b)) @ concat bss" "\<forall>p. r \<noteq> Panic p"
    "receiver_ok b1" "rx_ok io1" "lr_stream (br_limit b, io) = concat bss @ lr_stream (br_limit b1, io1)"
    using poll_read_body_moves[OF r ok] clean(1) by blast
  have run: "body_run w w2 ops (rs, b1, io1, c1) = (out, s1)" using bss(4) clean(1) 2(4) r s by (cases r) auto
  have "reading_ok (rs, b1, io1, c1)" using bss by (simp add: reading_ok_def)
  then have "out @ at_hand s1 @ to_come s1 = at_hand (rs, b1, io1, c1) @ to_come (rs, b1, io1, c1)"
    using 2(1,2) r s run clean bss(4) by (cases r) auto
  with bss(1,3,7) s show ?case by (simp add: at_hand_def to_come_def)
next
  case (3 w w2 n ops rs b io c)
  obtain r rs1 q where r: "poll_body_data w2 n (rs, cc_in c (br_body_tx b)) = (r, rs1, q)" by (metis prod_cases3)
  obtain out1 where out1: "body_run w w2 ops (rs1, b, io, on_in (br_body_tx b) (\<lambda>_. q) c) = (out1, s1)"
    "out = (case r of Ok bs \<Rightarrow> bs | _ \<Rightarrow> []) @ out1"
    using 3(3) r by (auto split: prod.splits)
  have ok: "receiver_ok b" "rx_ok io" "rs_live (rs, cc_in c (br_body_tx b))" using 3(2) by (auto simp: reading_ok_def)
  note live = poll_body_data_live[OF ok(3) r]
  have "reading_ok (rs1, b, io, on_in (br_body_tx b) (\<lambda>_. q) c)" using ok live by (simp add: reading_ok_def)
  moreover have "body_run_clean w w2 ops (rs1, b, io, on_in (br_body_tx b) (\<lambda>_. q) c)" using 3(4) r by simp
  ultimately show ?case using 3(1)[OF r[symmetric] refl] out1 live by (simp add: at_hand_def to_come_def)
qed

text \<open>With a body that arrives in full the connection never fails, and the account is exact.\<close>

definition reading_fine :: "reading \<Rightarrow> bool" where
  "reading_fine s \<longleftrightarrow> reading_ok s \<and> (case s of (rs, b, io, c) \<Rightarrow>
     lr_fine (br_limit b, io) \<and> tidy (rs, cc_in c (br_body_tx b)) \<and> 0 < ch_bound (cc_in c (br_body_tx b)))"

definition reading_done :: "reading \<Rightarrow> bool" where
  "reading_done = (\<lambda>(rs, b, io, c). lr_is_complete (br_limit b) \<and> rs_stream (rs, cc_in c (br_body_tx b)) = [])"

definition reading_togo :: "reading \<Rightarrow> nat" where
  "reading_togo s = length (at_hand s) + length (to_come s) + (case s of (rs, b, io, c) \<Rightarrow> io_size io)"

text \<open>What stays the same, but for the bytes the user has got.\<close>

definition reading_next :: "reading \<Rightarrow> bytes \<Rightarrow> reading \<Rightarrow> bool" where
  "reading_next s bs s1 \<longleftrightarrow> reading_fine s1 \<and> at_hand s @ to_come s = bs @ at_hand s1 @ to_come s1
     \<and> (case (s, s1) of ((rs, b, io, c), (rs1, b1, io1, c1)) \<Rightarrow>
          lr_beyond (br_limit b1, io1) = lr_beyond (br_limit b, io) \<and> io_size io1 \<le> io_size io
          \<and> br_body_tx b1 = br_body_tx b \<and> br_request_allows_reuse b1 = br_request_allows_reuse b
          \<and> br_response_allows_reuse b1 = br_response_allows_reuse b
          \<and> lr_is_read_to_end (br_limit b1) = lr_is_read_to_end (br_limit b))"

lemma reading_next_trans: "reading_next s bs s1 \<Longrightarrow> reading_next s1 bs1 s2 \<Longrightarrow> reading_next s (bs @ bs1) s2"
  by (cases s; cases s1; cases s2) (auto simp: reading_next_def)

lemma poll_read_body_reuse:
  assumes "poll_read_body w (b, io, c) = (r, b1, io1, c1)"
  shows "br_request_allows_reuse b1 = br_request_allows_reuse b" "br_response_allows_reuse b1 = br_response_allows_reuse b"
    "lr_is_read_to_end (br_limit b1) = lr_is_read_to_end (br_limit b)"
proof -
  obtain q b2 io2 c2 where q: "read_body_loop w (b, io, c) = (q, b2, io2, c2)" by (metis prod_cases4)
  let ?P = "\<lambda>s. \<exists>l. fst s = b\<lparr>br_limit := l\<rparr> \<and> lr_is_read_to_end l = lr_is_read_to_end (br_limit b)"
  have "?P (b2, io2, c2)"
  proof (rule read_body_loop_keeps[where P = ?P, OF _ _ _ q], goal_cases)
    case (2 b3 io3 c3 n r l io4)
    then show ?case using lr_poll_read_kind[OF 2(2)] by (auto intro!: exI[of _ l])
  next
    case 3
    show ?case by (rule exI[of _ "br_limit b"]) simp
  qed simp
  moreover have "b1 = b2" using assms q by (cases q) (auto simp: poll_read_body_def)
  ultimately show "br_request_allows_reuse b1 = br_request_allows_reuse b" "br_response_allows_reuse b1 = br_response_allows_reuse b"
    "lr_is_read_to_end (br_limit b1) = lr_is_read_to_end (br_limit b)"
    by auto
qed

lemma reading_poll:
  assumes "reading_fine (rs, s)" "poll_read_body w s = (r, s1)"
  shows "(\<forall>e. r \<noteq> Err e) \<and> (\<forall>p. r \<noteq> Panic p) \<and> reading_next (rs, s) [] (rs, s1)
    \<and> (at_hand (rs, s1) = [] \<longrightarrow> reading_done (rs, s1) \<or> reading_togo (rs, s1) < reading_togo (rs, s))
    \<and> (reading_done (rs, s) \<longrightarrow> s1 = s)"
proof -
  obtain b io c b1 io1 c1 where s: "s = (b, io, c)" "s1 = (b1, io1, c1)" by (metis prod_cases3)
  let ?j = "br_body_tx b"
  have fine: "receiver_ok b" "rx_ok io" "rs_live (rs, cc_in c ?j)" "lr_fine (br_limit b, io)" "tidy (rs, cc_in c ?j)"
    "0 < ch_bound (cc_in c ?j)" using assms(1) s by (auto simp: reading_fine_def reading_ok_def)
  obtain bss where bss: "br_body_tx b1 = ?j" "rs_live (rs, cc_in c1 ?j)" "ch_bound (cc_in c1 ?j) = ch_bound (cc_in c ?j)"
    "tidy (rs, cc_in c1 ?j)" "rs_stream (rs, cc_in c1 ?j) = rs_stream (rs, cc_in c ?j) @ concat bss" "\<forall>p. r \<noteq> Panic p"
    "io_size io1 \<le> io_size io" "\<forall>e. r \<noteq> Err e" "receiver_ok b1" "rx_ok io1"
    "lr_stream (br_limit b, io) = concat bss @ lr_stream (br_limit b1, io1)" "lr_fine (br_limit b1, io1)"
    "lr_beyond (br_limit b1, io1) = lr_beyond (br_limit b, io)"
    "ch_queue (cc_in c ?j) = [] \<longrightarrow> lr_is_complete (br_limit b1) \<or> io_size io1 < io_size io"
    using poll_read_body_moves[OF assms(2)[unfolded s] fine(1-3)] fine(4-6) by metis
  have nxt: "reading_next (rs, s) [] (rs, s1)"
    using bss fine poll_read_body_reuse[OF assms(2)[unfolded s]]
    by (simp add: s reading_next_def reading_fine_def reading_ok_def at_hand_def to_come_def)
  have "reading_done (rs, s1) \<or> reading_togo (rs, s1) < reading_togo (rs, s)" if empty: "at_hand (rs, s1) = []"
  proof -
    have no: "rs_stream (rs, cc_in c ?j) = []" "concat bss = []" using empty bss(1,5) by (auto simp: s at_hand_def)
    have "ch_queue (cc_in c ?j) = []"
    proof (rule ccontr)
      assume "ch_queue (cc_in c ?j) \<noteq> []"
      then obtain m ms where q: "ch_queue (cc_in c ?j) = m # ms" by (cases "ch_queue (cc_in c ?j)") auto
      with fine(3) obtain v where "m = Inr v" by (auto simp: rs_live_def)
      with q fine(3,5) no(1) show False by (auto simp: rs_live_def rs_stream_def tidy_def)
    qed
    with bss(14) have "lr_is_complete (br_limit b1) \<or> io_size io1 < io_size io" by blast
    with empty no bss(1,11) show ?thesis
      by (auto simp: s reading_done_def reading_togo_def at_hand_def to_come_def)
  qed
  moreover have "s1 = s" if "reading_done (rs, s)"
  proof -
    have "read_body_loop w (b, io, c) = (Ok (), b, io, c)" using that s by (simp add: read_body_loop.simps reading_done_def)
    with assms(2) s show ?thesis by (simp add: poll_read_body_def)
  qed
  ultimately show ?thesis using nxt bss(6,8) by blast
qed

lemma reading_read:
  assumes "reading_fine (rs, b, io, c)" "0 < n" "poll_body_data w2 n (rs, cc_in c (br_body_tx b)) = (r, rs1, q)"
  shows "\<exists>bs. reading_next (rs, b, io, c) bs (rs1, b, io, on_in (br_body_tx b) (\<lambda>_. q) c)
    \<and> (case r of Ok bs \<Rightarrow> bs | _ \<Rightarrow> []) = bs
    \<and> (at_hand (rs, b, io, c) \<noteq> [] \<longrightarrow> bs \<noteq> [])
    \<and> (at_hand (rs, b, io, c) = [] \<longrightarrow> bs = [])"
proof -
  let ?j = "br_body_tx b"
  have fine: "receiver_ok b" "rx_ok io" "rs_live (rs, cc_in c ?j)" "lr_fine (br_limit b, io)" "tidy (rs, cc_in c ?j)"
    "0 < ch_bound (cc_in c ?j)" using assms(1) by (auto simp: reading_fine_def reading_ok_def)
  have parts: "rs_ok (rs, cc_in c ?j)" "\<not> rs_ended rs" "\<forall>m \<in> set (ch_queue (cc_in c ?j)). \<exists>v. m = Inr v" "0 < ch_senders (cc_in c ?j)"
    using fine(3) by (auto simp: rs_live_def)
  note live = poll_body_data_live[OF fine(3) assms(3)] and gets = poll_body_data_gets[OF parts(1,2,3) fine(5) assms(2,3)]
  let ?bs = "case r of Ok bs \<Rightarrow> bs | _ \<Rightarrow> []"
  have "rs_live (rs1, q)" "rs_stream (rs, cc_in c ?j) = ?bs @ rs_stream (rs1, q)" using live by blast+
  then have nxt: "reading_next (rs, b, io, c) ?bs (rs1, b, io, on_in ?j (\<lambda>_. q) c)"
    using gets(1) fine poll_body_data_bound(1)[OF assms(3)]
    by (simp add: reading_next_def reading_fine_def reading_ok_def at_hand_def to_come_def)
  have "?bs \<noteq> []" if "at_hand (rs, b, io, c) \<noteq> []" using gets(2) that by (auto simp: at_hand_def)
  moreover have "?bs = []" if "at_hand (rs, b, io, c) = []" using gets(3) that parts(4) by (simp add: at_hand_def)
  ultimately show ?thesis using nxt by blast
qed

lemma body_run_round:
  assumes "reading_fine s" "0 < n"
  shows "\<exists>bs s1. body_run w w2 (None # Some n # ops) s = (case body_run w w2 ops s1 of (out, s2) \<Rightarrow> (bs @ out, s2))
    \<and> reading_next s bs s1 \<and> (reading_done s1 \<or> \<not> reading_done s \<and> reading_togo s1 < reading_togo s)"
proof -
  obtain rs s0 where s: "s = (rs, s0)" by (metis surj_pair)
  obtain r s1 where r: "poll_read_body w s0 = (r, s1)" by (metis surj_pair)
  note poll = reading_poll[OF assms(1)[unfolded s] r]
  obtain b io c where s1: "s1 = (b, io, c)" by (metis prod_cases3)
  obtain r2 rs2 q where r2: "poll_body_data w2 n (rs, cc_in c (br_body_tx b)) = (r2, rs2, q)" by (metis prod_cases3)
  let ?s2 = "(rs2, b, io, on_in (br_body_tx b) (\<lambda>_. q) c)"
  have fine1: "reading_fine (rs, b, io, c)" using poll s1 by (simp add: reading_next_def)
  obtain bs where bs: "reading_next (rs, b, io, c) bs ?s2" "(case r2 of Ok bs \<Rightarrow> bs | _ \<Rightarrow> []) = bs"
    "at_hand (rs, b, io, c) \<noteq> [] \<longrightarrow> bs \<noteq> []" "at_hand (rs, b, io, c) = [] \<longrightarrow> bs = []"
    using reading_read[OF fine1 assms(2) r2] by blast
  have run: "body_run w w2 (None # Some n # ops) s = (case body_run w w2 ops ?s2 of (out, s2) \<Rightarrow> (bs @ out, s2))"
    using poll r r2 s s1 bs(2) by (cases r) (auto split: prod.splits)
  have nxt: "reading_next s bs ?s2" using reading_next_trans[of s "[]" "(rs, s1)" bs ?s2] poll bs(1) s s1 by simp
  have "reading_done ?s2 \<or> reading_togo ?s2 < reading_togo s"
  proof (cases "at_hand (rs, b, io, c) = []")
    case True
    then have "bs = []" "at_hand ?s2 = []" using bs(1,4) by (auto simp: reading_next_def at_hand_def to_come_def)
    then have "reading_togo ?s2 = reading_togo (rs, s1)" "reading_done ?s2 = reading_done (rs, s1)"
      using True s1 by (auto simp: reading_togo_def reading_done_def at_hand_def to_come_def)
    with poll True s s1 show ?thesis by simp
  next
    case False
    with bs have "0 < length bs" by blast
    moreover have "at_hand s @ to_come s = bs @ at_hand ?s2 @ to_come ?s2" using nxt by (simp add: reading_next_def)
    then have "length (at_hand s) + length (to_come s) = length bs + length (at_hand ?s2) + length (to_come ?s2)"
      by (metis add.assoc length_append)
    moreover have "io_size io \<le> (case s of (rs, b, io, c) \<Rightarrow> io_size io)" using nxt by (cases s) (simp add: reading_next_def)
    ultimately have "reading_togo ?s2 < reading_togo s" unfolding reading_togo_def split_conv by linarith
    then show ?thesis by blast
  qed
  moreover have "reading_done ?s2" if "reading_done s"
  proof -
    have "s1 = s0" "at_hand (rs, b, io, c) = []" "lr_is_complete (br_limit b)"
      using poll that s s1 by (auto simp: reading_done_def at_hand_def)
    moreover from this have "at_hand ?s2 = []" using bs(1,4) by (auto simp: reading_next_def to_come_def)
    ultimately show ?thesis by (simp add: reading_done_def at_hand_def)
  qed
  ultimately show ?thesis using run nxt by blast
qed

lemma reading_done_empty: "reading_fine s \<Longrightarrow> reading_done s \<Longrightarrow> at_hand s @ to_come s = []"
  using lr_drain.finished_stream by (cases s) (auto simp: reading_done_def at_hand_def to_come_def)

lemma body_run_complete:
  assumes "reading_fine s" "0 < n" "reading_done s \<or> reading_togo s < k"
  shows "\<exists>s1. body_run w w2 (concat (replicate k [None, Some n])) s = (at_hand s @ to_come s, s1)
    \<and> reading_next s (at_hand s @ to_come s) s1 \<and> reading_done s1"
  using assms
proof (induction k arbitrary: s)
  case 0
  then show ?case using reading_done_empty[of s] by (cases s) (simp add: reading_next_def)
next
  case (Suc k)
  let ?ops = "concat (replicate k [None, Some n])"
  obtain bs s1 where s1: "body_run w w2 (None # Some n # ?ops) s = (case body_run w w2 ?ops s1 of (out, s2) \<Rightarrow> (bs @ out, s2))"
    "reading_next s bs s1" "reading_done s1 \<or> \<not> reading_done s \<and> reading_togo s1 < reading_togo s"
    using body_run_round[OF Suc.prems(1,2), of w w2 ?ops] by blast
  have "reading_fine s1" "at_hand s @ to_come s = bs @ at_hand s1 @ to_come s1" using s1(2) by (auto simp: reading_next_def)
  moreover have "reading_done s1 \<or> reading_togo s1 < k" using s1(3) Suc.prems(3) by auto
  ultimately obtain s2 where "body_run w w2 ?ops s1 = (at_hand s1 @ to_come s1, s2)"
    "reading_next s1 (at_hand s1 @ to_come s1) s2" "reading_done s2" "at_hand s @ to_come s = bs @ at_hand s1 @ to_come s1"
    using Suc.IH Suc.prems(2) by blast
  with s1(1) reading_next_trans[OF s1(2)] show ?case by auto
qed

section \<open>Properties\<close>

text \<open>
  C19. The user reads what the connection received, and nothing of it is lost. For every history of polls of a
  connection that receives a response body and reads by the user, with buffers of any size, in which no poll
  fails: what has been read, what the user can read already and what the body's limiter
  has yet to deliver from the connection are together what was at hand and to come before. A history ends with a poll
  that fails; then what has been read and what can be read is a beginning of that. In either case the user is not told
  that the body has ended.
\<close>

theorem client_body_fifo:
  assumes "reading_ok s" "body_run w w2 ops s = (out, s1)"
  shows "(body_run_clean w w2 ops s \<longrightarrow> out @ at_hand s1 @ to_come s1 = at_hand s @ to_come s)
    \<and> prefix (out @ at_hand s1) (at_hand s @ to_come s) \<and> \<not> is_end_stream (fst s1)"
  using body_run_exact[OF assms] body_run_prefix[OF assms] by blast

definition wit_receiver :: body_receiver where
  "wit_receiver = \<lparr>br_request_allows_reuse = True, br_response_allows_reuse = True, br_cur_read_size = 5,
     br_limit = LR_ContentLength (clr_new 5), br_body_tx = 0\<rparr>"

definition wit_body_io :: buf_io where
  "wit_body_io = bi_with_capacity 8
     \<lparr>tr_rx = [RxData ''hel'', RxPending, RxData ''loHTTP''], tr_tx = [], tr_flush = [], tr_close = [],
      tr_sent = [], tr_flushed = 0, tr_closed = False\<rparr>"

definition wit_chans :: client_chans where
  "wit_chans = cl_chans (handshake (bi_inner wit_body_io))"

definition wit_reading :: reading where
  "wit_reading = (recv_stream_new False, wit_receiver, wit_body_io, wit_chans)"

lemma wit_reading_parts: "receiver_ok wit_receiver" "rx_ok wit_body_io" "cc_in wit_chans j = receiver_new 1"
  by (simp_all add: wit_receiver_def receiver_ok_def limit_ok_def wit_body_io_def wit_chans_def handshake_def client_new_def)

lemma wit_reading_ok: "reading_ok wit_reading"
  using wit_reading_parts
  by (simp add: reading_ok_def wit_reading_def rs_live_def rs_ok_def recv_stream_new_def receiver_new_def chan_open_def)

theorem client_body_fifo_witness:
  "\<exists>out s1. body_run 3 4 [Some 2, None, Some 2, None, Some 2] wit_reading = (out, s1)
     \<and> out = ''hel'' \<and> out @ at_hand s1 @ to_come s1 = ''hello''"
proof -
  let ?ops = "[Some 2, None, Some 2, None, Some 2] :: nat option list"
  obtain out s1 where run: "body_run 3 4 ?ops wit_reading = (out, s1)" by (metis surj_pair)
  have "at_hand wit_reading @ to_come wit_reading = ''hello''" "fst (body_run 3 4 ?ops wit_reading) = ''hel''"
    "body_run_clean 3 4 ?ops wit_reading"
    by code_simp+
  with client_body_fifo[OF wit_reading_ok run] run show ?thesis by auto
qed

text \<open>
  C9. A body that arrives in full is delivered in full, and the connection is used again
  exactly at the byte after it. Let a connection begin to receive a body that the transport will
  deliver without a failure. When the connection and the user take turns often enough, the user with a
  buffer of any size, the user has read exactly the body, the connection stands at the first byte
  after it, and its next poll goes on to the next request if and only if both sides allow it and
  the end of the body is not the end of the connection.
\<close>

theorem client_delivers_body:
  assumes "receiver_ok b" "rx_ok io" "cc_in c (br_body_tx b) = receiver_new 1" "lr_fine (br_limit b, io)" "0 < n"
    and "length (lr_stream (br_limit b, io)) + io_size io < k"
  shows "\<exists>rs b1 io1 c1. body_run w w2 (concat (replicate k [None, Some n])) (recv_stream_new False, b, io, c)
        = (lr_stream (br_limit b, io), rs, b1, io1, c1)
     \<and> in_stream io1 = lr_beyond (br_limit b, io)
     \<and> fst (poll_read_body w (b1, io1, c1)) = Ok (if br_request_allows_reuse b \<and> br_response_allows_reuse b
          \<and> \<not> lr_is_read_to_end (br_limit b) then Some SendReq else None)"
proof -
  let ?s = "(recv_stream_new False, b, io, c)"
  have hand: "at_hand ?s = []" "to_come ?s = lr_stream (br_limit b, io)"
    using assms(3) by (simp_all add: at_hand_def to_come_def rs_stream_def recv_stream_new_def ready_bytes_def)
  have "reading_fine ?s"
    using assms(1-4) by (simp add: reading_fine_def reading_ok_def rs_live_def rs_ok_def tidy_def recv_stream_new_def
        receiver_new_def chan_open_def)
  moreover have "reading_togo ?s < k" using assms(6) by (simp add: reading_togo_def hand)
  ultimately obtain s1 where s1: "body_run w w2 (concat (replicate k [None, Some n])) ?s = (lr_stream (br_limit b, io), s1)"
    "reading_next ?s (lr_stream (br_limit b, io)) s1" "reading_done s1"
    using body_run_complete[OF _ assms(5), of ?s k w w2] hand by auto
  obtain rs b1 io1 c1 where s: "s1 = (rs, b1, io1, c1)" by (metis prod_cases4)
  have eqs: "lr_beyond (br_limit b1, io1) = lr_beyond (br_limit b, io)" "br_request_allows_reuse b1 = br_request_allows_reuse b"
    "br_response_allows_reuse b1 = br_response_allows_reuse b" "lr_is_read_to_end (br_limit b1) = lr_is_read_to_end (br_limit b)"
    and complete: "lr_is_complete (br_limit b1)"
    using s1(2,3) s by (simp_all add: reading_next_def reading_done_def)
  have "fst (poll_read_body w (b1, io1, c1)) = Ok (if br_request_allows_reuse b \<and> br_response_allows_reuse b
      \<and> \<not> lr_is_read_to_end (br_limit b) then Some SendReq else None)"
    using complete eqs(2-4) by (simp add: poll_read_body_def read_body_loop.simps lr_is_reusable_def)
  with s1(1) s eqs(1) lr_beyond_complete[OF complete, of io1] show ?thesis by simp
qed

theorem client_delivers_body_witness:
  "\<exists>rs b1 io1 c1. body_run 3 4 (concat (replicate 30 [None, Some 2])) wit_reading = (''hello'', rs, b1, io1, c1)
     \<and> in_stream io1 = ''HTTP'' \<and> fst (poll_read_body 3 (b1, io1, c1)) = Ok (Some SendReq)"
proof -
  have io: "lr_fine (br_limit wit_receiver, wit_body_io)" "lr_stream (br_limit wit_receiver, wit_body_io) = ''hello''"
    "lr_beyond (br_limit wit_receiver, wit_body_io) = ''HTTP''" "io_size wit_body_io = 12" by code_simp+
  have b: "br_request_allows_reuse wit_receiver" "br_response_allows_reuse wit_receiver"
    "\<not> lr_is_read_to_end (br_limit wit_receiver)" by (simp_all add: wit_receiver_def lr_is_read_to_end_def)
  from client_delivers_body[OF wit_reading_parts io(1), of 2 30 3 4] io(2-4) b show ?thesis
    by (simp add: wit_reading_def)
qed

end
