(* ===== verification/Client_Properties.thy ===== *)
theory Client_Properties
  imports Client_Body
begin

text \<open>
  The properties of the client. A connection and its users are a transition system: the runtime
  polls the connection, the users call the operations of their handles, in any order and with any
  arguments. The first properties are about every state that system can reach; the others follow
  one body, one error and the end of a connection to the users they concern.
\<close>

section \<open>A connection and its users\<close>

inductive client_step :: "http_api \<Rightarrow> client \<Rightarrow> client \<Rightarrow> bool" for api where
  poll: "poll_client api w self = (Pending, self1) \<Longrightarrow> client_step api self self1"
| request: "send_request req no_body (cl_chans self) = (res, c) \<Longrightarrow> client_step api self (self\<lparr>cl_chans := c\<rparr>)"
| clone: "client_step api self (self\<lparr>cl_chans := send_request_clone (cl_chans self)\<rparr>)"
| close: "client_step api self (self\<lparr>cl_chans := send_request_drop (cl_chans self)\<rparr>)"
| response: "response_future_poll w j (cl_chans self) = (res, c) \<Longrightarrow> client_step api self (self\<lparr>cl_chans := c\<rparr>)"
| abandon: "client_step api self (self\<lparr>cl_chans := on_res j receiver_drop (cl_chans self)\<rparr>)"
| send: "poll_send_data w data eob (ss, cc_out (cl_chans self) j) = (res, data1, ss1, q) \<Longrightarrow>
    client_step api self (self\<lparr>cl_chans := on_out j (\<lambda>_. q) (cl_chans self)\<rparr>)"
| give_up: "client_step api self (self\<lparr>cl_chans := on_out j sender_drop (cl_chans self)\<rparr>)"
| read: "poll_body_data w n (rs, cc_in (cl_chans self) j) = (res, rs1, q) \<Longrightarrow>
    client_step api self (self\<lparr>cl_chans := on_in j (\<lambda>_. q) (cl_chans self)\<rparr>)"
| ignore: "client_step api self (self\<lparr>cl_chans := on_in j receiver_drop (cl_chans self)\<rparr>)"

inductive client_reachable :: "http_api \<Rightarrow> client \<Rightarrow> bool" for api where
  start: "client_reachable api (handshake t)"
| step: "client_reachable api self \<Longrightarrow> client_step api self self1 \<Longrightarrow> client_reachable api self1"

lemma handles_chans:
  assumes "ch_queue (cc_req c) = ch_queue (cc_req (cl_chans self))"
  shows "handles (self\<lparr>cl_chans := c\<rparr>) = handles self"
  using assms by (simp add: handles_def)

lemma ids_ok_chans:
  assumes "ids_ok self" "ch_queue (cc_req c) = ch_queue (cc_req (cl_chans self))" "cc_fresh (cl_chans self) \<le> cc_fresh c"
  shows "ids_ok (self\<lparr>cl_chans := c\<rparr>)"
  using assms less_le_trans[OF _ assms(3)] by (auto simp: ids_ok_def handles_chans)

lemma ids_ok_request:
  assumes "ids_ok self" "send_request req no_body (cl_chans self) = (res, c)"
  shows "ids_ok (self\<lparr>cl_chans := c\<rparr>)"
proof (cases "req_method req = ''CONNECT''")
  case True
  with assms show ?thesis by (auto simp: send_request_def intro: ids_ok_chans)
next
  case False
  let ?i = "cc_fresh (cl_chans self)"
  let ?nb = "no_body \<or> lw_is_no_body (lw_from_headers (req_headers req))"
  define h where "h = \<lparr>h_req = req, h_body_rx = (if ?nb then None else Some ?i), h_res_tx = Some ?i\<rparr>"
  obtain sent q where q0: "sender_send h (cc_req (cl_chans self)) = (sent, q)" by fastforce
  have c: "cc_fresh c = Suc ?i" "cc_req c = q"
    using False assms(2) q0
    by (auto simp: send_request_def Let_def drop_handle_def h_def[symmetric] split: bool.splits if_splits)
  have h: "h_body_rx h = None \<or> h_body_rx h = Some ?i" by (simp add: h_def)
  have q: "ch_queue q = ch_queue (cc_req (cl_chans self)) \<or> ch_queue q = ch_queue (cc_req (cl_chans self)) @ [h]"
    using q0 by (auto simp: sender_send_def inner_enqueue_def wake_all_def split: if_splits)
  have app: "List.map_filter f (xs @ ys) = List.map_filter f xs @ List.map_filter f ys" for f :: "handle \<Rightarrow> nat option" and xs ys
    by (simp add: List.map_filter_def)
  from q c(2) have "handles (self\<lparr>cl_chans := c\<rparr>) = handles self \<or> handles (self\<lparr>cl_chans := c\<rparr>) = handles self @ [h]"
    by (auto simp: handles_def)
  then show ?thesis
  proof
    assume "handles (self\<lparr>cl_chans := c\<rparr>) = handles self"
    with assms(1) c(1) show ?thesis by (auto simp: ids_ok_def)
  next
    assume "handles (self\<lparr>cl_chans := c\<rparr>) = handles self @ [h]"
    with assms(1) h c(1) show ?thesis
      by (auto simp: ids_ok_def app map_filter_simps less_Suc_eq split: option.splits)
  qed
qed

lemma client_ok_chans [simp]: "client_ok (self\<lparr>cl_chans := c\<rparr>) = client_ok self"
  by (simp add: client_ok_def)

lemma poll_client_drive:
  assumes "poll_client api w self = (r, self1)"
  obtains self2 where "drive api w self = (r, self2)" "cl_io self1 = cl_io self2" "cl_state self1 = cl_state self2"
      "(\<forall>e. r \<noteq> Err e) \<longrightarrow> self1 = self2"
proof -
  obtain q s where q: "drive api w self = (q, s)" by fastforce
  have "q = r \<and> cl_io self1 = cl_io s \<and> cl_state self1 = cl_state s \<and> ((\<forall>e. r \<noteq> Err e) \<longrightarrow> self1 = s)"
    using assms q
    by (cases q) (auto simp: poll_client_def try_forward_error_def clone_error_def split: prod.splits client_state.splits option.splits)
  with q that show ?thesis by blast
qed

lemma client_step_ok:
  assumes "client_step api self self1" "client_ok self" "ids_ok self"
  shows "client_ok self1 \<and> ids_ok self1"
  using assms
proof (induction rule: client_step.induct)
  case (poll w self self1)
  from poll(1) have d: "drive api w self = (Pending, self1)" by (rule poll_client_drive) simp
  from drive_post[OF poll(2) d] drive_sends[OF poll(2,3) d] show ?case by (simp add: client_post_def handed_on_def)
next
  case (request req no_body self res c)
  then show ?case using ids_ok_request by simp
next
  case (clone self)
  then show ?case by (auto simp: send_request_clone_def sender_clone_def intro!: ids_ok_chans)
next
  case (close self)
  then show ?case
    by (auto simp: send_request_drop_def sender_drop_def sender_release_def sender_drop_body_def wake_all_def intro!: ids_ok_chans)
next
  case (response w j self res c)
  from response(1) have "cc_req c = cc_req (cl_chans self)" "cc_fresh c = cc_fresh (cl_chans self)"
    by (auto simp: response_future_poll_def split: prod.splits res.splits option.splits sum.splits)
  with response show ?case by (auto intro!: ids_ok_chans)
qed (auto intro!: ids_ok_chans)

lemma handshake_ok [simp]: "client_ok (handshake t)" "ids_ok (handshake t)"
  by (simp_all add: handshake_def client_new_def client_ok_def state_ok_def ids_ok_def handles_def map_filter_simps tx_ok_def bi_with_capacity_def)
    (simp add: bi_with_capacity_def[symmetric])

lemma client_reachable_ok: "client_reachable api self \<Longrightarrow> client_ok self \<and> ids_ok self"
  by (induction rule: client_reachable.induct) (auto dest: client_step_ok)

section \<open>Every reachable state\<close>

text \<open>A user has sent one request without a body over a connection that takes it all.\<close>

definition wit_client :: client where
  "wit_client =
     (let self = handshake \<lparr>tr_rx = [RxPending], tr_tx = [TxAccept 100], tr_flush = [CtlDone], tr_close = [],
            tr_sent = [], tr_flushed = 0, tr_closed = False\<rparr>
      in self\<lparr>cl_chans := snd (send_request wit_req True (cl_chans self))\<rparr>)"

lemma wit_client_reachable: "client_reachable api wit_client"
  unfolding wit_client_def Let_def
  by (rule client_reachable.step[OF client_reachable.start]) (rule client_step.request[OF prod.collapse[symmetric]])

lemma wit_client_polled: "fst (poll_client wit_api 7 wit_client) = Pending"
  by code_simp

text \<open>
  C11. The client keeps its invariant, and the panics that are left are known. In every reachable state of a
  connection and its users, polling the connection panics only in three cases: the read
  buffer is full at its largest size; the parser says of bytes that end with the empty line of a head that
  there is more to come; or a user asked for a version that cannot be written. The second is an
  \<^verbatim>\<open>expect\<close> of the source, which calls it an invariant, and it can fail (\<open>client_partial_panics\<close> below); so does the assertion
  on the capacity in the first. No other assertion and no other \<^verbatim>\<open>expect\<close> of the client can fail, and a
  poll that does not end in an error leaves a well-formed connection.
\<close>

theorem client_safe:
  assumes "client_reachable api self" "poll_client api w self = (r, self1)"
  shows "(\<forall>p. r = Panic p \<longrightarrow> full_buffer_panic p
        \<or> p = ''Parsed partial response'' \<and> (\<exists>bs. head_len 0 bs = Some (length bs) \<and> try_parse_res api bs False = Inr None)
        \<or> p = ''Unsupported http version'')
    \<and> (r = Ok () \<or> r = Pending \<longrightarrow> client_ok self1)"
proof -
  obtain self2 where d: "drive api w self = (r, self2)" "(\<forall>e. r \<noteq> Err e) \<longrightarrow> self1 = self2"
    using assms(2) by (rule poll_client_drive)
  have "client_post api w r self2" using drive_post[OF _ d(1)] client_reachable_ok[OF assms(1)] by blast
  with d(2) show ?thesis by (cases r) (auto simp: client_post_def client_panic_def)
qed

theorem client_safe_witness:
  "\<exists>self1. poll_client wit_api 7 wit_client = (Pending, self1) \<and> client_ok self1"
proof -
  have eq: "poll_client wit_api 7 wit_client = (Pending, snd (poll_client wit_api 7 wit_client))"
    using wit_client_polled by (metis prod.collapse)
  from client_safe[OF wit_client_reachable eq] eq show ?thesis by blast
qed

text \<open>
  A peer can make the client panic. A parser that skips the empty lines in front of a head finds no head in two of them,
  and says that there is more to come. When a client waits for a response and the peer sends
  nothing but these four bytes, polling the connection fails the \<^verbatim>\<open>expect\<close>.
\<close>

definition wit_partial_api :: http_api where
  "wit_partial_api = wit_api\<lparr>api_parse_res :=
     (\<lambda>bs. Inr \<lparr>pr_is_partial = (bs = CRLF @ CRLF), pr_version = None, pr_code = None, pr_headers = []\<rparr>)\<rparr>"

definition wit_teased :: client where
  "wit_teased =
     (let self = handshake \<lparr>tr_rx = [RxData (CRLF @ CRLF)], tr_tx = [TxAccept 100], tr_flush = [CtlDone], tr_close = [],
            tr_sent = [], tr_flushed = 0, tr_closed = False\<rparr>
      in self\<lparr>cl_chans := snd (send_request wit_req True (cl_chans self))\<rparr>)"

theorem client_partial_panics:
  "client_reachable wit_partial_api wit_teased
   \<and> fst (poll_client wit_partial_api 7 wit_teased) = Panic ''Parsed partial response''"
proof
  show "client_reachable wit_partial_api wit_teased"
    unfolding wit_teased_def Let_def
    by (rule client_reachable.step[OF client_reachable.start]) (rule client_step.request[OF prod.collapse[symmetric]])
  show "fst (poll_client wit_partial_api 7 wit_teased) = Panic ''Parsed partial response''" by code_simp
qed

text \<open>
  C5. Requests and their bodies are written in order, once. In every reachable state, what a poll
  of the connection has written, followed by what the users have handed over and is still to be
  written (the rest of the current body, then for each queued request its head and the pieces of its
  body up to the end flag), is what it was before; nothing is lost, repeated or
  reordered. When the poll fails, what it has written is a beginning of that.
\<close>

theorem client_sends_in_order:
  assumes "client_reachable api self" "poll_client api w self = (r, self1)" "\<forall>p. r \<noteq> Panic p"
  shows "prefix (out_stream (cl_io self)) (out_stream (cl_io self1))
    \<and> prefix (out_stream (cl_io self1)) (out_stream (cl_io self) @ ahead self)
    \<and> (r = Ok () \<or> r = Pending \<longrightarrow> out_stream (cl_io self1) @ ahead self1 = out_stream (cl_io self) @ ahead self)"
proof -
  obtain self2 where d: "drive api w self = (r, self2)" "cl_io self1 = cl_io self2" "(\<forall>e. r \<noteq> Err e) \<longrightarrow> self1 = self2"
    using assms(2) by (rule poll_client_drive)
  have "handed_on (r = Ok () \<or> r = Pending) self self2"
    using drive_sends[OF _ _ d(1) assms(3)] client_reachable_ok[OF assms(1)] by blast
  with d(2,3) show ?thesis by (auto simp: handed_on_def)
qed

theorem client_sends_in_order_witness:
  "\<exists>self1. poll_client wit_api 7 wit_client = (Pending, self1)
     \<and> out_stream (cl_io self1) @ ahead self1 = out_stream (cl_io wit_client) @ ahead wit_client
     \<and> out_stream (cl_io self1) = wit_req_bytes"
proof -
  have eq: "poll_client wit_api 7 wit_client = (Pending, snd (poll_client wit_api 7 wit_client))"
    using wit_client_polled by (metis prod.collapse)
  have "out_stream (cl_io (snd (poll_client wit_api 7 wit_client))) = wit_req_bytes" by code_simp
  with client_sends_in_order[OF wit_client_reachable eq] eq show ?thesis by auto
qed

text \<open>
  C14. A pending connection will be woken. When a poll of a reachable connection is pending, the
  transport was asked and is pending itself, or the waker is registered with the channel whose
  next message the state needs: the queue of requests, the channel of the request body (and then the
  transport was asked for the response as well), or the channel of the response body.
\<close>

theorem client_wakes:
  assumes "client_reachable api self" "poll_client api w self = (Pending, self1)"
  shows "client_waiting w self1"
proof -
  from assms(2) have d: "drive api w self = (Pending, self1)" by (rule poll_client_drive) simp
  with drive_post[OF _ d] client_reachable_ok[OF assms(1)] show ?thesis by (simp add: client_post_def)
qed

theorem client_wakes_witness:
  "\<exists>self1. poll_client wit_api 7 wit_client = (Pending, self1) \<and> client_waiting 7 self1"
proof -
  have eq: "poll_client wit_api 7 wit_client = (Pending, snd (poll_client wit_api 7 wit_client))"
    using wit_client_polled by (metis prod.collapse)
  from client_wakes[OF wit_client_reachable eq] eq show ?thesis by blast
qed

section \<open>The end of a connection\<close>


lemma drop_handle_simps [simp]:
  "cc_req (drop_handle h c) = cc_req c" "cc_in (drop_handle h c) = cc_in c" "cc_fresh (drop_handle h c) = cc_fresh c"
  "cc_res (drop_handle h c) j = (if h_res_tx h = Some j then sender_drop (cc_res c j) else cc_res c j)"
  by (auto simp: drop_handle_def split: option.splits)

lemma fold_drop_handle:
  "cc_req (fold drop_handle hs c) = cc_req c" "cc_in (fold drop_handle hs c) = cc_in c"
  "distinct (List.map_filter h_res_tx hs) \<Longrightarrow> cc_res (fold drop_handle hs c) j =
     (if j \<in> set (List.map_filter h_res_tx hs) then sender_drop (cc_res c j) else cc_res c j)"
  by (induction hs arbitrary: c) (auto simp: map_filter_simps split: option.splits if_splits)

lemma connection_drop_req: "cc_req (connection_drop self) = receiver_drop (cc_req (cl_chans self))"
  by (auto simp: connection_drop_def drop_state_def Let_def fold_drop_handle split: client_state.splits option.splits)

lemma connection_drop_res:
  assumes "distinct (List.map_filter h_res_tx (handles self))" "h \<in> set (handles self)" "h_res_tx h = Some j"
  shows "cc_res (connection_drop self) j = sender_drop (cc_res (cl_chans self) j)"
proof -
  have j: "j \<in> set (List.map_filter h_res_tx (handles self))" using assms(2,3) by (auto simp: set_map_filter)
  let ?hs = "ch_queue (cc_req (cl_chans self))"
  have req: "cc_req (drop_state (cl_state self) (cl_chans self)) = cc_req (cl_chans self)"
    by (auto simp: drop_state_def split: client_state.splits option.splits)
  have d: "distinct (List.map_filter h_res_tx ?hs)"
    using assms(1) by (auto simp: handles_def map_filter_Cons split: client_state.splits option.splits)
  have eq: "cc_res (connection_drop self) j = (if j \<in> set (List.map_filter h_res_tx ?hs)
      then sender_drop (cc_res (drop_state (cl_state self) (cl_chans self)) j)
      else cc_res (drop_state (cl_state self) (cl_chans self)) j)"
    by (simp add: connection_drop_def Let_def req fold_drop_handle(3)[OF d])
  show ?thesis
  proof (cases "\<exists>b. cl_state self = RecvRes b")
    case True
    then obtain b where b: "cl_state self = RecvRes b" by blast
    have "cc_res (drop_state (cl_state self) (cl_chans self)) j
        = (if h_res_tx (cbi_handle b) = Some j then sender_drop (cc_res (cl_chans self) j) else cc_res (cl_chans self) j)"
      using b by (simp add: drop_state_def split: option.split)
    with j assms(1) b eq show ?thesis by (auto simp: handles_def map_filter_Cons split: option.splits)
  next
    case False
    then have "cc_res (drop_state (cl_state self) (cl_chans self)) = cc_res (cl_chans self)" "handles self = ?hs"
      by (auto simp: drop_state_def handles_def split: client_state.splits)
    with j eq show ?thesis by simp
  qed
qed

lemma connection_drop_in:
  assumes "cl_state self = RecvBody b"
  shows "cc_in (connection_drop self) = (cc_in (cl_chans self))(br_body_tx b := sender_drop (cc_in (cl_chans self) (br_body_tx b)))"
  using assms by (simp add: connection_drop_def drop_state_def Let_def fold_drop_handle)

lemma sender_drop_queue [simp]: "ch_queue (sender_drop c) = ch_queue c" "chan_open (sender_drop c) = chan_open c"
  by (simp_all add: sender_drop_def sender_release_def sender_drop_body_def wake_all_def chan_open_def)



text \<open>A stream that is drained, and whose sender is gone, is at its end.\<close>

lemma drained_ends:
  assumes "ch_queue rx = []" "ch_senders rx = 0" "\<not> rs_ended rs" "rs_ready rs = None"
  shows "\<exists>rs1 rx1. poll_body_data w n (rs, rx) = (Ok [], rs1, rx1) \<and> is_end_stream rs1"
proof -
  obtain rx1 where "poll_recv w True rx = (Ok None, rx1)" using assms(1,2) by (cases rule: poll_recv_cases[of w True rx]) auto
  with assms(3,4) show ?thesis by (auto simp: poll_body_data_def is_end_stream_def)
qed

lemma sender_drop_last: "ch_senders c = 1 \<Longrightarrow> ch_senders (sender_drop c) = 0"
  by (simp add: sender_drop_def sender_release_def sender_drop_body_def wake_all_def)


text \<open>A body of five bytes is expected, and the peer hangs up at once.\<close>

definition wit_broken :: client where
  "wit_broken =
     \<lparr>cl_io = bi_with_capacity 8 \<lparr>tr_rx = [RxData []], tr_tx = [], tr_flush = [], tr_close = [], tr_sent = [],
        tr_flushed = 0, tr_closed = False\<rparr>,
      cl_state = RecvBody wit_receiver, cl_chans = wit_chans\<rparr>"



text \<open>
  C40. A dropped connection looks like the end of the body. When the connection is dropped (its
  task is cancelled) while it receives a body, however much of it is missing, a user
  who has read what was passed on is told that the stream has ended, and by no error.
\<close>

theorem client_drop_truncates:
  assumes "cl_state self = RecvBody b" "rx = cc_in (cl_chans self) (br_body_tx b)" "ch_queue rx = []" "ch_senders rx = 1"
    and "\<not> rs_ended rs" "rs_ready rs = None"
  shows "\<exists>rs1 rx1. poll_body_data w n (rs, cc_in (connection_drop self) (br_body_tx b)) = (Ok [], rs1, rx1)
    \<and> is_end_stream rs1"
  using assms connection_drop_in[OF assms(1)] by (intro drained_ends) (simp_all add: sender_drop_last)

theorem client_drop_truncates_witness:
  "\<not> lr_is_complete (br_limit wit_receiver)
   \<and> (\<exists>rs1 rx1. poll_body_data 3 4 (recv_stream_new False, cc_in (connection_drop wit_broken) 0) = (Ok [], rs1, rx1)
        \<and> is_end_stream rs1)"
proof -
  have "\<not> lr_is_complete (br_limit wit_receiver)" by code_simp
  moreover have "cl_state wit_broken = RecvBody wit_receiver" "br_body_tx wit_receiver = 0"
    "cc_in (cl_chans wit_broken) 0 = receiver_new 1"
    using wit_reading_parts(3) by (simp_all add: wit_broken_def wit_receiver_def)
  ultimately show ?thesis
    using client_drop_truncates[of wit_broken wit_receiver "receiver_new 1" "recv_stream_new False" 3 4]
    by (simp add: receiver_new_def recv_stream_new_def)
qed

text \<open>
  C39. A dropped connection leaves no user waiting. For every request the connection held, the
  one in progress or a queued one, whose response has not been sent, the response future answers
  with the error that says that the connection is closed; and no further request is accepted.
\<close>

theorem client_drop_releases:
  assumes "h \<in> set (handles self)" "h_res_tx h = Some j" "distinct (List.map_filter h_res_tx (handles self))"
    and "ch_senders (cc_res (cl_chans self) j) = 1" "ch_queue (cc_res (cl_chans self) j) = []"
    and "ch_receivers (cc_req (cl_chans self)) = 1"
  shows "fst (response_future_poll w j (connection_drop self)) = Ok (err_closed ''Response failed, connection is closed'')
    \<and> (\<forall>req no_body. req_method req \<noteq> ''CONNECT'' \<longrightarrow>
         fst (send_request req no_body (connection_drop self)) = err_closed ''Can't enqueue request, connection is closed'')"
proof -
  let ?c = "connection_drop self"
  have "ch_queue (cc_res ?c j) = []" "ch_senders (cc_res ?c j) = 0"
    using assms(4,5) connection_drop_res[OF assms(3,1,2)]
    by (simp_all add: sender_drop_def sender_release_def sender_drop_body_def wake_all_def)
  then obtain rx1 where "poll_recv w True (cc_res ?c j) = (Ok None, rx1)"
    by (cases rule: poll_recv_cases[of w True "cc_res ?c j"]) auto
  then have "fst (response_future_poll w j ?c) = Ok (err_closed ''Response failed, connection is closed'')"
    by (simp add: response_future_poll_def)
  moreover have "ch_receivers (cc_req ?c) = 0"
    using assms(6) by (simp add: connection_drop_req receiver_drop_def receiver_release_def receiver_drop_body_def wake_all_def)
  then have "fst (send_request req no_body ?c) = err_closed ''Can't enqueue request, connection is closed''"
    if "req_method req \<noteq> ''CONNECT''" for req no_body
    using that by (auto simp: send_request_def Let_def sender_send_def)
  ultimately show ?thesis by blast
qed

theorem client_drop_releases_witness:
  "fst (response_future_poll 5 0 (connection_drop wit_client)) = Ok (err_closed ''Response failed, connection is closed'')"
proof -
  let ?h = "\<lparr>h_req = wit_req, h_body_rx = None, h_res_tx = Some 0\<rparr>"
  have hs: "handles wit_client = [?h]" and ch: "ch_senders (cc_res (cl_chans wit_client) 0) = 1"
    "ch_queue (cc_res (cl_chans wit_client) 0) = []" "ch_receivers (cc_req (cl_chans wit_client)) = 1"
    by (simp_all add: wit_client_def handshake_def client_new_def send_request_def Let_def handles_def wit_req_def
        receiver_new_def sender_send_def inner_enqueue_def wake_all_def)
  have "?h \<in> set (handles wit_client)" "h_res_tx ?h = Some 0" "distinct (List.map_filter h_res_tx (handles wit_client))"
    by (simp_all add: hs map_filter_simps)
  from client_drop_releases[OF this ch] show ?thesis by blast
qed

end
