(* ===== verification/Client_Delivery.thy ===== *)
theory Client_Delivery
  imports Client_Properties
begin

text \<open>
  A response on its way to the user of a client: the runtime polls the connection and drops it when it is
  over, the user of one response reads its body. What arrives in full is read in full, and its
  end is told.
\<close>

section \<open>A connection with the user of one response\<close>

datatype connection = Live client | Dropped client_chans

fun chans_of :: "connection \<Rightarrow> client_chans" where
  "chans_of (Live cl) = cl_chans cl"
| "chans_of (Dropped c) = c"

fun with_chans :: "client_chans \<Rightarrow> connection \<Rightarrow> connection" where
  "with_chans c (Live cl) = Live (cl\<lparr>cl_chans := c\<rparr>)"
| "with_chans c (Dropped _) = Dropped c"

lemma chans_of_with [simp]: "chans_of (with_chans c k) = c"
  by (cases k) simp_all

text \<open>The runtime polls the connection; one that is ready, with or without an error, it drops.\<close>

fun run_connection :: "http_api \<Rightarrow> waker \<Rightarrow> connection \<Rightarrow> connection" where
  "run_connection api w (Live cl) = (case poll_client api w cl of
      (Pending, cl1) \<Rightarrow> Live cl1
    | (_, cl1) \<Rightarrow> Dropped (connection_drop cl1))"
| "run_connection api w (Dropped c) = Dropped c"

text \<open>A read of the stream with the channel \<open>i\<close>; at the client there is nothing to drive.\<close>

definition client_read :: "waker \<Rightarrow> nat \<Rightarrow> nat \<Rightarrow> recv_stream \<times> connection \<Rightarrow> bytes res \<times> (recv_stream \<times> connection)" where
  "client_read w i = rs_poll_read None (\<lambda>k. cc_in (chans_of k) i)
     (\<lambda>q k. with_chans (on_in i (\<lambda>_. q) (chans_of k)) k) w"

text \<open>A history: \<open>None\<close> polls the connection, \<open>Some n\<close> is a read with a buffer of \<open>n\<close> bytes.\<close>

fun client_run :: "http_api \<Rightarrow> waker \<Rightarrow> waker \<Rightarrow> nat \<Rightarrow> nat option list \<Rightarrow> recv_stream \<times> connection \<Rightarrow>
    bytes \<times> (recv_stream \<times> connection)" where
  "client_run api w w2 i [] s = ([], s)"
| "client_run api w w2 i (None # ops) (rs, k) = client_run api w w2 i ops (rs, run_connection api w k)"
| "client_run api w w2 i (Some n # ops) s = (case client_read w2 i n s of (r, s1) \<Rightarrow>
      (case client_run api w w2 i ops s1 of (out, s2) \<Rightarrow> ((case r of Ok bs \<Rightarrow> bs | _ \<Rightarrow> []) @ out, s2)))"

section \<open>Receiving and having received\<close>

definition idle :: "client \<Rightarrow> bool" where
  "idle cl \<longleftrightarrow> can_poll_write (cl_io cl) \<and> ch_queue (cc_req (cl_chans cl)) = []"

definition taking_body :: "nat \<Rightarrow> recv_stream \<times> connection \<Rightarrow> bool" where
  "taking_body i = (\<lambda>(rs, k). case k of
      Live cl \<Rightarrow> idle cl \<and> (case cl_state cl of
          RecvBody b \<Rightarrow> br_body_tx b = i \<and> reading_fine (rs, b, cl_io cl, cl_chans cl) \<and> ch_senders (cc_in (cl_chans cl) i) = 1
        | _ \<Rightarrow> False)
    | Dropped _ \<Rightarrow> False)"

definition closed_stream :: "recv_stream \<times> recv_chan \<Rightarrow> bool" where
  "closed_stream = (\<lambda>(rs, q). rs_ok (rs, q) \<and> \<not> rs_ended rs \<and> chan_open q \<and> ch_senders q = 0
     \<and> (\<forall>m \<in> set (ch_queue q). \<exists>v. m = Inr v) \<and> tidy (rs, q))"

definition body_taken :: "nat \<Rightarrow> recv_stream \<times> connection \<Rightarrow> bool" where
  "body_taken i = (\<lambda>(rs, k). closed_stream (rs, cc_in (chans_of k) i)
     \<and> (case k of Live cl \<Rightarrow> idle cl \<and> cl_state cl = SendReq | Dropped _ \<Rightarrow> True))"

text \<open>What is still due to the user, and how far it is away.\<close>

definition client_due :: "nat \<Rightarrow> recv_stream \<times> connection \<Rightarrow> bytes" where
  "client_due i = (\<lambda>(rs, k). rs_stream (rs, cc_in (chans_of k) i) @ (case k of
      Live cl \<Rightarrow> (case cl_state cl of RecvBody b \<Rightarrow> lr_stream (br_limit b, cl_io cl) | _ \<Rightarrow> [])
    | Dropped _ \<Rightarrow> []))"

definition client_togo :: "nat \<Rightarrow> recv_stream \<times> connection \<Rightarrow> nat" where
  "client_togo i = (\<lambda>(rs, k). length (client_due i (rs, k)) + (case k of
      Live cl \<Rightarrow> (case cl_state cl of
          RecvBody b \<Rightarrow> io_size (cl_io cl) + (if lr_is_complete (br_limit b) then 1 else 2)
        | _ \<Rightarrow> 0)
    | Dropped _ \<Rightarrow> 0))"

lemma idle_drive:
  assumes "idle cl" "cl_state cl = SendReq"
  shows "\<exists>r q. drive api w cl = (r, cl\<lparr>cl_chans := (cl_chans cl)\<lparr>cc_req := q\<rparr>\<rparr>) \<and> ch_queue q = [] \<and> (r = Pending \<or> r = Ok ())"
proof -
  have cl: "ch_queue (cc_req (cl_chans cl)) = []" "can_poll_write (cl_io cl)" using assms(1) by (simp_all add: idle_def)
  have eq: "\<lparr>cl_io = cl_io cl, cl_state = SendReq, cl_chans = c\<rparr> = cl\<lparr>cl_chans := c\<rparr>" for c using assms(2) by simp
  show ?thesis
    using cl assms(2) by (cases rule: poll_recv_cases[of w True "cc_req (cl_chans cl)"])
      (auto simp: drive.simps[of api w cl] drive_round_def poll_finish_idle poll_send_req_def eq)
qed

lemma connection_drop_idle:
  assumes "ch_queue (cc_req (cl_chans cl)) = []" "cl_state cl = SendReq"
  shows "cc_in (connection_drop cl) = cc_in (cl_chans cl)" "cc_res (connection_drop cl) = cc_res (cl_chans cl)"
  using assms by (simp_all add: connection_drop_def drop_state_def Let_def)

lemma connection_drop_receiver:
  assumes "ch_queue (cc_req (cl_chans cl)) = []" "cl_state cl = RecvBody b"
  shows "cc_in (connection_drop cl) = (cc_in (cl_chans cl))(br_body_tx b := sender_drop (cc_in (cl_chans cl) (br_body_tx b)))"
    "cc_res (connection_drop cl) = cc_res (cl_chans cl)"
  using assms by (simp_all add: connection_drop_def drop_state_def Let_def)

lemma run_received:
  assumes "body_taken i (rs, k)"
  shows "body_taken i (rs, run_connection api w k)" "client_due i (rs, run_connection api w k) = client_due i (rs, k)"
    "client_togo i (rs, run_connection api w k) = client_togo i (rs, k)" "cc_res (chans_of (run_connection api w k)) = cc_res (chans_of k)"
proof -
  have "body_taken i (rs, run_connection api w k) \<and> client_due i (rs, run_connection api w k) = client_due i (rs, k)
    \<and> client_togo i (rs, run_connection api w k) = client_togo i (rs, k) \<and> cc_res (chans_of (run_connection api w k)) = cc_res (chans_of k)"
  proof (cases k)
    case (Live cl)
    then have cl: "idle cl" "cl_state cl = SendReq" "closed_stream (rs, cc_in (cl_chans cl) i)" using assms by (simp_all add: body_taken_def)
    obtain r q where d: "drive api w cl = (r, cl\<lparr>cl_chans := (cl_chans cl)\<lparr>cc_req := q\<rparr>\<rparr>)" "ch_queue q = []" "r = Pending \<or> r = Ok ()"
      using idle_drive[OF cl(1,2)] by blast
    let ?cl = "cl\<lparr>cl_chans := (cl_chans cl)\<lparr>cc_req := q\<rparr>\<rparr>"
    have drop: "cc_in (connection_drop ?cl) = cc_in (cl_chans cl)" "cc_res (connection_drop ?cl) = cc_res (cl_chans cl)"
      using connection_drop_idle[of ?cl] d(2) cl(2) by simp_all
    from d(3) show ?thesis
      using d(1,2) cl drop Live
      by (auto simp: poll_client_def body_taken_def idle_def client_due_def client_togo_def)
  qed (use assms in simp)
  then show "body_taken i (rs, run_connection api w k)" "client_due i (rs, run_connection api w k) = client_due i (rs, k)"
    "client_togo i (rs, run_connection api w k) = client_togo i (rs, k)" "cc_res (chans_of (run_connection api w k)) = cc_res (chans_of k)" by blast+
qed

section \<open>One poll while the body arrives\<close>

lemma poll_read_body_frame:
  assumes "poll_read_body w (b, io, c) = (r, b1, io1, c1)" "receiver_ok b" "rx_ok io" "chan_open (cc_in c (br_body_tx b))"
  shows "same_tx io io1" "ch_senders (cc_in c1 (br_body_tx b)) = ch_senders (cc_in c (br_body_tx b))" "cc_req c1 = cc_req c"
    "cc_res c1 = cc_res c" "r = Ok x \<Longrightarrow> lr_is_complete (br_limit b1) \<and> (x = None \<or> x = Some SendReq)"
    "r = Pending \<Longrightarrow> \<not> lr_is_complete (br_limit b)"
proof -
  obtain q b2 io2 c2 where q: "read_body_loop w (b, io, c) = (q, b2, io2, c2)" by (metis prod_cases4)
  have eq: "b1 = b2" "io1 = io2" "c1 = c2" "r = Ok x \<Longrightarrow> q = Ok ()" "r = Pending \<Longrightarrow> q = Pending"
    using assms(1) q by (cases q; auto simp: poll_read_body_def)+
  obtain bss where bss: "body_moved (b, io, c) bss (b1, io1, c1)" "q = Ok () \<longrightarrow> lr_is_complete (br_limit b1)"
    using read_body_loop_spec[OF q assms(2,3)] eq by blast
  have c1: "c1 = on_in (br_body_tx b) (\<lambda>_. cc_in c1 (br_body_tx b)) c" using bss(1) by (simp add: body_moved_def)
  show "same_tx io io1" "ch_senders (cc_in c1 (br_body_tx b)) = ch_senders (cc_in c (br_body_tx b))"
    using bss(1) by (simp_all add: body_moved_def reads_only_def)
  show "cc_req c1 = cc_req c" using poll_read_body_req(1)[OF assms(1)] .
  show "cc_res c1 = cc_res c" by (subst c1) simp
  show "r = Ok x \<Longrightarrow> lr_is_complete (br_limit b1) \<and> (x = None \<or> x = Some SendReq)"
    using bss(2) eq(4) assms(1) q by (cases q) (auto simp: poll_read_body_def)
  show "\<not> lr_is_complete (br_limit b)" if "r = Pending"
  proof
    assume "lr_is_complete (br_limit b)"
    then have "q = Ok ()" using q by (simp add: read_body_loop.simps[of w b io c])
    with eq(5) that show False by simp
  qed
qed

lemma sender_drop_count: "ch_senders (sender_drop q) = ch_senders q - 1"
  by (simp add: sender_drop_def sender_release_def sender_drop_body_def wake_all_def)

lemma closed_stream_drop:
  assumes "reading_fine (rs, b, io, c)" "ch_senders (cc_in c (br_body_tx b)) = 1"
  shows "closed_stream (rs, sender_drop (cc_in c (br_body_tx b)))"
  using assms
  by (simp add: closed_stream_def reading_fine_def reading_ok_def rs_live_def rs_ok_def tidy_def sender_drop_count)

lemma run_connection_drive: "drive api w cl = drive api w cl1 \<Longrightarrow> run_connection api w (Live cl) = run_connection api w (Live cl1)"
  by (simp add: poll_client_def)

lemma taking_bodyE:
  assumes "taking_body i (rs, k)"
  obtains cl b where "k = Live cl" "cl_state cl = RecvBody b" "br_body_tx b = i" "can_poll_write (cl_io cl)"
    "ch_queue (cc_req (cl_chans cl)) = []" "reading_fine (rs, b, cl_io cl, cl_chans cl)" "ch_senders (cc_in (cl_chans cl) i) = 1"
  using assms by (auto simp: taking_body_def idle_def split: connection.splits client_state.splits)

lemma run_receiving:
  assumes "taking_body i (rs, k)" "k1 = run_connection api w k"
  shows "(taking_body i (rs, k1) \<and> (rs_stream (rs, cc_in (chans_of k1) i) = [] \<longrightarrow> client_togo i (rs, k1) < client_togo i (rs, k))
      \<or> body_taken i (rs, k1) \<and> client_togo i (rs, k1) < client_togo i (rs, k))
    \<and> client_due i (rs, k1) = client_due i (rs, k) \<and> client_togo i (rs, k1) \<le> client_togo i (rs, k)
    \<and> cc_res (chans_of k1) = cc_res (chans_of k)"
proof -
  obtain cl b where cl: "k = Live cl" "cl_state cl = RecvBody b" "br_body_tx b = i" "can_poll_write (cl_io cl)"
    "ch_queue (cc_req (cl_chans cl)) = []" "reading_fine (rs, b, cl_io cl, cl_chans cl)" "ch_senders (cc_in (cl_chans cl) i) = 1"
    using assms(1) by (rule taking_bodyE)
  let ?io = "cl_io cl" and ?c = "cl_chans cl"
  obtain r b1 io1 c1 where r: "poll_read_body w (b, ?io, ?c) = (r, b1, io1, c1)" by (metis prod_cases4)
  have ok: "receiver_ok b" "rx_ok ?io" "chan_open (cc_in ?c (br_body_tx b))"
    using cl(6) by (simp_all add: reading_fine_def reading_ok_def rs_live_def)
  note poll = reading_poll[OF cl(6) r] and frame = poll_read_body_frame[OF r ok]
  have nxt: "reading_fine (rs, b1, io1, c1)" "br_body_tx b1 = i" "io_size io1 \<le> io_size ?io"
    "at_hand (rs, b, ?io, ?c) @ to_come (rs, b, ?io, ?c) = at_hand (rs, b1, io1, c1) @ to_come (rs, b1, io1, c1)"
    using poll cl(3) by (simp_all add: reading_next_def)
  have same: "can_poll_write io1" "ch_queue (cc_req c1) = []" "ch_senders (cc_in c1 i) = 1" "cc_res c1 = cc_res ?c"
    using frame cl(3-5,7) same_txD(3)[OF frame(1)] by simp_all
  let ?cl = "\<lparr>cl_io = io1, cl_state = RecvBody b1, cl_chans = c1\<rparr>"
  have due: "client_due i (rs, k) = at_hand (rs, b1, io1, c1) @ to_come (rs, b1, io1, c1)"
    using nxt(4) cl(1-3) by (simp add: client_due_def at_hand_def to_come_def)
  have togo: "client_togo i (rs, k) = length (client_due i (rs, k)) + io_size ?io + (if lr_is_complete (br_limit b) then 1 else 2)"
    using cl(1,2) by (simp add: client_togo_def)
  show ?thesis
  proof (cases r)
    case Pending
    have k1: "k1 = Live ?cl"
      using assms(2) cl(1,2,4) r Pending by (simp add: poll_client_def drive.simps[of api w cl] drive_round_def poll_finish_idle)
    have rec: "taking_body i (rs, k1)" using k1 nxt(1,2) same by (simp add: taking_body_def idle_def)
    have due1: "client_due i (rs, k1) = client_due i (rs, k)"
      using k1 due nxt(2) by (simp add: client_due_def at_hand_def to_come_def)
    have togo1: "client_togo i (rs, k1) = length (client_due i (rs, k)) + io_size io1 + (if lr_is_complete (br_limit b1) then 1 else 2)"
      using k1 due1 by (simp add: client_togo_def)
    have half: "client_togo i (rs, k) = length (client_due i (rs, k)) + io_size ?io + 2" using togo frame(6)[OF Pending] by simp
    have "client_togo i (rs, k1) < client_togo i (rs, k)" if empty: "rs_stream (rs, cc_in (chans_of k1) i) = []"
    proof -
      have "at_hand (rs, b1, io1, c1) = []" using empty k1 nxt(2) by (simp add: at_hand_def)
      then have "reading_done (rs, b1, io1, c1) \<or> reading_togo (rs, b1, io1, c1) < reading_togo (rs, b, ?io, ?c)" using poll by blast
      then have "lr_is_complete (br_limit b1) \<or> io_size io1 < io_size ?io"
      proof
        assume less: "reading_togo (rs, b1, io1, c1) < reading_togo (rs, b, ?io, ?c)"
        have "length (at_hand (rs, b, ?io, ?c)) + length (to_come (rs, b, ?io, ?c))
            = length (at_hand (rs, b1, io1, c1)) + length (to_come (rs, b1, io1, c1))"
          using nxt(4) by (metis length_append)
        with less show ?thesis by (simp add: reading_togo_def)
      qed (simp add: reading_done_def)
      with half togo1 nxt(3) show ?thesis by auto
    qed
    with rec due1 togo1 half nxt(3) k1 same(4) cl(1) show ?thesis by auto
  next
    case (Ok x)
    note complete = frame(5)[OF Ok]
    have none: "to_come (rs, b1, io1, c1) = []" using lr_drain.finished_stream[of "(br_limit b1, io1)"] complete by (simp add: to_come_def)
    have closed: "closed_stream (rs, sender_drop (cc_in c1 i))" using closed_stream_drop[OF nxt(1)] nxt(2) same(3) by simp
    have left: "rs_stream (rs, sender_drop (cc_in c1 i)) = client_due i (rs, k)"
      using due none nxt(2) by (simp add: at_hand_def rs_stream_def)
    have fewer: "length (client_due i (rs, k)) < client_togo i (rs, k)" using togo by simp
    show ?thesis
    proof (cases x)
      case None
      have "k1 = Dropped (connection_drop ?cl)"
        using assms(2) cl(1,2,4) r Ok None by (simp add: poll_client_def drive.simps[of api w cl] drive_round_def poll_finish_idle)
      moreover have "cc_in (connection_drop ?cl) i = sender_drop (cc_in c1 i)" "cc_res (connection_drop ?cl) = cc_res ?c"
        using connection_drop_receiver[of ?cl b1] same(2,4) nxt(2) by simp_all
      ultimately show ?thesis using closed left fewer cl(1)
        by (simp add: body_taken_def client_due_def client_togo_def)
    next
      case (Some st)
      then have st: "x = Some SendReq" using complete by simp
      let ?cl2 = "\<lparr>cl_io = io1, cl_state = SendReq, cl_chans = on_in i sender_drop c1\<rparr>"
      have "drive api w cl = drive api w ?cl2"
        using cl(2,4) r Ok st nxt(2) by (simp add: drive.simps[of api w cl] drive_round_def poll_finish_idle)
      then have k1: "k1 = run_connection api w (Live ?cl2)" using assms(2) cl(1) run_connection_drive by metis
      have rec: "body_taken i (rs, Live ?cl2)" using closed same(1,2) by (simp add: body_taken_def idle_def)
      have eq: "client_due i (rs, Live ?cl2) = client_due i (rs, k)" "client_togo i (rs, Live ?cl2) = length (client_due i (rs, k))"
        using left by (simp_all add: client_due_def client_togo_def)
      note run = run_received[OF rec, of api w, folded k1]
      have "cc_res (chans_of k1) = cc_res (chans_of k)" using run(4) same(4) cl(1) by simp
      with run(1-3) eq fewer show ?thesis by simp
    qed
  qed (use poll in auto)
qed

section \<open>Polls and reads in turns\<close>

lemma client_read_eq:
  assumes "0 < n" "poll_body_data w n (rs, cc_in (chans_of k) i) = (r, rs1, q)"
  shows "client_read w i n (rs, k) = (r, rs1, with_chans (on_in i (\<lambda>_. q) (chans_of k)) k)"
  using assms by (simp add: client_read_def rs_poll_read_def poll_drive_server_def)

text \<open>A read gets what is there; when nothing is there it tells the end, if the connection has given up the sender.\<close>

lemma read_receiving:
  assumes "taking_body i (rs, k)" "0 < n" "client_read w i n (rs, k) = (r, rs1, k1)"
  shows "taking_body i (rs1, k1) \<and> client_due i (rs, k) = (case r of Ok bs \<Rightarrow> bs | _ \<Rightarrow> []) @ client_due i (rs1, k1)
    \<and> client_togo i (rs, k) = length (case r of Ok bs \<Rightarrow> bs | _ \<Rightarrow> []) + client_togo i (rs1, k1)
    \<and> (rs_stream (rs, cc_in (chans_of k) i) \<noteq> [] \<longrightarrow> (case r of Ok bs \<Rightarrow> bs | _ \<Rightarrow> []) \<noteq> [])"
proof -
  obtain cl b where cl: "k = Live cl" "cl_state cl = RecvBody b" "br_body_tx b = i" "can_poll_write (cl_io cl)"
    "ch_queue (cc_req (cl_chans cl)) = []" "reading_fine (rs, b, cl_io cl, cl_chans cl)" "ch_senders (cc_in (cl_chans cl) i) = 1"
    using assms(1) by (rule taking_bodyE)
  obtain r0 rs0 q where q: "poll_body_data w n (rs, cc_in (cl_chans cl) i) = (r0, rs0, q)" by (metis prod_cases3)
  have eq: "r = r0" "rs1 = rs0" "k1 = Live (cl\<lparr>cl_chans := on_in i (\<lambda>_. q) (cl_chans cl)\<rparr>)"
    using assms(3) client_read_eq[OF assms(2), of w rs k i] q cl(1) by simp_all
  obtain bs where bs: "reading_next (rs, b, cl_io cl, cl_chans cl) bs (rs0, b, cl_io cl, on_in i (\<lambda>_. q) (cl_chans cl))"
    "(case r0 of Ok bs \<Rightarrow> bs | _ \<Rightarrow> []) = bs" "at_hand (rs, b, cl_io cl, cl_chans cl) \<noteq> [] \<longrightarrow> bs \<noteq> []"
    using reading_read[OF cl(6) assms(2), of w r0 rs0 q] q cl(3) by auto
  have live: "rs_ok (rs, cc_in (cl_chans cl) i)" "\<not> rs_ended rs" "chan_open (cc_in (cl_chans cl) i)"
    "\<forall>m \<in> set (ch_queue (cc_in (cl_chans cl) i)). \<exists>v. m = Inr v"
    using cl(3,6) by (auto simp: reading_fine_def reading_ok_def rs_live_def)
  have senders: "ch_senders q = 1" using poll_body_data_keeps[OF live q] cl(7) by simp
  have "taking_body i (rs1, k1)" using eq cl bs(1) senders by (simp add: taking_body_def idle_def reading_next_def)
  moreover have due: "client_due i (rs, k) = bs @ client_due i (rs1, k1)"
    using eq cl(1-3) bs(1) by (simp add: client_due_def reading_next_def at_hand_def to_come_def)
  moreover have "client_togo i (rs, k) = length bs + client_togo i (rs1, k1)"
    using due eq cl(1,2) by (simp add: client_togo_def)
  moreover have "rs_stream (rs, cc_in (chans_of k) i) \<noteq> [] \<longrightarrow> bs \<noteq> []" using bs(3) cl(1,3) by (simp add: at_hand_def)
  ultimately show ?thesis using bs(2) eq(1) by simp
qed

lemma read_received:
  assumes "body_taken i (rs, k)" "0 < n" "client_read w i n (rs, k) = (r, rs1, k1)"
  shows "client_due i (rs, k) = (case r of Ok bs \<Rightarrow> bs | _ \<Rightarrow> []) @ client_due i (rs1, k1)
    \<and> (rs_ended rs1 \<and> client_due i (rs1, k1) = [] \<or> body_taken i (rs1, k1) \<and> client_togo i (rs1, k1) < client_togo i (rs, k))"
proof -
  let ?q = "cc_in (chans_of k) i"
  have cs: "rs_ok (rs, ?q)" "\<not> rs_ended rs" "chan_open ?q" "\<forall>m \<in> set (ch_queue ?q). \<exists>v. m = Inr v" "tidy (rs, ?q)" "ch_senders ?q = 0"
    using assms(1) by (auto simp: body_taken_def closed_stream_def)
  obtain r0 rs0 q where q: "poll_body_data w n (rs, ?q) = (r0, rs0, q)" by (metis prod_cases3)
  have eq: "r = r0" "rs1 = rs0" "k1 = with_chans (on_in i (\<lambda>_. q) (chans_of k)) k"
    using assms(3) client_read_eq[OF assms(2) q] by simp_all
  note keeps = poll_body_data_keeps[OF cs(1-4) q] and gets = poll_body_data_gets[OF cs(1,2,4,5) assms(2) q]
  have over: "client_due i (rs, k) = rs_stream (rs, ?q)" "client_togo i (rs, k) = length (rs_stream (rs, ?q))"
    using assms(1) by (cases k; simp add: body_taken_def client_due_def client_togo_def)+
  have over1: "client_due i (rs1, k1) = rs_stream (rs0, q)" "client_togo i (rs1, k1) = length (rs_stream (rs0, q))"
    using assms(1) eq by (cases k; simp add: body_taken_def client_due_def client_togo_def)+
  show ?thesis
  proof (cases "rs_ended rs0")
    case True
    then have "rs_stream (rs0, q) = []" by (simp add: rs_stream_def)
    with True keeps over over1 eq show ?thesis by auto
  next
    case False
    have "closed_stream (rs0, q)" using keeps gets(1) cs(4,6) False by (auto simp: closed_stream_def)
    then have "body_taken i (rs1, k1)" using assms(1) eq by (cases k) (simp_all add: body_taken_def idle_def)
    moreover have "rs_stream (rs, ?q) \<noteq> []" using gets(3) cs(6) False by auto
    with gets(2) obtain bs where "r0 = Ok bs" "bs \<noteq> []" by blast
    ultimately show ?thesis using keeps over over1 eq by (cases bs) auto
  qed
qed

lemma client_round:
  assumes "taking_body i s \<or> body_taken i s" "0 < n"
  shows "\<exists>bs s1. client_run api w w2 i (None # Some n # ops) s = (case client_run api w w2 i ops s1 of (out, s2) \<Rightarrow> (bs @ out, s2))
    \<and> client_due i s = bs @ client_due i s1
    \<and> (rs_ended (fst s1) \<and> client_due i s1 = [] \<or> (taking_body i s1 \<or> body_taken i s1) \<and> client_togo i s1 < client_togo i s)"
proof -
  obtain rs k where s: "s = (rs, k)" by fastforce
  let ?k = "run_connection api w k"
  obtain r rs1 k1 where r: "client_read w2 i n (rs, ?k) = (r, rs1, k1)" by (metis prod_cases3)
  let ?bs = "case r of Ok bs \<Rightarrow> bs | _ \<Rightarrow> []"
  have run: "client_run api w w2 i (None # Some n # ops) s = (case client_run api w w2 i ops (rs1, k1) of (out, s2) \<Rightarrow> (?bs @ out, s2))"
    using r s by simp
  have "client_due i s = ?bs @ client_due i (rs1, k1)
    \<and> (rs_ended rs1 \<and> client_due i (rs1, k1) = [] \<or> (taking_body i (rs1, k1) \<or> body_taken i (rs1, k1)) \<and> client_togo i (rs1, k1) < client_togo i s)"
    using assms(1)
  proof
    assume a: "taking_body i s"
    note step = run_receiving[OF a[unfolded s] refl, of api w]
    then consider "taking_body i (rs, ?k)" | "body_taken i (rs, ?k)" by blast
    then show ?thesis
    proof cases
      case 1
      note rd = read_receiving[OF 1 assms(2) r]
      have "client_togo i (rs1, k1) < client_togo i s"
      proof (cases "rs_stream (rs, cc_in (chans_of ?k) i) = []")
        case True
        have "\<not> body_taken i (rs, ?k)" using 1 by (auto simp: taking_body_def body_taken_def split: connection.splits client_state.splits)
        then show ?thesis using step rd True s by auto
      next
        case False
        then have "0 < length ?bs" using rd by blast
        moreover have "client_togo i (rs, ?k) \<le> client_togo i s" "client_togo i (rs, ?k) = length ?bs + client_togo i (rs1, k1)"
          using step rd s by simp_all
        ultimately show ?thesis by linarith
      qed
      with step rd s show ?thesis by simp
    next
      case 2
      from read_received[OF 2 assms(2) r] step s show ?thesis by auto
    qed
  next
    assume a: "body_taken i s"
    note step = run_received[OF a[unfolded s], of api w]
    from read_received[OF step(1) assms(2) r] step s show ?thesis by auto
  qed
  with run show ?thesis by auto
qed

lemma client_read_ended: "rs_ended rs \<Longrightarrow> 0 < n \<Longrightarrow> \<exists>k1. client_read w i n (rs, k) = (Ok [], rs, k1)"
  by (simp add: client_read_def rs_poll_read_def poll_drive_server_def poll_body_data_def)

lemma client_run_ended:
  assumes "rs_ended (fst s)" "0 < n"
  shows "\<exists>s1. client_run api w w2 i (concat (replicate k [None, Some n])) s = ([], s1) \<and> rs_ended (fst s1)"
  using assms(1)
proof (induction k arbitrary: s)
  case (Suc k)
  obtain rs c where s: "s = (rs, c)" by fastforce
  obtain c1 where "client_read w2 i n (rs, run_connection api w c) = (Ok [], rs, c1)"
    using client_read_ended[OF _ assms(2)] Suc.prems s by fastforce
  with Suc.IH[of "(rs, c1)"] Suc.prems s show ?case by auto
qed simp

lemma client_run_complete:
  assumes "taking_body i s \<or> body_taken i s" "0 < n" "client_togo i s < k"
  shows "\<exists>s1. client_run api w w2 i (concat (replicate k [None, Some n])) s = (client_due i s, s1) \<and> rs_ended (fst s1)"
  using assms(1,3)
proof (induction k arbitrary: s)
  case (Suc k)
  let ?ops = "concat (replicate k [None, Some n])"
  obtain bs s1 where s1: "client_run api w w2 i (None # Some n # ?ops) s = (case client_run api w w2 i ?ops s1 of (out, s2) \<Rightarrow> (bs @ out, s2))"
    "client_due i s = bs @ client_due i s1"
    "rs_ended (fst s1) \<and> client_due i s1 = [] \<or> (taking_body i s1 \<or> body_taken i s1) \<and> client_togo i s1 < client_togo i s"
    using client_round[OF Suc.prems(1) assms(2), of api w w2 ?ops] by blast
  from s1(3) have "\<exists>s2. client_run api w w2 i ?ops s1 = (client_due i s1, s2) \<and> rs_ended (fst s2)"
  proof
    assume "rs_ended (fst s1) \<and> client_due i s1 = []"
    with client_run_ended[of s1 n api w w2 i k] assms(2) show ?thesis by auto
  next
    assume "(taking_body i s1 \<or> body_taken i s1) \<and> client_togo i s1 < client_togo i s"
    with Suc.IH[of s1] Suc.prems(2) show ?thesis by simp
  qed
  then obtain s2 where "client_run api w w2 i ?ops s1 = (client_due i s1, s2)" "rs_ended (fst s2)" by blast
  with s1(1,2) show ?case by simp
qed simp

section \<open>The head of the response\<close>

text \<open>A connection that has sent a request and its body, and waits for the response on behalf of the channel \<open>j\<close>.\<close>

definition awaits :: "nat \<Rightarrow> request \<Rightarrow> client \<Rightarrow> bool" where
  "awaits j req cl \<longleftrightarrow> idle cl \<and> rx_ok (cl_io cl) \<and> chan_open (cc_res (cl_chans cl) j) \<and> ch_queue (cc_res (cl_chans cl) j) = []
     \<and> (case cl_state cl of RecvRes b \<Rightarrow> bidirect_ok b \<and> h_req (cbi_handle b) = req \<and> h_body_rx (cbi_handle b) = None
          \<and> h_res_tx (cbi_handle b) = Some j | _ \<Rightarrow> False)"

lemma awaitsE:
  assumes "awaits j req cl"
  obtains b where "cl_state cl = RecvRes b" "bidirect_ok b" "h_req (cbi_handle b) = req" "h_body_rx (cbi_handle b) = None"
    "h_res_tx (cbi_handle b) = Some j" "can_poll_write (cl_io cl)" "rx_ok (cl_io cl)" "ch_queue (cc_req (cl_chans cl)) = []"
    "chan_open (cc_res (cl_chans cl) j)" "ch_queue (cc_res (cl_chans cl) j) = []"
  using assms by (auto simp: awaits_def idle_def split: client_state.splits)

lemma bidirect_loop_response:
  assumes "h_body_rx (cbi_handle b) = None" "h_res_tx (cbi_handle b) = Some j" "poll_response api (b, io, c) = (r, b1, io1, c1)"
  shows "bidirect_loop api w (b, io, c) = (r, b1, io1, c1)"
proof -
  have waits: "res_waits (b, io, c)" "\<not> body_waits (b1, io1, c1)"
    using assms(1,2) poll_response_frame(1)[OF assms(3)] by (simp_all add: res_waits_def body_waits_def)
  have over: "r = Ok () \<Longrightarrow> \<not> res_waits (b1, io1, c1)" using poll_response_frame(7)[OF assms(3)] by (simp add: res_waits_def)
  show ?thesis
  proof (cases r)
    case (Ok u)
    with over waits(2) have "bidirect_loop api w (b1, io1, c1) = (Ok (), b1, io1, c1)" by (simp add: bidirect_loop.simps[of api w "(b1, io1, c1)"])
    with waits assms(3) Ok show ?thesis by (simp add: bidirect_loop.simps[of api w "(b, io, c)"] poll_if_def)
  qed (use waits assms(3) in \<open>simp_all add: bidirect_loop.simps[of api w "(b, io, c)"] poll_if_def\<close>)
qed

lemma await_waits:
  assumes "awaits j req cl" "poll_for_crlfcrlf (try_parse_res api) (cl_io cl) = (Pending, io1)"
  shows "run_connection api w (Live cl) = Live (cl\<lparr>cl_io := io1\<rparr>) \<and> awaits j req (cl\<lparr>cl_io := io1\<rparr>)"
proof -
  obtain b where b: "cl_state cl = RecvRes b" "h_body_rx (cbi_handle b) = None" "h_res_tx (cbi_handle b) = Some j" "can_poll_write (cl_io cl)"
    "rx_ok (cl_io cl)" using assms(1) by (rule awaitsE)
  have "poll_response api (b, cl_io cl, cl_chans cl) = (Pending, b, io1, cl_chans cl)" using assms(2) by (simp add: poll_response_def)
  note loop = bidirect_loop_response[OF b(2,3) this, of w]
  have "\<lparr>cl_io = io1, cl_state = RecvRes b, cl_chans = cl_chans cl\<rparr> = cl\<lparr>cl_io := io1\<rparr>" using b(1) by simp
  then have "run_connection api w (Live cl) = Live (cl\<lparr>cl_io := io1\<rparr>)"
    using b(1,4) loop by (simp add: poll_client_def drive.simps[of api w cl] drive_round_def poll_finish_idle poll_bidirect_def)
  moreover have "rx_ok io1" "can_poll_write io1"
    using poll_for_crlfcrlf_safe(2)[OF b(5) assms(2)] b(4) same_txD(3) by auto
  ultimately show ?thesis using assms(1) by (simp add: awaits_def idle_def)
qed

lemma await_gets:
  assumes "awaits j req cl" "poll_for_crlfcrlf (try_parse_res api) (cl_io cl) = (Ok (Inr (Some res)), io1)"
    and "\<not> response_is_no_body req res (lr_from_headers (res_headers res) True)"
    and "lr_fine (lr_from_headers (res_headers res) True, io1)"
  shows "\<exists>cl1 i. run_connection api w (Live cl) = run_connection api w (Live cl1) \<and> cl_io cl1 = io1
    \<and> taking_body i (recv_stream_new False, Live cl1)
    \<and> client_due i (recv_stream_new False, Live cl1) = lr_stream (lr_from_headers (res_headers res) True, io1)
    \<and> ch_queue (cc_res (cl_chans cl1) j) = [Inr (res, recv_stream_new False, i)]"
proof -
  let ?l = "lr_from_headers (res_headers res) True" and ?c = "cl_chans cl"
  obtain b where b: "cl_state cl = RecvRes b" "bidirect_ok b" "h_req (cbi_handle b) = req" "h_body_rx (cbi_handle b) = None"
    "h_res_tx (cbi_handle b) = Some j" "can_poll_write (cl_io cl)" "rx_ok (cl_io cl)" "ch_queue (cc_req ?c) = []"
    "chan_open (cc_res ?c j)" "ch_queue (cc_res ?c j) = []" using assms(1) by (rule awaitsE)
  let ?i = "cc_fresh ?c"
  obtain r b1 io2 c1 where r: "poll_response api (b, cl_io cl, ?c) = (r, b1, io2, c1)" by (metis prod_cases4)
  have sent: "fst (sender_send m (cc_res ?c j))"
    "ch_queue (snd (sender_send m (cc_res ?c j))) = [m]" for m
    using b(9,10) by (auto simp: chan_open_def sender_send_def inner_enqueue_def wake_all_def)
  from r b(5) have new: "r = Ok () \<and> io2 = io1 \<and> b1 = \<lparr>cbi_handle = (cbi_handle b)\<lparr>h_res_tx := None\<rparr>,
        cbi_response_allows_reuse = allow_reuse (res_headers res) (res_version res), cbi_holder = Some (?i, ?l)\<rparr>
      \<and> cc_req c1 = cc_req ?c \<and> cc_in c1 ?i = receiver_new 1 \<and> ch_queue (cc_res c1 j) = [Inr (res, recv_stream_new False, ?i)]"
  proof (cases rule: poll_response_cases)
    case (Response res' no_body limit recv)
    have "res' = res" "io2 = io1" using Response(1) assms(2) by simp_all
    moreover from this have "no_body = False" "limit = ?l" using Response(3,4) assms(3) b(3) by simp_all
    ultimately show ?thesis using Response(2,5-7,10,11) sent by simp
  qed (use assms(2) in auto)
  note loop = bidirect_loop_response[OF b(4,5) r, of w]
  obtain br b2 where br: "after_bidirect b1 = (Some (RecvBody br), b2)" "br_limit br = ?l" "br_body_tx br = ?i"
    using new by (simp add: after_bidirect_def Let_def)
  have io1: "rx_ok io1" "can_poll_write io1" "bidirect_ok b1"
    using poll_response_ok(2)[OF r _ b(7,2)] b(5,6) new same_txD(3) by auto
  have ok: "receiver_ok br" using after_bidirect_ok(1)[OF io1(3) br(1) refl] by (simp add: state_ok_def)
  let ?cl = "\<lparr>cl_io = io1, cl_state = RecvBody br, cl_chans = c1\<rparr>"
  have "drive api w cl = drive api w ?cl"
    using b(1,6) loop new br(1) by (subst drive.simps[of api w cl]) (simp add: drive_round_def poll_finish_idle poll_bidirect_def)
  note run = run_connection_drive[OF this]
  have rcv: "taking_body ?i (recv_stream_new False, Live ?cl)"
    using io1 b(8) new br assms(4) ok
    by (simp add: taking_body_def idle_def reading_fine_def reading_ok_def rs_live_def rs_ok_def tidy_def recv_stream_new_def
        receiver_new_def chan_open_def)
  moreover have "client_due ?i (recv_stream_new False, Live ?cl) = lr_stream (?l, io1)"
    using new br by (simp add: client_due_def rs_stream_def recv_stream_new_def ready_bytes_def receiver_new_def)
  ultimately show ?thesis using run new by (intro exI[of _ ?cl] exI[of _ ?i]) simp
qed

lemma runs_keep:
  assumes "taking_body i (rs, k) \<or> body_taken i (rs, k)"
  shows "(taking_body i (rs, (run_connection api w ^^ m) k) \<or> body_taken i (rs, (run_connection api w ^^ m) k))
    \<and> client_due i (rs, (run_connection api w ^^ m) k) = client_due i (rs, k)
    \<and> client_togo i (rs, (run_connection api w ^^ m) k) \<le> client_togo i (rs, k)
    \<and> cc_res (chans_of ((run_connection api w ^^ m) k)) = cc_res (chans_of k)"
proof (induction m)
  case (Suc m)
  let ?k = "(run_connection api w ^^ m) k"
  from Suc have "(taking_body i (rs, run_connection api w ?k) \<or> body_taken i (rs, run_connection api w ?k))
    \<and> client_due i (rs, run_connection api w ?k) = client_due i (rs, ?k)
    \<and> client_togo i (rs, run_connection api w ?k) \<le> client_togo i (rs, ?k)
    \<and> cc_res (chans_of (run_connection api w ?k)) = cc_res (chans_of ?k)"
    using run_receiving[of i rs ?k _ api w, OF _ refl] run_received[of i rs ?k api w] by auto
  with Suc show ?case by auto
qed (use assms in simp)

lemma repoll_response:
  assumes "awaits j req cl" "repoll m (poll_for_crlfcrlf (try_parse_res api)) (cl_io cl) = (Ok (Inr (Some res)), io1)"
    and "\<not> response_is_no_body req res (lr_from_headers (res_headers res) True)"
    and "lr_fine (lr_from_headers (res_headers res) True, io1)"
  shows "\<exists>i. let k = (run_connection api w ^^ m) (Live cl); s = (recv_stream_new False, k) in
      (taking_body i s \<or> body_taken i s) \<and> client_due i s = lr_stream (lr_from_headers (res_headers res) True, io1)
    \<and> client_togo i s \<le> length (client_due i s) + io_size io1 + 2
    \<and> ch_queue (cc_res (chans_of k) j) = [Inr (res, recv_stream_new False, i)]"
  using assms(1,2)
proof (induction m arbitrary: cl)
  case (Suc m)
  obtain r io2 where r: "poll_for_crlfcrlf (try_parse_res api) (cl_io cl) = (r, io2)" by fastforce
  show ?case
  proof (cases "r = Pending")
    case True
    note wait = await_waits[OF Suc.prems(1) r[unfolded True], of w]
    have "repoll m (poll_for_crlfcrlf (try_parse_res api)) (cl_io (cl\<lparr>cl_io := io2\<rparr>)) = (Ok (Inr (Some res)), io1)"
      using Suc.prems(2) r True by simp
    from Suc.IH[OF _ this] wait show ?thesis by (simp only: funpow_Suc_right o_def)
  next
    case False
    then have "r = Ok (Inr (Some res))" "io2 = io1" using Suc.prems(2) r by (cases r; simp)+
    then obtain cl1 i where cl1: "run_connection api w (Live cl) = run_connection api w (Live cl1)" "cl_io cl1 = io1"
      "taking_body i (recv_stream_new False, Live cl1)"
      "client_due i (recv_stream_new False, Live cl1) = lr_stream (lr_from_headers (res_headers res) True, io1)"
      "ch_queue (cc_res (cl_chans cl1) j) = [Inr (res, recv_stream_new False, i)]"
      using await_gets[OF Suc.prems(1) _ assms(3,4), of api w] r by blast
    let ?k = "(run_connection api w ^^ Suc m) (Live cl)" and ?rs = "recv_stream_new False"
    have eq: "(run_connection api w ^^ Suc m) (Live cl1) = ?k"
      by (simp only: funpow_Suc_right o_def cl1(1))
    have togo: "client_togo i (?rs, Live cl1) \<le> length (client_due i (?rs, Live cl1)) + io_size io1 + 2"
      using cl1(2,3) by (auto simp: client_togo_def taking_body_def split: client_state.splits)
    have keep: "taking_body i (?rs, ?k) \<or> body_taken i (?rs, ?k)" "client_due i (?rs, ?k) = client_due i (?rs, Live cl1)"
      "client_togo i (?rs, ?k) \<le> client_togo i (?rs, Live cl1)" "cc_res (chans_of ?k) = cc_res (cl_chans cl1)"
      using runs_keep[where i = i and rs = ?rs and k = "Live cl1" and api = api and w = w and m = "Suc m", unfolded eq] cl1(3) by auto
    then show ?thesis unfolding Let_def using togo cl1(4,5) by (intro exI[of _ i]) (simp del: funpow.simps)
  qed
qed simp

section \<open>From end to end\<close>

text \<open>Taking the response from its channel touches nothing the body depends on.\<close>

lemma with_res:
  assumes "cc_in c = cc_in (chans_of k)" "cc_req c = cc_req (chans_of k)"
  shows "taking_body i (rs, with_chans c k) = taking_body i (rs, k)" "body_taken i (rs, with_chans c k) = body_taken i (rs, k)"
    "client_due i (rs, with_chans c k) = client_due i (rs, k)" "client_togo i (rs, with_chans c k) = client_togo i (rs, k)"
proof -
  have "client_due i (rs, with_chans c k) = client_due i (rs, k) \<and> client_togo i (rs, with_chans c k) = client_togo i (rs, k)
    \<and> taking_body i (rs, with_chans c k) = taking_body i (rs, k) \<and> body_taken i (rs, with_chans c k) = body_taken i (rs, k)"
  proof (cases k)
    case (Live cl)
    with assms show ?thesis
      by (cases "cl_state cl") (simp_all add: client_due_def client_togo_def taking_body_def body_taken_def idle_def reading_fine_def reading_ok_def)
  next
    case (Dropped c)
    with assms show ?thesis by (simp add: client_due_def client_togo_def taking_body_def body_taken_def)
  qed
  then show "taking_body i (rs, with_chans c k) = taking_body i (rs, k)" "body_taken i (rs, with_chans c k) = body_taken i (rs, k)"
    "client_due i (rs, with_chans c k) = client_due i (rs, k)" "client_togo i (rs, with_chans c k) = client_togo i (rs, k)" by blast+
qed

lemma response_future_gets:
  assumes "ch_queue (cc_res c j) = [Inr v]"
  shows "\<exists>q. response_future_poll w j c = (Ok (Inr v), on_res j (\<lambda>_. q) c)"
proof (cases rule: poll_recv_cases[of w True "cc_res c j"])
  case (Message m q)
  with assms show ?thesis by (auto simp: response_future_poll_def)
qed (use assms in auto)

text \<open>
  C3. A response that is sent arrives, with its body. Let \<open>head\<close> be what \<^verbatim>\<open>write_http1x_res\<close> writes for a response
  that announces a body, and let the body be sent piece by piece through a \<open>SendStream\<close> made from its headers.
  Let a client that has sent its request receive the head and the messages of the stream, in any cuts and with any
  delays, and let its parser read the head as a response whose headers frame the body in the same way, and which is
  not one that never has a body. When the connection is polled often enough, the future of the response is ready
  with it; and when the runtime polls the connection and the user reads, in turns and with a buffer of any size, the
  user reads exactly what was sent and is told the end, whether the connection is used again or is over.
\<close>

theorem response_crosses:
  assumes "plain_res res" "write_http1x_res res cap = Ok head" "cap \<le> READ_BUF_INIT_SIZE"
    and "try_parse_res api head False = Inr (Some res1)" "lr_from_headers (res_headers res1) True = lr_from_headers (res_headers res) True"
    and "\<not> response_is_no_body req res1 (lr_from_headers (res_headers res1) True)"
    and "ds \<noteq> []" "\<forall>d \<in> set ds. d \<noteq> EmptyData \<and> length (data_bytes d) < 16 ^ 10"
    and "is_chunked (res_headers res) \<or> get_as (res_headers res) ''content-length'' = Some N \<and> unat N = length (concat (map data_bytes ds))"
    and "send_pieces w ds (send_stream_new (lw_from_headers (res_headers res)) False, receiver_new 1) = (Ok (Inr ()), ms, s)"
    and "awaits j req cl" "io_clean (cl_io cl)" "bi_pos (cl_io cl) + READ_BUF_INIT_SIZE \<le> MAX_CAPACITY"
    and "in_stream (cl_io cl) = head @ concat (map fst ms) @ rest" "rx_size (tr_rx (bi_inner (cl_io cl))) < m" "0 < n"
    and "length (concat (map data_bytes ds)) + length (in_stream (cl_io cl)) + rx_size (tr_rx (bi_inner (cl_io cl))) + 2 < k"
  shows "\<exists>i c s1. response_future_poll w3 j (chans_of ((run_connection api w1 ^^ m) (Live cl))) = (Ok (Inr (res1, recv_stream_new False, i)), c)
    \<and> client_run api w1 w2 i (concat (replicate k [None, Some n])) (recv_stream_new False, with_chans c ((run_connection api w1 ^^ m) (Live cl)))
        = (concat (map data_bytes ds), s1)
    \<and> is_end_stream (fst s1)"
proof -
  let ?hs = "res_headers res" and ?l = "lr_from_headers (res_headers res) True" and ?io = "cl_io cl"
  let ?k = "(run_connection api w1 ^^ m) (Live cl)" and ?rs = "recv_stream_new False"
  note hd = written_res_head[OF assms(1,2)]
  have rx: "rx_ok ?io" using assms(11) by (simp add: awaits_def)
  have "head_len 0 (in_stream ?io) = Some (length head)" using hd(2) assms(14) by simp
  then obtain io1 where io1: "repoll m (poll_for_crlfcrlf (try_parse_res api)) ?io = (Ok (Inr (Some res1)), io1)"
    "in_stream io1 = concat (map fst ms) @ rest" "rx_ok io1" "io_clean io1" "rx_size (tr_rx (bi_inner io1)) \<le> rx_size (tr_rx (bi_inner ?io))"
    using repoll_found[OF rx assms(12,13), of "length head" m "try_parse_res api"] hd(1) assms(3,4,14,15) by auto
  note body = sent_body[OF assms(7-10) io1(2-4), of True]
  obtain i where i: "taking_body i (?rs, ?k) \<or> body_taken i (?rs, ?k)" "client_due i (?rs, ?k) = lr_stream (?l, io1)"
    "client_togo i (?rs, ?k) \<le> length (client_due i (?rs, ?k)) + io_size io1 + 2"
    "ch_queue (cc_res (chans_of ?k) j) = [Inr (res1, ?rs, i)]"
    using repoll_response[OF assms(11) io1(1) assms(6), of w1] body unfolding assms(5) Let_def by blast
  obtain q where q: "response_future_poll w3 j (chans_of ?k) = (Ok (Inr (res1, ?rs, i)), on_res j (\<lambda>_. q) (chans_of ?k))"
    using response_future_gets[OF i(4)] by blast
  let ?c = "on_res j (\<lambda>_. q) (chans_of ?k)" and ?data = "concat (map data_bytes ds)"
  have c: "cc_in ?c = cc_in (chans_of ?k)" "cc_req ?c = cc_req (chans_of ?k)" by simp_all
  have "length (unread io1) \<le> length (in_stream io1)" by (simp add: in_stream_def)
  then have "length (unread io1) \<le> length (in_stream ?io)" using io1(2) assms(14) by simp
  then have "client_togo i (?rs, with_chans ?c ?k) < k" "client_due i (?rs, with_chans ?c ?k) = ?data"
    "taking_body i (?rs, with_chans ?c ?k) \<or> body_taken i (?rs, with_chans ?c ?k)"
    using i(1-3) body io1(5) assms(17) unfolding with_res[OF c] by (simp_all add: io_size_def)
  with client_run_complete[OF _ assms(16), of i "(?rs, with_chans ?c ?k)" k api w1 w2] q show ?thesis
    by (auto simp: is_end_stream_def)
qed

text \<open>A request without a body has been sent; the response comes in four pieces.\<close>

definition wit_asking :: client where
  "wit_asking = snd (poll_client wit_api 7
     (let self = handshake \<lparr>tr_rx = [RxPending, RxData (take 20 wit_res_bytes), RxPending, RxData (drop 20 wit_res_bytes @ ''he''),
              RxPending, RxData ''l'', RxData ''lo''],
            tr_tx = [TxAccept 100], tr_flush = [CtlDone], tr_close = [], tr_sent = [], tr_flushed = 0, tr_closed = False\<rparr>
      in self\<lparr>cl_chans := snd (send_request wit_req True (cl_chans self))\<rparr>))"

theorem response_crosses_witness:
  "\<exists>res1 i c s1. response_future_poll 9 0 (chans_of ((run_connection wit_api 7 ^^ 80) (Live wit_asking)))
        = (Ok (Inr (res1, recv_stream_new False, i)), c)
     \<and> client_run wit_api 7 8 i (concat (replicate 150 [None, Some 3]))
         (recv_stream_new False, with_chans c ((run_connection wit_api 7 ^^ 80) (Live wit_asking))) = (''hello'', s1)
     \<and> is_end_stream (fst s1)"
proof -
  let ?ds = "[Shared ''hel'', Owned ''lo'']"
  let ?p = "send_pieces 3 ?ds (send_stream_new (lw_from_headers (res_headers wit_res)) False, receiver_new 1)"
  have a: "plain_res wit_res"
    by (simp add: plain_res_def wit_res_def plain_headers_def hm_of_def hv_of_def)
  have b: "write_http1x_res wit_res 8192 = Ok wit_res_bytes" "(8192::nat) \<le> READ_BUF_INIT_SIZE" by code_simp+
  have "case try_parse_res wit_api wit_res_bytes False of
      Inr (Some res1) \<Rightarrow> lr_from_headers (res_headers res1) True = LR_ContentLength (clr_new 5)
        \<and> (case cl_state wit_asking of RecvRes b \<Rightarrow> bidirect_ok b \<and> h_body_rx (cbi_handle b) = None \<and> h_res_tx (cbi_handle b) = Some 0
             \<and> \<not> response_is_no_body (h_req (cbi_handle b)) res1 (lr_from_headers (res_headers res1) True) | _ \<Rightarrow> False)
    | _ \<Rightarrow> False" by code_simp
  then obtain res1 bi where c: "try_parse_res wit_api wit_res_bytes False = Inr (Some res1)"
    "lr_from_headers (res_headers res1) True = LR_ContentLength (clr_new 5)"
    "cl_state wit_asking = RecvRes bi" "bidirect_ok bi" "h_body_rx (cbi_handle bi) = None" "h_res_tx (cbi_handle bi) = Some 0"
    "\<not> response_is_no_body (h_req (cbi_handle bi)) res1 (lr_from_headers (res_headers res1) True)"
    by (auto split: sum.splits option.splits client_state.splits)
  have d: "lr_from_headers (res_headers wit_res) True = LR_ContentLength (clr_new 5)" by code_simp
  have e: "?ds \<noteq> []" "\<forall>d \<in> set ?ds. d \<noteq> EmptyData \<and> length (data_bytes d) < 16 ^ 10" by simp_all
  have f: "is_chunked (res_headers wit_res)
      \<or> get_as (res_headers wit_res) ''content-length'' = Some 5 \<and> unat (5 :: 64 word) = length (concat (map data_bytes ?ds))"
  proof -
    have "get_as (res_headers wit_res) ''content-length'' = Some 5" by code_simp
    then show ?thesis by simp
  qed
  have g: "?p = (Ok (Inr ()), fst (snd ?p), snd (snd ?p))"
  proof -
    have "fst ?p = Ok (Inr ())" by code_simp
    then show ?thesis by (metis prod.collapse)
  qed
  have "idle wit_asking" "rx_ok (cl_io wit_asking)" "chan_open (cc_res (cl_chans wit_asking) 0)" "ch_queue (cc_res (cl_chans wit_asking) 0) = []"
    by code_simp+
  then have h: "awaits 0 (h_req (cbi_handle bi)) wit_asking" using c(3-6) by (simp add: awaits_def)
  have i: "io_clean (cl_io wit_asking)" "bi_pos (cl_io wit_asking) + READ_BUF_INIT_SIZE \<le> MAX_CAPACITY"
    "in_stream (cl_io wit_asking) = wit_res_bytes @ ''hello''" "rx_size (tr_rx (bi_inner (cl_io wit_asking))) < 70" by code_simp+
  have len: "length wit_res_bytes < 60" by code_simp
  have "concat (map fst (fst (snd ?p))) = ''hello''" by code_simp
  then have j: "in_stream (cl_io wit_asking) = wit_res_bytes @ concat (map fst (fst (snd ?p))) @ []" using i(3) by simp
  have "rx_size (tr_rx (bi_inner (cl_io wit_asking))) < 80"
    "length (concat (map data_bytes ?ds)) + length (in_stream (cl_io wit_asking)) + rx_size (tr_rx (bi_inner (cl_io wit_asking))) + 2 < 150"
    using i(3,4) len by simp_all
  from response_crosses[OF a b c(1) _ c(7) e f g h i(1,2) j this(1) _ this(2), of 3 9 7 8] c(2) d show ?thesis by fastforce
qed

end
