(* ===== verification/Server.thy ===== *)
theory Server
  imports Connection
begin

text \<open>
  \<^verbatim>\<open>src/server.rs\<close>: the server side of a connection. There is no task of its own that drives it: the
  user drives it from \<^verbatim>\<open>accept\<close>, from the reads of a request body and from the sends of a
  response, each under the lock of the connection, so each is one step here. The channels between the
  connection and the handles of the user live in a store (\<open>server_chans\<close>) and are named by
  numbers, as in the theory of the client. \<open>sc_drives\<close> counts the \<^verbatim>\<open>SyncDriveExternal\<close>s in existence, the
  strong count of their \<^verbatim>\<open>Arc\<close>; each of them holds a sender of \<open>sc_ext\<close> as well.
\<close>

section \<open>Channels and handles\<close>

text \<open>What a user sends for a request: the response, whether it ends there, and the stream of its body.\<close>

type_synonym user_response = "response \<times> bool \<times> nat"

record server_chans =
  sc_in :: "nat \<Rightarrow> recv_chan"
  sc_res :: "nat \<Rightarrow> user_response chan"
  sc_out :: "nat \<Rightarrow> body_chan"
  sc_fresh :: nat
  sc_ext :: "unit chan"
  sc_drives :: nat

definition upd_in :: "nat \<Rightarrow> (recv_chan \<Rightarrow> recv_chan) \<Rightarrow> server_chans \<Rightarrow> server_chans" where
  "upd_in i f c = c\<lparr>sc_in := (sc_in c)(i := f (sc_in c i))\<rparr>"

definition upd_res :: "nat \<Rightarrow> (user_response chan \<Rightarrow> user_response chan) \<Rightarrow> server_chans \<Rightarrow> server_chans" where
  "upd_res i f c = c\<lparr>sc_res := (sc_res c)(i := f (sc_res c i))\<rparr>"

definition upd_out :: "nat \<Rightarrow> (body_chan \<Rightarrow> body_chan) \<Rightarrow> server_chans \<Rightarrow> server_chans" where
  "upd_out i f c = c\<lparr>sc_out := (sc_out c)(i := f (sc_out c i))\<rparr>"

lemma upd_simps [simp]:
  "sc_in (upd_in i f c) = (sc_in c)(i := f (sc_in c i))" "sc_res (upd_in i f c) = sc_res c" "sc_out (upd_in i f c) = sc_out c"
  "sc_fresh (upd_in i f c) = sc_fresh c" "sc_ext (upd_in i f c) = sc_ext c" "sc_drives (upd_in i f c) = sc_drives c"
  "sc_res (upd_res i g c) = (sc_res c)(i := g (sc_res c i))" "sc_in (upd_res i g c) = sc_in c" "sc_out (upd_res i g c) = sc_out c"
  "sc_fresh (upd_res i g c) = sc_fresh c" "sc_ext (upd_res i g c) = sc_ext c" "sc_drives (upd_res i g c) = sc_drives c"
  "sc_out (upd_out i h c) = (sc_out c)(i := h (sc_out c i))" "sc_in (upd_out i h c) = sc_in c" "sc_res (upd_out i h c) = sc_res c"
  "sc_fresh (upd_out i h c) = sc_fresh c" "sc_ext (upd_out i h c) = sc_ext c" "sc_drives (upd_out i h c) = sc_drives c"
  by (simp_all add: upd_in_def upd_res_def upd_out_def)

text \<open>A \<^verbatim>\<open>SyncDriveExternal\<close> is cloned and dropped with its sender.\<close>

definition drive_clone :: "server_chans \<Rightarrow> server_chans" where
  "drive_clone c = c\<lparr>sc_drives := sc_drives c + 1, sc_ext := sender_clone (sc_ext c)\<rparr>"

definition drive_drop :: "server_chans \<Rightarrow> server_chans" where
  "drive_drop c = c\<lparr>sc_drives := sc_drives c - 1, sc_ext := sender_drop (sc_ext c)\<rparr>"

lemma drive_simps [simp]:
  "sc_in (drive_clone c) = sc_in c" "sc_res (drive_clone c) = sc_res c" "sc_out (drive_clone c) = sc_out c"
  "sc_fresh (drive_clone c) = sc_fresh c" "sc_drives (drive_clone c) = Suc (sc_drives c)"
  "sc_ext (drive_clone c) = sender_clone (sc_ext c)"
  "sc_in (drive_drop c) = sc_in c" "sc_res (drive_drop c) = sc_res c" "sc_out (drive_drop c) = sc_out c"
  "sc_fresh (drive_drop c) = sc_fresh c" "sc_drives (drive_drop c) = sc_drives c - 1"
  "sc_ext (drive_drop c) = sender_drop (sc_ext c)"
  by (simp_all add: drive_clone_def drive_drop_def)

text \<open>Dropping the receiver of a response drops a response that is queued, and the receiver of its body.\<close>

definition drop_rx_res :: "nat \<Rightarrow> server_chans \<Rightarrow> server_chans" where
  "drop_rx_res j c =
     upd_res j receiver_drop (fold (\<lambda>(_, _, k). upd_out k receiver_drop) (ch_queue (sc_res c j)) c)"

record send_response =
  sr_tx_res :: nat
  sr_req_expects_no_body :: bool

text \<open>What \<^verbatim>\<open>accept\<close> delivers: the request, the stream of its body with its channel, and the means to answer.\<close>

type_synonym package = "(request \<times> recv_stream \<times> nat) \<times> send_response"

section \<open>States of a connection\<close>

record server_bidirect =
  sbi_limit :: limit_read
  sbi_request_allows_reuse :: bool
  sbi_tx_body :: "nat option"
  sbi_rx_res :: "nat option"
  sbi_holder :: "(bool \<times> limit_write \<times> nat) option"
  sbi_cur_read_size :: nat

record body_sender =
  bs_request_allows_reuse :: bool
  bs_rx_body :: nat

datatype server_state = RecvReq | SendRes server_bidirect | SendBody body_sender | Closed

record server =
  sv_io :: buf_io
  sv_state :: server_state
  sv_chans :: server_chans

abbreviation MAX_RESPONSE_SIZE :: nat where "MAX_RESPONSE_SIZE \<equiv> 8192"
abbreviation SERVER_MAX_BODY_READ_SIZE :: nat where "SERVER_MAX_BODY_READ_SIZE \<equiv> 8 * 1024 * 1024"

definition drop_holder :: "(bool \<times> limit_write \<times> nat) option \<Rightarrow> server_chans \<Rightarrow> server_chans" where
  "drop_holder h = (case h of Some (_, _, k) \<Rightarrow> upd_out k receiver_drop | None \<Rightarrow> id)"

definition drop_server_state :: "server_state \<Rightarrow> server_chans \<Rightarrow> server_chans" where
  "drop_server_state st c = (case st of
      SendRes b \<Rightarrow>
        drop_holder (sbi_holder b)
          ((case sbi_rx_res b of Some j \<Rightarrow> drop_rx_res j | None \<Rightarrow> id)
            ((case sbi_tx_body b of Some i \<Rightarrow> upd_in i sender_drop | None \<Rightarrow> id) c))
    | SendBody b \<Rightarrow> upd_out (bs_rx_body b) receiver_drop c
    | _ \<Rightarrow> c)"

section \<open>Receiving a request\<close>

text \<open>The handle to drive the connection that came with the call is dropped when no request does.\<close>

definition no_request :: "io_error \<Rightarrow> buf_io \<times> server_chans \<Rightarrow>
    (package option \<times> server_state) res \<times> (buf_io \<times> server_chans)" where
  "no_request e = (\<lambda>(io, c).
     if is_closed_kind (io_kind e) then (Ok (None, Closed), (io, drive_drop c))
     else (Err e, (io, drive_drop c)))"

definition new_request :: "request \<Rightarrow> buf_io \<times> server_chans \<Rightarrow>
    (package option \<times> server_state) res \<times> (buf_io \<times> server_chans)" where
  "new_request req = (\<lambda>(io, c).
     let limit = lr_from_headers (req_headers req) False;
         request_allows_reuse = allow_reuse (req_headers req) (req_version req);
         no_req_body = lr_is_no_body limit;
         req_expects_no_body = (req_method req = ''HEAD'');
         i = sc_fresh c;
         c1 = c\<lparr>sc_in := (sc_in c)(i := receiver_new 1), sc_res := (sc_res c)(i := receiver_new 1),
                sc_fresh := i + 1\<rparr>;
         package = ((req, recv_stream_new no_req_body, i),
                    \<lparr>sr_tx_res = i, sr_req_expects_no_body = req_expects_no_body\<rparr>);
         c2 = drive_clone c1;
         c3 = (if no_req_body then upd_in i sender_drop c2 else c2);
         bidirect =
           \<lparr>sbi_limit = limit,
            sbi_request_allows_reuse = request_allows_reuse,
            sbi_tx_body = (if no_req_body then None else Some i),
            sbi_rx_res = Some i,
            sbi_holder = None,
            sbi_cur_read_size =
              unat (min (case lr_body_size limit of Some n \<Rightarrow> n | None \<Rightarrow> 8192) (of_nat SERVER_MAX_BODY_READ_SIZE))\<rparr>
     in (Ok (Some package, SendRes bidirect), (io, c3)))"

definition poll_next_req :: "http_api \<Rightarrow> buf_io \<times> server_chans \<Rightarrow>
    (package option \<times> server_state) res \<times> (buf_io \<times> server_chans)" where
  "poll_next_req api = (\<lambda>(io, c).
     case poll_for_crlfcrlf (try_parse_req api) io of
       (Ok (Inr (Some req)), io1) \<Rightarrow> new_request req (io1, c)
     | (Ok (Inr None), io1) \<Rightarrow> (Err (IoError InvalidData ''Failed to parse request''), (io1, drive_drop c))
     | (Ok (Inl e), io1) \<Rightarrow> no_request e (io1, c)
     | (Err e, io1) \<Rightarrow> no_request e (io1, c)
     | (Pending, io1) \<Rightarrow> (Pending, (io1, drive_drop c))
     | (Panic p, io1) \<Rightarrow> (Panic p, (io1, c)))"

section \<open>Sending the response while receiving the body of the request\<close>

type_synonym exchange = "server_bidirect \<times> buf_io \<times> server_chans"

definition poll_send_resp :: "waker \<Rightarrow> bool \<Rightarrow> exchange \<Rightarrow> unit res \<times> exchange" where
  "poll_send_resp w register = (\<lambda>(b, io, c).
     case sbi_rx_res b of
       None \<Rightarrow> (Panic ''called `Option::unwrap()` on a `None` value'', (b, io, c))
     | Some j \<Rightarrow>
         (case poll_recv w register (sc_res c j) of
            (Ok (Some (res, eob, k)), q) \<Rightarrow>
              (let limit = lw_from_headers (res_headers res);
                   c1 = drop_holder (sbi_holder b) (upd_res j (\<lambda>_. q) c);
                   b1 = b\<lparr>sbi_holder := Some (eob, limit, k)\<rparr>
               in case write_head_into MAX_RESPONSE_SIZE (write_http1x_res res) of
                    Ok buf \<Rightarrow>
                      if \<not> can_poll_write io then (Panic ''assertion failed: io.can_poll_write()'', (b1, io, c1))
                      else (case poll_write_all (Some (fb_deref buf)) True io of
                          (Pending, to_send, io1) \<Rightarrow>
                            if to_send \<noteq> None then (Panic ''assertion failed: to_send.is_none()'', (b1, io1, c1))
                            else (Ok (), (b1\<lparr>sbi_rx_res := None\<rparr>, io1, drop_rx_res j c1))
                        | (Ok _, _, io1) \<Rightarrow> (Ok (), (b1\<lparr>sbi_rx_res := None\<rparr>, io1, drop_rx_res j c1))
                        | (Err e, _, io1) \<Rightarrow> (Err e, (b1, io1, c1))
                        | (Panic p, _, io1) \<Rightarrow> (Panic p, (b1, io1, c1)))
                  | Err e \<Rightarrow> (Err e, (b1, io, c1))
                  | Pending \<Rightarrow> (Pending, (b1, io, c1))
                  | Panic p \<Rightarrow> (Panic p, (b1, io, c1)))
          | (Ok None, q) \<Rightarrow>
              (Err (into_io (User ''SendResponse dropped before sending any response'')),
                (b, io, upd_res j (\<lambda>_. q) c))
          | (Err e, q) \<Rightarrow> (Err e, (b, io, upd_res j (\<lambda>_. q) c))
          | (Pending, q) \<Rightarrow> (Pending, (b, io, upd_res j (\<lambda>_. q) c))
          | (Panic p, q) \<Rightarrow> (Panic p, (b, io, upd_res j (\<lambda>_. q) c))))"

text \<open>One chunk of the body: the whole read buffer when the body has a length, or a read of the limiter.\<close>

definition read_chunk :: "nat \<Rightarrow> limit_read \<times> buf_io \<Rightarrow> bytes res \<times> (limit_read \<times> buf_io)" where
  "read_chunk available_bytes = (\<lambda>(limit, io).
     if lr_can_read_entire_vec limit \<and> can_take_read_buf io then
       (case take_read_buf io of (chunk, io1) \<Rightarrow>
          pure_step (lr_accept_entire_vec chunk limit) (limit, io1) (\<lambda>limit1. (Ok chunk, (limit1, io1))))
     else
       pure_step (fb_borrow (fb_with_capacity available_bytes)) (limit, io) (\<lambda>read_into.
       ready (lr_poll_read (fb_len (fr_buf read_into)) (limit, io)) (\<lambda>bs s.
       pure_step (fr_extend (length bs) (fr_fill 0 bs read_into)) s (\<lambda>chunk. (Ok (fb_into_vec chunk), s)))))"

text \<open>Passing it on; the sender is dropped with the last chunk.\<close>

definition pass_chunk :: "nat \<Rightarrow> bytes \<Rightarrow> exchange \<Rightarrow> unit res \<times> exchange" where
  "pass_chunk i chunk = (\<lambda>(b, io, c).
     if chunk = [] \<and> \<not> lr_is_complete (sbi_limit b) then (Err (IoError UnexpectedEof ''Partial body''), (b, io, c))
     else
       let c1 = (if chunk \<noteq> [] then upd_in i (\<lambda>q. snd (sender_send (Inr chunk) q)) c else c)
       in if lr_is_complete (sbi_limit b) then (Ok (), (b\<lparr>sbi_tx_body := None\<rparr>, io, upd_in i sender_drop c1))
          else (Ok (), (b, io, c1)))"

definition sv_poll_read_body :: "waker \<Rightarrow> exchange \<Rightarrow> unit res \<times> exchange" where
  "sv_poll_read_body w = (\<lambda>(b, io, c).
     case sbi_tx_body b of
       None \<Rightarrow> (Panic ''called `Option::unwrap()` on a `None` value'', (b, io, c))
     | Some i \<Rightarrow>
         (case sender_poll_ready w True (sc_in c i) of
            (Ok _, q) \<Rightarrow>
              (let c1 = upd_in i (\<lambda>_. q) c in
               case poll_fill_buf False (ensure_read_capacity (sbi_cur_read_size b) io) of
                 (Ok buf, io1) \<Rightarrow>
                   if buf = [] then
                     (Err (IoError UnexpectedEof ''EOF before complete body received''), (b, io1, c1))
                   else
                     (case read_chunk (length buf) (sbi_limit b, io1) of
                        (Ok chunk, limit, io2) \<Rightarrow> pass_chunk i chunk (b\<lparr>sbi_limit := limit\<rparr>, io2, c1)
                      | (Err e, limit, io2) \<Rightarrow> (Err e, (b\<lparr>sbi_limit := limit\<rparr>, io2, c1))
                      | (Pending, limit, io2) \<Rightarrow> (Pending, (b\<lparr>sbi_limit := limit\<rparr>, io2, c1))
                      | (Panic p, limit, io2) \<Rightarrow> (Panic p, (b\<lparr>sbi_limit := limit\<rparr>, io2, c1)))
               | (Err e, io1) \<Rightarrow> (Err e, (b, io1, c1))
               | (Pending, io1) \<Rightarrow> (Pending, (b, io1, c1))
               | (Panic p, io1) \<Rightarrow> (Panic p, (b, io1, c1)))
          | (Err e, q) \<Rightarrow> (Err e, (b, io, upd_in i (\<lambda>_. q) c))
          | (Pending, q) \<Rightarrow> (Pending, (b, io, upd_in i (\<lambda>_. q) c))
          | (Panic p, q) \<Rightarrow> (Panic p, (b, io, upd_in i (\<lambda>_. q) c))))"

definition rx_res_waits :: "exchange \<Rightarrow> bool" where
  "rx_res_waits = (\<lambda>(b, io, c). sbi_rx_res b \<noteq> None)"

definition tx_body_waits :: "exchange \<Rightarrow> bool" where
  "tx_body_waits = (\<lambda>(b, io, c). sbi_tx_body b \<noteq> None)"

text \<open>What makes the loop end: the response is written once, and every read makes the input smaller.\<close>

definition exchange_size :: "exchange \<Rightarrow> nat" where
  "exchange_size = (\<lambda>(b, io, c). if sbi_tx_body b = None then 0 else Suc (io_size io))"

lemma read_chunk_only:
  assumes "read_chunk n (l, io) = (r, l1, io1)"
  shows "reads_only io io1" "r = Ok chunk \<Longrightarrow> chunk \<noteq> [] \<Longrightarrow> io_size io1 < io_size io" "r = Pending \<Longrightarrow> bi_pending_rx io1"
    "settled (r = Pending) io io1"
proof -
  have "reads_only io io1 \<and> (\<forall>chunk. r = Ok chunk \<longrightarrow> chunk \<noteq> [] \<longrightarrow> io_size io1 < io_size io) \<and> settled (r = Pending) io io1"
  proof (cases "lr_can_read_entire_vec l \<and> can_take_read_buf io")
    case True
    obtain bs io2 where t: "take_read_buf io = (bs, io2)" by fastforce
    note take = take_read_buf_only[OF t]
    from assms True t take show ?thesis
      by (cases "lr_accept_entire_vec bs l") (auto simp: read_chunk_def lr_accept_entire_vec_def split: limit_read.splits)
  next
    case False
    show ?thesis
    proof (cases "fb_borrow (fb_with_capacity n)")
      case (Ok ref)
      obtain q l2 io2 where q: "lr_poll_read (fb_len (fr_buf ref)) (l, io) = (q, l2, io2)" by (metis prod_cases3)
      note only = lr_poll_read_only[OF q]
      show ?thesis
      proof (cases q)
        case (Ok bs)
        have "chunk = bs" if "fr_extend (length bs) (fr_fill 0 bs ref) = Ok b" "chunk = fb_into_vec b" for chunk b
          using that \<open>fb_borrow _ = _\<close> by (auto simp: fr_extend_def fr_fill_def fr_drop_def set_len_def fb_into_vec_def fb_deref_def
              fb_borrow_def fb_with_capacity_def Let_def split: if_splits)
        with assms False \<open>fb_borrow _ = _\<close> q Ok only show ?thesis
          by (cases "fr_extend (length bs) (fr_fill 0 bs ref)") (auto simp: read_chunk_def fr_extend_def split: if_splits)
      qed (use assms False Ok q only in \<open>auto simp: read_chunk_def\<close>)
    qed (use assms False in \<open>auto simp: read_chunk_def\<close>)
  qed
  then show "reads_only io io1" "r = Ok chunk \<Longrightarrow> chunk \<noteq> [] \<Longrightarrow> io_size io1 < io_size io" "r = Pending \<Longrightarrow> bi_pending_rx io1"
    "settled (r = Pending) io io1"
    by (auto simp: settled_def)
qed

lemma sv_poll_read_body_frame:
  assumes "sv_poll_read_body w (b, io, c) = (r, b1, io1, c1)"
  shows "sbi_rx_res b1 = sbi_rx_res b" "sbi_holder b1 = sbi_holder b" "sbi_request_allows_reuse b1 = sbi_request_allows_reuse b"
    "sc_res c1 = sc_res c" "sc_out c1 = sc_out c" "sc_fresh c1 = sc_fresh c" "sc_ext c1 = sc_ext c" "sc_drives c1 = sc_drives c"
    "r = Ok () \<Longrightarrow> exchange_size (b1, io1, c1) < exchange_size (b, io, c)"
proof -
  have "sbi_rx_res b1 = sbi_rx_res b \<and> sbi_holder b1 = sbi_holder b \<and> sbi_request_allows_reuse b1 = sbi_request_allows_reuse b
    \<and> sc_res c1 = sc_res c \<and> sc_out c1 = sc_out c \<and> sc_fresh c1 = sc_fresh c \<and> sc_ext c1 = sc_ext c \<and> sc_drives c1 = sc_drives c
    \<and> (r = Ok () \<longrightarrow> exchange_size (b1, io1, c1) < exchange_size (b, io, c))"
  proof (cases "sbi_tx_body b")
    case None
    with assms show ?thesis by (auto simp: sv_poll_read_body_def)
  next
    case (Some i)
    obtain q qc where q: "sender_poll_ready w True (sc_in c i) = (q, qc)" by fastforce
    show ?thesis
    proof (cases q)
      case (Ok x)
      let ?io = "ensure_read_capacity (sbi_cur_read_size b) io"
      obtain f io2 where f: "poll_fill_buf False ?io = (f, io2)" by fastforce
      show ?thesis
      proof (cases f)
        case buf: (Ok buf)
        note fill = poll_fill_buf_only[OF f[unfolded buf]]
        obtain g l io3 where g: "read_chunk (length buf) (sbi_limit b, io2) = (g, l, io3)" by (metis prod_cases3)
        note chunk = read_chunk_only[OF g]
        have le: "io_size io2 \<le> io_size io" "io_size io3 \<le> io_size io2"
          using fill(1) ensure_read_capacity_only[of io "sbi_cur_read_size b"] chunk(1) by (auto simp: reads_only_def)
        show ?thesis
        proof (cases g)
          case (Ok bs)
          with assms Some q \<open>q = Ok x\<close> f buf g le chunk(2)[of bs] show ?thesis
            by (auto simp: sv_poll_read_body_def pass_chunk_def exchange_size_def Let_def split: if_splits)
        qed (use assms Some q Ok f buf g in \<open>auto simp: sv_poll_read_body_def Let_def split: if_splits\<close>)
      qed (use assms Some q Ok f in \<open>auto simp: sv_poll_read_body_def Let_def\<close>)
    qed (use assms Some q in \<open>auto simp: sv_poll_read_body_def\<close>)
  qed
  then show "sbi_rx_res b1 = sbi_rx_res b" "sbi_holder b1 = sbi_holder b" "sbi_request_allows_reuse b1 = sbi_request_allows_reuse b"
    "sc_res c1 = sc_res c" "sc_out c1 = sc_out c" "sc_fresh c1 = sc_fresh c" "sc_ext c1 = sc_ext c" "sc_drives c1 = sc_drives c"
    "r = Ok () \<Longrightarrow> exchange_size (b1, io1, c1) < exchange_size (b, io, c)" by auto
qed

lemma poll_send_resp_frame:
  assumes "poll_send_resp w reg (b, io, c) = (r, b1, io1, c1)"
  shows "r = Ok () \<Longrightarrow> sbi_rx_res b1 = None" "r = Pending \<Longrightarrow> io1 = io \<and> sbi_rx_res b1 = sbi_rx_res b"
    "sbi_tx_body b1 = sbi_tx_body b" "sbi_limit b1 = sbi_limit b" "sbi_request_allows_reuse b1 = sbi_request_allows_reuse b"
    "sbi_cur_read_size b1 = sbi_cur_read_size b" "sbi_rx_res b1 = None \<Longrightarrow> sbi_rx_res b \<noteq> None \<Longrightarrow> r = Ok ()"
  using assms
  by (auto simp: poll_send_resp_def Let_def split: option.splits res.splits prod.splits if_splits)

text \<open>
  The loop of \<^verbatim>\<open>poll_bidirect\<close>. Without a registration a response that is not there yet does not
  keep it from reading the body. It ends: the response is written at most once, and then
  every round reads something or is the last.
\<close>

definition exchange_round :: "waker \<Rightarrow> bool \<Rightarrow> exchange \<Rightarrow> unit res \<times> exchange" where
  "exchange_round w register s =
     ready (poll_if (rx_res_waits s) (poll_send_resp w register) s) (\<lambda>send_resp_pending s1.
       if send_resp_pending \<and> (register \<or> \<not> tx_body_waits s1) then (Pending, s1)
       else if tx_body_waits s1 then sv_poll_read_body w s1
       else (Ok (), s1))"

lemma exchange_round_decreases:
  assumes "exchange_round w reg s = (Ok (), s2)" "rx_res_waits s \<or> tx_body_waits s"
  shows "rx_res_waits s \<and> \<not> rx_res_waits s2 \<or> rx_res_waits s2 = rx_res_waits s \<and> exchange_size s2 < exchange_size s"
proof -
  obtain p s1 where p: "poll_if (rx_res_waits s) (poll_send_resp w reg) s = (Ok p, s1)"
    and rest: "(if p \<and> (reg \<or> \<not> tx_body_waits s1) then (Pending, s1)
       else if tx_body_waits s1 then sv_poll_read_body w s1 else (Ok (), s1)) = (Ok (), s2)"
    using assms(1) by (auto simp: exchange_round_def ready_eq_Ok)
  obtain b io c b1 io1 c1 b2 io2 c2 where s: "s = (b, io, c)" "s1 = (b1, io1, c1)" "s2 = (b2, io2, c2)" by (metis prod_cases3)
  have read: "rx_res_waits s2 = rx_res_waits s1 \<and> exchange_size s2 < exchange_size s1" if "tx_body_waits s1"
    using rest that sv_poll_read_body_frame(1,9)[of w b1 io1 c1 "Ok ()" b2 io2 c2] unfolding s
    by (auto simp: rx_res_waits_def split: if_splits)
  show ?thesis
  proof (cases "rx_res_waits s")
    case False
    then have "s1 = s" using p by (auto simp: poll_if_def)
    with read assms(2) False show ?thesis by auto
  next
    case True
    show ?thesis
    proof (cases p)
      case False
      then have "poll_send_resp w reg (b, io, c) = (Ok (), b1, io1, c1)" using poll_if_cases(2)[OF p] True s by auto
      then have "\<not> rx_res_waits s1" using poll_send_resp_frame(1) s by (auto simp: rx_res_waits_def)
      then have "\<not> rx_res_waits s2" using read rest by (cases "tx_body_waits s1") (auto split: if_splits)
      with True show ?thesis by blast
    next
      case pend: True
      then have sr: "poll_send_resp w reg (b, io, c) = (Pending, b1, io1, c1)" using poll_if_cases(1)[OF p] s by auto
      have body: "tx_body_waits s1" using pend rest by (auto split: if_splits)
      have "io1 = io \<and> sbi_rx_res b1 = sbi_rx_res b \<and> sbi_tx_body b1 = sbi_tx_body b" using poll_send_resp_frame(2,3)[OF sr] by simp
      then have "exchange_size s1 = exchange_size s" "rx_res_waits s1 = rx_res_waits s" by (auto simp: s exchange_size_def rx_res_waits_def)
      with read[OF body] show ?thesis by auto
    qed
  qed
qed

function sv_bidirect_loop :: "waker \<Rightarrow> bool \<Rightarrow> exchange \<Rightarrow> unit res \<times> exchange" where
  "sv_bidirect_loop w register s =
     (if \<not> rx_res_waits s \<and> \<not> tx_body_waits s then (Ok (), s)
      else ready (exchange_round w register s) (\<lambda>_ s1. sv_bidirect_loop w register s1))"
  by pat_completeness auto
termination
proof (relation "measures [\<lambda>(w, reg, s). if rx_res_waits s then 1 else 0, \<lambda>(w, reg, s). exchange_size s]", goal_cases)
  case (2 w reg s x s1)
  then have "exchange_round w reg s = (Ok (), s1)" by simp
  from exchange_round_decreases[OF this] 2 show ?case by auto
qed simp

declare sv_bidirect_loop.simps [simp del]

text \<open>The state after the response, and after the whole body of the request, if there was one.\<close>

definition after_exchange :: "exchange \<Rightarrow> server_state res \<times> exchange" where
  "after_exchange = (\<lambda>(b, io, c).
     case sbi_holder b of
       None \<Rightarrow> (Panic ''Holder of rx_body'', (b, io, c))
     | Some (no_body, limit, k) \<Rightarrow>
         (let b1 = b\<lparr>sbi_holder := None\<rparr> in
          if no_body \<or> lw_is_no_body limit then
            (Ok (if sbi_request_allows_reuse b then RecvReq else Closed), (b1, io, upd_out k receiver_drop c))
          else
            (Ok (SendBody \<lparr>bs_request_allows_reuse = sbi_request_allows_reuse b, bs_rx_body = k\<rparr>), (b1, io, c))))"

definition sv_poll_bidirect :: "waker \<Rightarrow> bool \<Rightarrow> exchange \<Rightarrow> server_state res \<times> exchange" where
  "sv_poll_bidirect w register s = ready (sv_bidirect_loop w register s) (\<lambda>_ s1. after_exchange s1)"

section \<open>Sending the body of the response\<close>

lemma poll_recv_shrinks:
  "poll_recv w reg c = (Ok (Some t), c') \<Longrightarrow> length (ch_queue c') < length (ch_queue c)"
  using poll_recv_Some_queue by fastforce

function send_body_loop :: "waker \<Rightarrow> bool \<Rightarrow> body_sender \<Rightarrow> buf_io \<times> server_chans \<Rightarrow>
    server_state res \<times> (buf_io \<times> server_chans)" where
  "send_body_loop w register b (io, c) =
     (case poll_recv w register (sc_out c (bs_rx_body b)) of
        (Ok nxt, q) \<Rightarrow>
          (let c1 = upd_out (bs_rx_body b) (\<lambda>_. q) c in
           if \<not> can_poll_write io then (Panic ''assertion failed: io.can_poll_write()'', (io, c1))
           else case nxt of
               Some (chunk, eob) \<Rightarrow>
                 (case poll_write_all (Some chunk) eob io of
                    (Pending, buf, io1) \<Rightarrow>
                      if buf \<noteq> None then (Panic ''assertion failed: buf.is_none()'', (io1, c1))
                      else (Pending, (io1, c1))
                  | (Ok _, _, io1) \<Rightarrow>
                      if eob then (Ok (if bs_request_allows_reuse b then RecvReq else Closed), (io1, c1))
                      else send_body_loop w register b (io1, c1)
                  | (Err e, _, io1) \<Rightarrow> (Err e, (io1, c1))
                  | (Panic p, _, io1) \<Rightarrow> (Panic p, (io1, c1)))
             | None \<Rightarrow> (Err (IoError OtherKind ''Unexpected end of body''), (io, c1)))
      | (Err e, q) \<Rightarrow> (Err e, (io, upd_out (bs_rx_body b) (\<lambda>_. q) c))
      | (Pending, q) \<Rightarrow> (Pending, (io, upd_out (bs_rx_body b) (\<lambda>_. q) c))
      | (Panic p, q) \<Rightarrow> (Panic p, (io, upd_out (bs_rx_body b) (\<lambda>_. q) c)))"
  by pat_completeness auto
termination
  by (relation "measure (\<lambda>(w, reg, b, io, c). length (ch_queue (sc_out c (bs_rx_body b))))")
    (auto dest!: poll_recv_shrinks[OF sym])

declare send_body_loop.simps [simp del]

section \<open>Driving the connection\<close>

text \<open>
  \<^verbatim>\<open>want_next_req\<close> is a handle to drive the connection, or nothing; it is dropped where it is not
  passed on to \<^verbatim>\<open>poll_next_req\<close>. Replacing a state drops it with what it still holds.
\<close>

definition drop_want :: "bool \<Rightarrow> server_chans \<Rightarrow> server_chans" where
  "drop_want want c = (if want then drive_drop c else c)"

fun server_rank :: "server_state \<Rightarrow> nat" where
  "server_rank RecvReq = 0"
| "server_rank (SendRes b) = 2"
| "server_rank (SendBody b) = 1"
| "server_rank Closed = 0"

lemma after_exchange_rank: "after_exchange s = (Ok st, s1) \<Longrightarrow> server_rank st < 2"
  by (cases s) (auto simp: after_exchange_def Let_def split: option.splits if_splits)

lemma sv_poll_bidirect_rank: "sv_poll_bidirect w reg s = (Ok st, s1) \<Longrightarrow> server_rank st < 2"
  by (auto simp: sv_poll_bidirect_def ready_eq_Ok intro: after_exchange_rank)

lemma send_body_loop_rank:
  "send_body_loop w reg b (io, c) = (Ok st, s1) \<Longrightarrow> server_rank st < 1"
proof (induction w reg b "(io, c)" arbitrary: io c rule: send_body_loop.induct)
  case (1 w reg b io c)
  obtain x q where x: "poll_recv w reg (sc_out c (bs_rx_body b)) = (x, q)" by fastforce
  show ?case
  proof (cases rule: poll_recv_reg_cases[of w reg "sc_out c (bs_rx_body b)"])
    case (Message m q)
    obtain chunk eob where m: "m = (chunk, eob)" by fastforce
    obtain r rest io1 where r: "poll_write_all (Some chunk) eob io = (r, rest, io1)" by (metis prod_cases3)
    show ?thesis
    proof (cases "can_poll_write io")
      case True
      show ?thesis
      proof (cases r)
        case (Ok u)
        show ?thesis
        proof (cases eob)
          case True
          with "1.prems" Message(1) m r Ok \<open>can_poll_write io\<close> show ?thesis by (auto simp: send_body_loop.simps[of w reg b io c] Let_def split: if_splits)
        next
          case False
          with "1.prems" Message(1) m r Ok \<open>can_poll_write io\<close>
          have "send_body_loop w reg b (io1, upd_out (bs_rx_body b) (\<lambda>_. q) c) = (Ok st, s1)"
            by (simp add: send_body_loop.simps[of w reg b io c] Let_def)
          with "1.hyps" Message(1) m r Ok False \<open>can_poll_write io\<close> show ?thesis by simp
        qed
      qed (use "1.prems" Message(1) m r True in \<open>auto simp: send_body_loop.simps[of w reg b io c] Let_def split: if_splits\<close>)
    qed (use "1.prems" Message(1) in \<open>auto simp: send_body_loop.simps[of w reg b io c] Let_def\<close>)
  qed (use "1.prems" in \<open>auto simp: send_body_loop.simps[of w reg b io c] Let_def split: if_splits\<close>)
qed

function sv_drive :: "http_api \<Rightarrow> waker \<Rightarrow> bool \<Rightarrow> bool \<Rightarrow> server \<Rightarrow> package option res \<times> server" where
  "sv_drive api w want register self =
     (case poll_finish_pending_write (sv_io self) of
        (Ok _, io) \<Rightarrow>
          (case sv_state self of
             RecvReq \<Rightarrow>
               if want then
                 (case poll_next_req api (io, sv_chans self) of
                    (Ok (next_req, next_state), io1, c) \<Rightarrow>
                      (Ok next_req, \<lparr>sv_io = io1, sv_state = next_state, sv_chans = c\<rparr>)
                  | (Err e, io1, c) \<Rightarrow> (Err e, \<lparr>sv_io = io1, sv_state = RecvReq, sv_chans = c\<rparr>)
                  | (Pending, io1, c) \<Rightarrow> (Pending, \<lparr>sv_io = io1, sv_state = RecvReq, sv_chans = c\<rparr>)
                  | (Panic p, io1, c) \<Rightarrow> (Panic p, \<lparr>sv_io = io1, sv_state = RecvReq, sv_chans = c\<rparr>))
               else (Ok None, self\<lparr>sv_io := io\<rparr>)
           | SendRes h \<Rightarrow>
               (case sv_poll_bidirect w register (h, io, sv_chans self) of
                  (Ok next_state, h1, io1, c) \<Rightarrow>
                    sv_drive api w want register
                      \<lparr>sv_io = io1, sv_state = next_state, sv_chans = drop_server_state (SendRes h1) c\<rparr>
                | (Err e, h1, io1, c) \<Rightarrow> (Err e, \<lparr>sv_io = io1, sv_state = SendRes h1, sv_chans = drop_want want c\<rparr>)
                | (Pending, h1, io1, c) \<Rightarrow> (Pending, \<lparr>sv_io = io1, sv_state = SendRes h1, sv_chans = drop_want want c\<rparr>)
                | (Panic p, h1, io1, c) \<Rightarrow> (Panic p, \<lparr>sv_io = io1, sv_state = SendRes h1, sv_chans = drop_want want c\<rparr>))
           | SendBody h \<Rightarrow>
               (case send_body_loop w register h (io, sv_chans self) of
                  (Ok next_state, io1, c) \<Rightarrow>
                    sv_drive api w want register
                      \<lparr>sv_io = io1, sv_state = next_state, sv_chans = drop_server_state (SendBody h) c\<rparr>
                | (Err e, io1, c) \<Rightarrow> (Err e, \<lparr>sv_io = io1, sv_state = SendBody h, sv_chans = drop_want want c\<rparr>)
                | (Pending, io1, c) \<Rightarrow> (Pending, \<lparr>sv_io = io1, sv_state = SendBody h, sv_chans = drop_want want c\<rparr>)
                | (Panic p, io1, c) \<Rightarrow> (Panic p, \<lparr>sv_io = io1, sv_state = SendBody h, sv_chans = drop_want want c\<rparr>))
           | Closed \<Rightarrow> (Ok None, self\<lparr>sv_io := io, sv_chans := drop_want want (sv_chans self)\<rparr>))
      | (Err e, io) \<Rightarrow> (Err e, self\<lparr>sv_io := io, sv_chans := drop_want want (sv_chans self)\<rparr>)
      | (Pending, io) \<Rightarrow> (Pending, self\<lparr>sv_io := io, sv_chans := drop_want want (sv_chans self)\<rparr>)
      | (Panic p, io) \<Rightarrow> (Panic p, self\<lparr>sv_io := io, sv_chans := drop_want want (sv_chans self)\<rparr>))"
  by pat_completeness auto
termination
  by (relation "measure (\<lambda>(api, w, want, reg, self). server_rank (sv_state self))")
    (auto dest!: sv_poll_bidirect_rank[OF sym] send_body_loop_rank[OF sym])

declare sv_drive.simps [simp del]

text \<open>Any error that bubbles up closes the connection, and with the state go its ends of the channels.\<close>

definition poll_server :: "http_api \<Rightarrow> waker \<Rightarrow> bool \<Rightarrow> bool \<Rightarrow> server \<Rightarrow> package option res \<times> server" where
  "poll_server api w want register self =
     (case sv_drive api w want register self of
        (Err e, self1) \<Rightarrow>
          (Err e, self1\<lparr>sv_state := Closed, sv_chans := drop_server_state (sv_state self1) (sv_chans self1)\<rparr>)
      | r \<Rightarrow> r)"

section \<open>Opening a connection, accepting and closing\<close>

definition server_new :: "transport \<Rightarrow> server_chans \<Rightarrow> server" where
  "server_new inner c =
     \<lparr>sv_io = bi_with_capacity READ_BUF_INIT_SIZE inner, sv_state = RecvReq, sv_chans = c\<rparr>"

definition sv_handshake :: "transport \<Rightarrow> server" where
  "sv_handshake inner =
     server_new inner
       \<lparr>sc_in = \<lambda>_. receiver_new 1, sc_res = \<lambda>_. receiver_new 1, sc_out = \<lambda>_. receiver_new 1,
        sc_fresh = 0, sc_ext = receiver_new 1, sc_drives = 1\<rparr>"

definition count_external :: "server_chans \<Rightarrow> nat" where
  "count_external c = sc_drives c"

definition poll_pending_external :: "waker \<Rightarrow> server_chans \<Rightarrow> unit res \<times> server_chans" where
  "poll_pending_external w c =
     (if count_external c = 1 then (Ok (), c)
      else case poll_recv w True (sc_ext c) of
          (Pending, q) \<Rightarrow> (Pending, c\<lparr>sc_ext := q\<rparr>)
        | (_, q) \<Rightarrow> (Panic ''internal error: entered unreachable code'', c\<lparr>sc_ext := q\<rparr>))"

definition poll_accept :: "http_api \<Rightarrow> waker \<Rightarrow> server \<Rightarrow> package option res \<times> server" where
  "poll_accept api w self =
     (case poll_pending_external w (sv_chans self) of
        (Ok _, c) \<Rightarrow> poll_server api w True True (self\<lparr>sv_chans := drive_clone c\<rparr>)
      | (Err e, c) \<Rightarrow> (Err e, self\<lparr>sv_chans := c\<rparr>)
      | (Pending, c) \<Rightarrow> (Pending, self\<lparr>sv_chans := c\<rparr>)
      | (Panic p, c) \<Rightarrow> (Panic p, self\<lparr>sv_chans := c\<rparr>))"

text \<open>\<^verbatim>\<open>accept\<close> converts the error.\<close>

definition accept_result :: "package option res \<Rightarrow> (error + package) option res" where
  "accept_result r = (case r of
      Ok p \<Rightarrow> Ok (map_option Inr p) | Err e \<Rightarrow> Ok (Some (Inl (from_io e))) | Pending \<Rightarrow> Pending | Panic p \<Rightarrow> Panic p)"

definition sv_poll_close :: "http_api \<Rightarrow> waker \<Rightarrow> server \<Rightarrow> unit res \<times> server" where
  "sv_poll_close api w self =
     (case poll_server api w False True self of
        (Pending, self1) \<Rightarrow> (Pending, self1)
      | (Panic p, self1) \<Rightarrow> (Panic p, self1)
      | (_, self1) \<Rightarrow> (Ok (), self1))"

section \<open>Driving from the handles of the user\<close>

text \<open>Only what waits for the transport is reported as pending; what waits for the user is not.\<close>

definition poll_drive_external :: "http_api \<Rightarrow> waker \<Rightarrow> server \<Rightarrow> unit res \<times> server" where
  "poll_drive_external api w self =
     (case poll_server api w False False self of
        (Pending, self1) \<Rightarrow>
          (let pending_io = bi_pending_rx (sv_io self1) \<or> bi_pending_tx (sv_io self1)
           in if pending_io then (Pending, self1) else (Ok (), self1))
      | (Ok (Some _), self1) \<Rightarrow> (Panic ''internal error: entered unreachable code: Got next request in poll_drive_external'', self1)
      | (Err e, self1) \<Rightarrow> (Err e, self1)
      | (Ok None, self1) \<Rightarrow> (Ok (), self1)
      | (Panic p, self1) \<Rightarrow> (Panic p, self1))"

text \<open>
  \<^verbatim>\<open>send_response\<close> is a coroutine. It starts by sending the response to the connection, and then
  drives the connection until that is done; it owns the \<open>send_response\<close> and drops it at its end.
\<close>

definition send_response_drop :: "send_response \<Rightarrow> server_chans \<Rightarrow> server_chans" where
  "send_response_drop self c = upd_res (sr_tx_res self) sender_drop (drive_drop c)"

definition send_stream_drop :: "nat \<Rightarrow> server_chans \<Rightarrow> server_chans" where
  "send_stream_drop k c = drive_drop (upd_out k sender_drop c)"

definition recv_stream_drop :: "nat \<Rightarrow> server_chans \<Rightarrow> server_chans" where
  "recv_stream_drop i c = drive_drop (upd_in i receiver_drop c)"

definition response_ended :: "send_response \<Rightarrow> response \<Rightarrow> bool \<Rightarrow> limit_write \<Rightarrow> bool" where
  "response_ended self response no_body limit \<longleftrightarrow>
     no_body \<or> sr_req_expects_no_body self \<or> lw_is_no_body limit
     \<or> sc_is_informational (res_status response) \<or> sc_as_u16 (res_status response) = 204
     \<or> sc_as_u16 (res_status response) = 304"

definition send_response_start ::
  "response \<Rightarrow> bool \<Rightarrow> send_response \<Rightarrow> server_chans \<Rightarrow> (error + (send_stream \<times> nat)) \<times> server_chans" where
  "send_response_start response no_body self c =
     (let k = sc_fresh c;
          c1 = c\<lparr>sc_out := (sc_out c)(k := receiver_new 1), sc_fresh := k + 1\<rparr>;
          limit = lw_from_headers (res_headers response);
          ended = response_ended self response no_body limit;
          c2 = drive_clone c1;
          send = send_stream_new limit ended
      in case sender_send (response, ended, k) (sc_res c2 (sr_tx_res self)) of
          (False, q) \<Rightarrow>
            (Inl (from_io (IoError OtherKind ''Connection closed'')),
              send_response_drop self
                (send_stream_drop k (upd_out k receiver_drop (upd_res (sr_tx_res self) (\<lambda>_. q) c2))))
        | (True, q) \<Rightarrow> (Inr (send, k), upd_res (sr_tx_res self) (\<lambda>_. q) c2))"

definition send_response_drive ::
  "http_api \<Rightarrow> waker \<Rightarrow> send_response \<Rightarrow> send_stream \<times> nat \<Rightarrow> server \<Rightarrow> (error + (send_stream \<times> nat)) res \<times> server" where
  "send_response_drive api w self send sv =
     (case poll_drive_external api w sv of
        (Ok _, sv1) \<Rightarrow> (Ok (Inr send), sv1\<lparr>sv_chans := send_response_drop self (sv_chans sv1)\<rparr>)
      | (Err e, sv1) \<Rightarrow>
          (Ok (Inl (from_io e)), sv1\<lparr>sv_chans := send_response_drop self (send_stream_drop (snd send) (sv_chans sv1))\<rparr>)
      | (Pending, sv1) \<Rightarrow> (Pending, sv1)
      | (Panic p, sv1) \<Rightarrow> (Panic p, sv1))"

text \<open>The first poll.\<close>

definition send_response_poll ::
  "http_api \<Rightarrow> waker \<Rightarrow> response \<Rightarrow> bool \<Rightarrow> send_response \<Rightarrow> server \<Rightarrow> (error + (send_stream \<times> nat)) res \<times> server" where
  "send_response_poll api w response no_body self sv =
     (case send_response_start response no_body self (sv_chans sv) of
        (Inl e, c) \<Rightarrow> (Ok (Inl e), sv\<lparr>sv_chans := c\<rparr>)
      | (Inr send, c) \<Rightarrow> send_response_drive api w self send (sv\<lparr>sv_chans := c\<rparr>))"

text \<open>The streams of the user, with their channel in the store of the connection they drive.\<close>

definition server_read ::
  "http_api \<Rightarrow> waker \<Rightarrow> nat \<Rightarrow> nat \<Rightarrow> recv_stream \<times> server \<Rightarrow> bytes res \<times> (recv_stream \<times> server)" where
  "server_read api w i =
     rs_poll_read (Some (poll_drive_external api w)) (\<lambda>s. sc_in (sv_chans s) i)
       (\<lambda>q s. s\<lparr>sv_chans := upd_in i (\<lambda>_. q) (sv_chans s)\<rparr>) w"

definition server_send ::
  "http_api \<Rightarrow> waker \<Rightarrow> nat \<Rightarrow> bool \<Rightarrow> server send_state \<Rightarrow> ((error + unit) res \<times> server send_state) option" where
  "server_send api w k =
     do_send_poll (Some (poll_drive_external api w)) (\<lambda>s. sc_out (sv_chans s) k)
       (\<lambda>q s. s\<lparr>sv_chans := upd_out k (\<lambda>_. q) (sv_chans s)\<rparr>) w"

text \<open>The connection itself is dropped with the last of the handles that can drive it.\<close>

definition server_drop :: "server \<Rightarrow> server_chans" where
  "server_drop self =
     (let c = drive_drop (sv_chans self);
          c1 = (if sc_drives c = 0 then drop_server_state (sv_state self) c else c)
      in c1\<lparr>sc_ext := receiver_drop (sc_ext c1)\<rparr>)"

end
