(* ===== verification/Server_Proofs.thy ===== *)
theory Server_Proofs
  imports Server
begin

text \<open>
  What the server promises: its states stay well-formed and none of its assertions fails; a
  response and its body reach the connection in order; a pending connection waits for something
  that will wake it.
\<close>

section \<open>Well-formed states\<close>

definition server_limit_ok :: "limit_read \<Rightarrow> bool" where
  "server_limit_ok l \<longleftrightarrow> limit_ok l \<and> \<not> lr_is_read_to_end l"

definition exchange_ok :: "server_bidirect \<Rightarrow> bool" where
  "exchange_ok b \<longleftrightarrow> server_limit_ok (sbi_limit b) \<and> (sbi_rx_res b = None \<longleftrightarrow> sbi_holder b \<noteq> None)"

definition server_state_ok :: "server_state \<Rightarrow> bool" where
  "server_state_ok st = (case st of SendRes b \<Rightarrow> exchange_ok b | _ \<Rightarrow> True)"

text \<open>Each of the \<open>n\<close> means to drive the connection has its sender, and nobody uses it to send.\<close>

definition drives_are :: "nat \<Rightarrow> server_chans \<Rightarrow> bool" where
  "drives_are n c \<longleftrightarrow> sc_drives c = n \<and> ch_senders (sc_ext c) = n \<and> ch_queue (sc_ext c) = [] \<and> 0 < ch_receivers (sc_ext c)"

text \<open>A connection that is closed is not read from any more.\<close>

definition server_ok :: "server \<Rightarrow> bool" where
  "server_ok self \<longleftrightarrow> tx_ok (sv_io self) \<and> server_state_ok (sv_state self) \<and> (sv_state self \<noteq> Closed \<longrightarrow> rx_ok (sv_io self))"

text \<open>The panics that are left: a full read buffer, and a response with a version that cannot be written.\<close>

definition server_panic :: "string \<Rightarrow> bool" where
  "server_panic p \<longleftrightarrow> full_buffer_panic p \<or> p = ''Unsupported http version''"

text \<open>What the drops and the streams leave alone.\<close>

lemma fold_upd_out [simp]:
  "sc_in (fold (\<lambda>(_, _, k). upd_out k f) ms c) = sc_in c" "sc_res (fold (\<lambda>(_, _, k). upd_out k f) ms c) = sc_res c"
  "sc_fresh (fold (\<lambda>(_, _, k). upd_out k f) ms c) = sc_fresh c" "sc_ext (fold (\<lambda>(_, _, k). upd_out k f) ms c) = sc_ext c"
  "sc_drives (fold (\<lambda>(_, _, k). upd_out k f) ms c) = sc_drives c"
  by (induction ms arbitrary: c) (auto split: prod.splits)

lemma drop_simps [simp]:
  "sc_in (drop_rx_res j c) = sc_in c" "sc_fresh (drop_rx_res j c) = sc_fresh c"
  "sc_ext (drop_rx_res j c) = sc_ext c" "sc_drives (drop_rx_res j c) = sc_drives c"
  "sc_in (drop_holder h c) = sc_in c" "sc_res (drop_holder h c) = sc_res c" "sc_fresh (drop_holder h c) = sc_fresh c"
  "sc_ext (drop_holder h c) = sc_ext c" "sc_drives (drop_holder h c) = sc_drives c" "drop_holder None c = c"
  "sc_ext (drop_server_state st c) = sc_ext c" "sc_drives (drop_server_state st c) = sc_drives c"
  "sc_fresh (drop_server_state st c) = sc_fresh c"
  by (simp_all add: drop_rx_res_def drop_holder_def drop_server_state_def split: option.splits server_state.splits prod.splits)

lemma drop_rx_res_res: "sc_res (drop_rx_res j c) = (sc_res c)(j := receiver_drop (sc_res c j))"
  by (simp add: drop_rx_res_def)

lemma receiver_drop_suffix [simp]: "suffix (ch_queue (receiver_drop c)) (ch_queue c)"
  by (simp add: receiver_drop_def receiver_release_def receiver_drop_body_def wake_all_def)

lemma drop_rx_res_empty: "ch_queue (sc_res c j) = [] \<Longrightarrow> drop_rx_res j c = upd_res j receiver_drop c"
  by (simp add: drop_rx_res_def)

text \<open>The channels an exchange leaves alone, or only takes from.\<close>

definition same_drives :: "server_chans \<Rightarrow> server_chans \<Rightarrow> bool" where
  "same_drives c c1 \<longleftrightarrow> sc_ext c1 = sc_ext c \<and> sc_drives c1 = sc_drives c \<and> sc_fresh c1 = sc_fresh c
     \<and> (\<forall>j. suffix (ch_queue (sc_res c1 j)) (ch_queue (sc_res c j)))"

lemma same_drives_refl [simp]: "same_drives c c" by (simp add: same_drives_def)

lemma same_drives_trans: "same_drives a b \<Longrightarrow> same_drives b c \<Longrightarrow> same_drives a c"
  unfolding same_drives_def by (metis suffix_order.order_trans)

lemma same_drives_res:
  assumes "sc_ext c1 = sc_ext c" "sc_drives c1 = sc_drives c" "sc_fresh c1 = sc_fresh c" "sc_res c1 = (sc_res c)(j := q)"
    "suffix (ch_queue q) (ch_queue (sc_res c j))"
  shows "same_drives c c1"
  using assms by (simp add: same_drives_def)

lemma poll_recv_suffix: "suffix (ch_queue (snd (poll_recv w reg c))) (ch_queue c)"
  by (cases rule: poll_recv_reg_cases[of w reg c]) (auto simp: suffix_Cons)

section \<open>One poll for the response\<close>

definition response_head :: "response \<Rightarrow> bytes" where
  "response_head res = (case version_text (res_version res) of Ok ver \<Rightarrow> enc_res ver res | _ \<Rightarrow> [])"

lemma write_res_head:
  obtains (Fits) buf where "write_head_into MAX_RESPONSE_SIZE (write_http1x_res res) = Ok buf" "fb_deref buf = response_head res"
  | (TooBig) "write_head_into MAX_RESPONSE_SIZE (write_http1x_res res) = Err (IoError WriteZero ''failed to write whole buffer'')"
  | (Version) "write_head_into MAX_RESPONSE_SIZE (write_http1x_res res) = Panic ''Unsupported http version''"
proof (cases "version_text (res_version res)")
  case (Ok ver)
  note eq = write_res_eq[OF Ok, of MAX_RESPONSE_SIZE]
  show ?thesis
  proof (cases "length (enc_res ver res) \<le> MAX_RESPONSE_SIZE")
    case True
    with eq write_head_into_fits[of "write_http1x_res res" MAX_RESPONSE_SIZE "enc_res ver res"] Ok Fits
    show ?thesis by (auto simp: response_head_def)
  next
    case False
    with eq write_head_into_fails(1)[of MAX_RESPONSE_SIZE "write_http1x_res res"] TooBig show ?thesis by simp
  qed
next
  case (Panic p)
  then have "write_http1x_res res MAX_RESPONSE_SIZE = Panic p" by (simp add: write_http1x_res_def)
  moreover have "p = ''Unsupported http version''" using Panic by (auto simp: version_text_def split: http_version.splits)
  ultimately show ?thesis using write_head_into_fails(2)[of MAX_RESPONSE_SIZE "write_http1x_res res"] Version by simp
qed (auto simp: version_text_def split: http_version.splits)

lemma poll_send_resp_cases:
  assumes "poll_send_resp w reg (b, io, c) = (r, b1, io1, c1)" "sbi_rx_res b = Some j" "tx_ok io" "can_poll_write io"
  obtains (Sent) res eob k q wr where "poll_recv w reg (sc_res c j) = (Ok (Some (res, eob, k)), q)"
      "poll_write_all (Some (response_head res)) True io = (wr, None, io1)" "wr = Ok () \<or> wr = Pending" "r = Ok ()"
      "b1 = b\<lparr>sbi_holder := Some (eob, lw_from_headers (res_headers res), k), sbi_rx_res := None\<rparr>"
      "c1 = drop_rx_res j (drop_holder (sbi_holder b) (upd_res j (\<lambda>_. q) c))"
  | (Failed) res eob k q e where "poll_recv w reg (sc_res c j) = (Ok (Some (res, eob, k)), q)" "r = Err e"
      "io1 = io \<or> poll_write_all (Some (response_head res)) True io = (Err e, None, io1)"
      "c1 = drop_holder (sbi_holder b) (upd_res j (\<lambda>_. q) c)"
      "b1 = b\<lparr>sbi_holder := Some (eob, lw_from_headers (res_headers res), k)\<rparr>"
  | (Version) "r = Panic ''Unsupported http version''"
  | (Dropped) q where "poll_recv w reg (sc_res c j) = (Ok None, q)" "b1 = b" "io1 = io" "c1 = upd_res j (\<lambda>_. q) c"
      "r = Err (IoError OtherKind ''SendResponse dropped before sending any response'')"
  | (Waiting) q where "poll_recv w reg (sc_res c j) = (Pending, q)" "r = Pending" "b1 = b" "io1 = io" "c1 = upd_res j (\<lambda>_. q) c"
      "reg \<longrightarrow> w \<in> set (ch_wakers q)" "ch_queue q = ch_queue (sc_res c j)"
proof (cases rule: poll_recv_reg_cases[of w reg "sc_res c j"])
  case (Message m q)
  obtain res eob k where m: "m = (res, eob, k)" by (metis prod_cases3)
  show ?thesis
  proof (cases rule: write_res_head[of res])
    case (Fits buf)
    obtain wr rest io2 where wr: "poll_write_all (Some (response_head res)) True io = (wr, rest, io2)" by (metis prod_cases3)
    note idle = poll_write_all_idle[OF assms(3,4) wr]
    let ?c = "drop_holder (sbi_holder b) (upd_res j (\<lambda>_. q) c)"
    let ?b = "b\<lparr>sbi_holder := Some (eob, lw_from_headers (res_headers res), k)\<rparr>"
    note run = assms(1,2,4) Message(1) m Fits wr idle(1)
    show ?thesis
    proof (cases wr)
      case (Ok u)
      with run have "r = Ok ()" "b1 = ?b\<lparr>sbi_rx_res := None\<rparr>" "io1 = io2" "c1 = drop_rx_res j ?c"
        by (simp_all add: poll_send_resp_def Let_def)
      with Sent[of res eob k q wr] Message(1) m wr idle(1) Ok show ?thesis by simp
    next
      case (Err e)
      with run have "r = Err e" "b1 = ?b" "io1 = io2" "c1 = ?c" by (simp_all add: poll_send_resp_def Let_def)
      with Failed[of res eob k q e] Message(1) m wr idle(1) Err show ?thesis by simp
    next
      case Pending
      with run have "r = Ok ()" "b1 = ?b\<lparr>sbi_rx_res := None\<rparr>" "io1 = io2" "c1 = drop_rx_res j ?c"
        by (simp_all add: poll_send_resp_def Let_def)
      with Sent[of res eob k q wr] Message(1) m wr idle(1) Pending show ?thesis by simp
    next
      case (Panic p)
      with idle(4) show ?thesis by blast
    qed
  next
    case TooBig
    with assms(1,2) Message(1) m show ?thesis using Failed[of res eob k q] by (auto simp: poll_send_resp_def Let_def)
  next
    case 3: Version
    with assms(1,2) Message(1) m show ?thesis using Version by (simp add: poll_send_resp_def Let_def)
  qed
next
  case (Closed q)
  with assms(1,2) Dropped show ?thesis by (auto simp: poll_send_resp_def into_io_def)
next
  case (Waiting q)
  with assms(1,2) that(5) show ?thesis by (auto simp: poll_send_resp_def)
qed

lemma poll_send_resp_drives:
  assumes "poll_send_resp w reg (b, io, c) = (r, b1, io1, c1)"
  shows "sc_in c1 = sc_in c \<and> same_drives c c1"
proof (cases "sbi_rx_res b")
  case None
  with assms show ?thesis by (simp add: poll_send_resp_def)
next
  case (Some j)
  obtain x q where q: "poll_recv w reg (sc_res c j) = (x, q)" by fastforce
  then have suf: "suffix (ch_queue q) (ch_queue (sc_res c j))" using poll_recv_suffix[of w reg "sc_res c j"] by simp
  let ?c = "upd_res j (\<lambda>_. q) c"
  have "c1 = ?c \<or> c1 = drop_holder (sbi_holder b) ?c \<or> c1 = drop_rx_res j (drop_holder (sbi_holder b) ?c)"
    using assms Some q by (auto simp: poll_send_resp_def Let_def split: res.splits option.splits prod.splits if_splits)
  moreover have "suffix (ch_queue (receiver_drop q)) (ch_queue (sc_res c j))"
    using suf receiver_drop_suffix suffix_order.order_trans by blast
  ultimately show ?thesis using suf
    by (elim disjE) (auto simp: drop_rx_res_res intro: same_drives_res[of _ _ j q] same_drives_res[of _ _ j "receiver_drop q"])
qed

lemma poll_send_resp_ok:
  assumes "poll_send_resp w reg (b, io, c) = (r, b1, io1, c1)" "sbi_rx_res b = Some j"
    "tx_ok io" "can_poll_write io" "rx_ok io" "exchange_ok b"
  shows "r = Panic p \<Longrightarrow> server_panic p" "(\<And>p. r \<noteq> Panic p) \<Longrightarrow> rx_ok io1 \<and> tx_ok io1 \<and> same_rx io io1"
    "r = Ok () \<Longrightarrow> exchange_ok b1 \<and> sbi_rx_res b1 = None \<and> sbi_tx_body b1 = sbi_tx_body b"
    "r = Pending \<Longrightarrow> b1 = b \<and> io1 = io \<and> sc_in c1 = sc_in c \<and> (reg \<longrightarrow> w \<in> set (ch_wakers (sc_res c1 j)))"
    "sc_in c1 = sc_in c \<and> same_drives c c1"
proof -
  have "(\<forall>p. r = Panic p \<longrightarrow> server_panic p) \<and> ((\<forall>p. r \<noteq> Panic p) \<longrightarrow> rx_ok io1 \<and> tx_ok io1 \<and> same_rx io io1)
    \<and> (r = Ok () \<longrightarrow> exchange_ok b1 \<and> sbi_rx_res b1 = None \<and> sbi_tx_body b1 = sbi_tx_body b)
    \<and> (r = Pending \<longrightarrow> b1 = b \<and> io1 = io \<and> sc_in c1 = sc_in c \<and> (reg \<longrightarrow> w \<in> set (ch_wakers (sc_res c1 j))))"
    using assms(1-4)
  proof (cases rule: poll_send_resp_cases)
    case (Sent res eob k q wr)
    with poll_write_all_idle(2,3)[OF assms(3,4) Sent(2)] same_rx_ok(1)[of io io1] assms(5,6) show ?thesis
      by (simp add: exchange_ok_def)
  next
    case (Failed res eob k q e)
    then have "same_rx io io1 \<and> tx_ok io1" using poll_write_all_idle(2,3)[OF assms(3,4)] assms(3) by auto
    with Failed same_rx_ok(1)[of io io1] assms(5) show ?thesis by simp
  qed (use assms in \<open>auto simp: server_panic_def\<close>)
  then show "r = Panic p \<Longrightarrow> server_panic p" "(\<And>p. r \<noteq> Panic p) \<Longrightarrow> rx_ok io1 \<and> tx_ok io1 \<and> same_rx io io1"
    "r = Ok () \<Longrightarrow> exchange_ok b1 \<and> sbi_rx_res b1 = None \<and> sbi_tx_body b1 = sbi_tx_body b"
    "r = Pending \<Longrightarrow> b1 = b \<and> io1 = io \<and> sc_in c1 = sc_in c \<and> (reg \<longrightarrow> w \<in> set (ch_wakers (sc_res c1 j)))"
    "sc_in c1 = sc_in c \<and> same_drives c c1"
    using poll_send_resp_drives[OF assms(1)] by auto
qed

section \<open>One chunk of the body of the request\<close>

text \<open>
  A reading of the limiter is exact. Taking the whole buffer is exact when nothing follows the
  body in what the connection has yet to read.
\<close>

definition unmixed :: "limit_read \<times> buf_io \<Rightarrow> bool" where
  "unmixed = (\<lambda>(l, io). case l of LR_ContentLength v \<Rightarrow> length (in_stream io) \<le> clr_left v | _ \<Rightarrow> True)"

lemma lr_accept_left:
  assumes "length chunk \<le> clr_left v"
  shows "clr_left (v\<lparr>clr_total := clr_total v + of_nat (length chunk)\<rparr>) = clr_left v - length chunk"
  using clr_left_advance[of "length chunk" v] assms by simp

lemma lr_accept_unmixed:
  assumes "take_read_buf io = (chunk, io1)" "can_take_read_buf io" "rx_ok io" "lr_can_read_entire_vec l"
  obtains l1 where "lr_accept_entire_vec chunk l = Ok l1" "rx_ok io1" "limit_ok l1" "lr_is_read_to_end l1 = lr_is_read_to_end l"
    "unmixed (l, io) \<Longrightarrow> unmixed (l1, io1) \<and> lr_stream (l, io) = chunk @ lr_stream (l1, io1)"
proof -
  note take = take_read_buf_spec[OF assms(3,2,1)]
  obtain v where l: "l = LR_ContentLength v" using assms(4) by (auto simp: lr_can_read_entire_vec_def split: limit_read.splits)
  let ?v = "v\<lparr>clr_total := clr_total v + of_nat (length chunk)\<rparr>"
  have "unmixed (LR_ContentLength ?v, io1) \<and> lr_stream (l, io) = chunk @ lr_stream (LR_ContentLength ?v, io1)" if "unmixed (l, io)"
  proof -
    have "length chunk + length (in_stream io1) \<le> clr_left v" using that take(3) l by (simp add: unmixed_def)
    moreover from this have "clr_left ?v = clr_left v - length chunk" by (intro lr_accept_left) simp
    ultimately show ?thesis using take(3) l by (simp add: unmixed_def lr_stream_def)
  qed
  with l take(1) show ?thesis by (intro that) (auto simp: lr_accept_entire_vec_def limit_ok_def lr_is_read_to_end_def)
qed

lemma lr_poll_read_unmixed:
  assumes "rx_ok io" "0 < n" "unmixed (l, io)" "lr_poll_read n (l, io) = (r, l1, io1)" "(\<exists>bs. r = Ok bs) \<or> r = Pending"
  shows "unmixed (l1, io1)"
proof (cases l)
  case (LR_ContentLength v)
  with assms(4) obtain v1 where v1: "l1 = LR_ContentLength v1" "clr_poll_read n (v, io) = (r, v1, io1)" by (auto simp: lr_polls)
  note spec = clr_poll_read_spec[OF assms(1,2) v1(2)]
  have le: "length (in_stream io) \<le> clr_left v" using assms(3) LR_ContentLength by (simp add: unmixed_def)
  have "length (in_stream io1) \<le> clr_left v1"
  proof (cases r)
    case (Ok bs)
    then have "length (in_stream io) = length bs + length (in_stream io1)" "clr_left v1 = clr_left v - length bs"
      using spec by (metis length_append, blast)
    with le show ?thesis by simp
  next
    case Pending
    with spec le show ?thesis by simp
  qed (use assms(5) in auto)
  with v1(1) show ?thesis by (simp add: unmixed_def)
qed (use assms(4) in \<open>auto simp: lr_polls unmixed_def\<close>)

lemma read_chunk_spec:
  assumes "rx_ok io" "limit_ok l" "0 < n" "read_chunk n (l, io) = (r, l1, io1)"
  shows "(\<forall>p. r \<noteq> Panic p) \<and> ((\<exists>bs. r = Ok bs) \<or> r = Pending \<longrightarrow> rx_ok io1 \<and> limit_ok l1)
    \<and> lr_is_read_to_end l1 = lr_is_read_to_end l
    \<and> (unmixed (l, io) \<longrightarrow> (\<forall>bs. r = Ok bs \<longrightarrow> unmixed (l1, io1) \<and> lr_stream (l, io) = bs @ lr_stream (l1, io1))
        \<and> (r = Pending \<longrightarrow> unmixed (l1, io1) \<and> lr_stream (l1, io1) = lr_stream (l, io)))"
proof (cases "lr_can_read_entire_vec l \<and> can_take_read_buf io")
  case True
  obtain chunk io2 where t: "take_read_buf io = (chunk, io2)" by fastforce
  obtain l2 where l2: "lr_accept_entire_vec chunk l = Ok l2" "rx_ok io2" "limit_ok l2"
    "lr_is_read_to_end l2 = lr_is_read_to_end l"
    "unmixed (l, io) \<Longrightarrow> unmixed (l2, io2) \<and> lr_stream (l, io) = chunk @ lr_stream (l2, io2)"
    using lr_accept_unmixed[OF t _ assms(1)] True by blast
  have "r = Ok chunk" "l1 = l2" "io1 = io2" using assms(4) True t l2(1) by (auto simp: read_chunk_def)
  with l2 show ?thesis by auto
next
  case False
  note borrow = fresh_borrow[OF assms(3)]
  obtain q l2 io2 where q: "lr_poll_read n (l, io) = (q, l2, io2)" by (metis prod_cases3)
  have ok: "lr_ok (l, io)" using assms(1,2) by (simp add: lr_ok_iff)
  note st = lr_poll_read_stream[OF ok assms(3) q] and un = lr_poll_read_unmixed[OF assms(1,3) _ q]
    and kind = lr_poll_read_kind[OF q]
  show ?thesis
  proof (cases q)
    case (Ok bs)
    then obtain buf where "fr_extend (length bs)
        (fr_fill 0 bs \<lparr>fr_buf = \<lparr>fb_init = [], fb_len = n, fb_cap = n\<rparr>, fr_cur_len = 0\<rparr>) = Ok buf" "fb_into_vec buf = bs"
      using borrow(2)[of bs] st by blast
    then have "r = Ok bs" "l1 = l2" "io1 = io2" using assms(4) False q Ok borrow(1) by (auto simp: read_chunk_def)
    with st un kind Ok show ?thesis by (auto simp: lr_ok_iff)
  next
    case (Panic p)
    with st show ?thesis by blast
  next
    case Pending
    then have "r = Pending" "l1 = l2" "io1 = io2" using assms(4) False q borrow(1) by (auto simp: read_chunk_def)
    with st un kind Pending show ?thesis by (auto simp: lr_ok_iff)
  next
    case (Err e)
    then have "r = Err e" "l1 = l2" using assms(4) False q borrow(1) by (auto simp: read_chunk_def)
    with kind show ?thesis by simp
  qed
qed

text \<open>What a step of the body does to its channel: the chunk is queued, and the sender goes with the last.\<close>

definition chunk_passed :: "nat \<Rightarrow> bytes \<Rightarrow> bool \<Rightarrow> server_chans \<Rightarrow> server_chans \<Rightarrow> bool" where
  "chunk_passed i bs fin c c1 \<longleftrightarrow> c1 = upd_in i (\<lambda>_. sc_in c1 i) c
     \<and> ch_senders (sc_in c1 i) = (if fin then ch_senders (sc_in c i) - 1 else ch_senders (sc_in c i))
     \<and> ch_bound (sc_in c1 i) = ch_bound (sc_in c i)
     \<and> (chan_open (sc_in c i) \<longrightarrow> chan_open (sc_in c1 i)
          \<and> ch_queue (sc_in c1 i) = ch_queue (sc_in c i) @ (if bs = [] then [] else [Inr bs]))"

lemma upd_in_twice [simp]: "upd_in i f (upd_in i g c) = upd_in i (\<lambda>q. f (g q)) c"
  by (simp add: upd_in_def)

lemma upd_in_same [simp]: "upd_in i (\<lambda>_. sc_in c i) c = c"
  by (simp add: upd_in_def)

lemma sender_send_frame: "ch_senders (snd (sender_send m c)) = ch_senders c" "ch_bound (snd (sender_send m c)) = ch_bound c"
  by (simp_all add: sender_send_def inner_enqueue_def wake_all_def)

lemma sender_drop_frame: "ch_senders (sender_drop c) = ch_senders c - 1" "ch_bound (sender_drop c) = ch_bound c"
  "ch_queue (sender_drop c) = ch_queue c" "chan_open (sender_drop c) = chan_open c" "ch_receivers (sender_drop c) = ch_receivers c"
  by (simp_all add: sender_drop_def sender_release_def sender_drop_body_def wake_all_def chan_open_def)

lemma chunk_passed_send:
  "chunk_passed i bs fin c (upd_in i (\<lambda>q. (if fin then sender_drop else id) (if bs = [] then q else snd (sender_send (Inr bs) q))) c)"
proof -
  obtain sent q where q: "sender_send (Inr bs) (sc_in c i) = (sent, q)" by fastforce
  then have "ch_senders q = ch_senders (sc_in c i)" "ch_bound q = ch_bound (sc_in c i)"
    "chan_open (sc_in c i) \<Longrightarrow> chan_open q \<and> ch_queue q = ch_queue (sc_in c i) @ [Inr bs]"
    using sender_send_frame[of "Inr bs" "sc_in c i"] mpsc.send_open[of "sc_in c i" "Inr bs" sent q] by auto
  with q show ?thesis by (auto simp: chunk_passed_def sender_drop_frame)
qed

lemma pass_chunk_cases:
  assumes "pass_chunk i chunk (b, io, c) = (r, b1, io1, c1)"
  obtains (Partial) "r = Err (IoError UnexpectedEof ''Partial body'')" "chunk = []" "\<not> lr_is_complete (sbi_limit b)"
      "b1 = b" "io1 = io" "c1 = c"
  | (Passed) "r = Ok ()" "chunk = [] \<Longrightarrow> lr_is_complete (sbi_limit b)" "io1 = io"
      "b1 = (if lr_is_complete (sbi_limit b) then b\<lparr>sbi_tx_body := None\<rparr> else b)"
      "chunk_passed i chunk (lr_is_complete (sbi_limit b)) c c1"
proof (cases "chunk = [] \<and> \<not> lr_is_complete (sbi_limit b)")
  case True
  then have "r = Err (IoError UnexpectedEof ''Partial body'')" "b1 = b" "io1 = io" "c1 = c"
    using assms by (simp_all add: pass_chunk_def)
  with True show ?thesis by (intro Partial) blast+
next
  case False
  let ?fin = "lr_is_complete (sbi_limit b)"
  have eq: "r = Ok () \<and> io1 = io \<and> b1 = (if ?fin then b\<lparr>sbi_tx_body := None\<rparr> else b)
      \<and> c1 = upd_in i (\<lambda>q. (if ?fin then sender_drop else id) (if chunk = [] then q else snd (sender_send (Inr chunk) q))) c"
    using assms False by (cases "chunk = []"; cases ?fin) (simp_all add: pass_chunk_def Let_def)
  with chunk_passed_send[of i chunk ?fin c] have "chunk_passed i chunk ?fin c c1" by metis
  with eq False show ?thesis by (intro Passed) blast+
qed

lemma chunk_passed_wait: "chunk_passed i [] False c (upd_in i (\<lambda>q. q\<lparr>ch_wakers := ws\<rparr>) c)"
  by (auto simp: chunk_passed_def chan_open_def)

lemma sv_poll_read_body_spec:
  assumes "sv_poll_read_body w (b, io, c) = (r, b1, io1, c1)" "sbi_tx_body b = Some i" "rx_ok io"
    "server_limit_ok (sbi_limit b)"
  shows "\<exists>bs. (\<forall>p. r \<noteq> Panic p) \<and> same_tx io io1
    \<and> b1 = b\<lparr>sbi_limit := sbi_limit b1, sbi_tx_body := sbi_tx_body b1\<rparr>
    \<and> chunk_passed i bs (sbi_tx_body b1 = None) c c1
    \<and> (r = Ok () \<or> r = Pending \<longrightarrow> rx_ok io1 \<and> server_limit_ok (sbi_limit b1)
         \<and> (unmixed (sbi_limit b, io) \<longrightarrow> unmixed (sbi_limit b1, io1)
              \<and> lr_stream (sbi_limit b, io) = bs @ lr_stream (sbi_limit b1, io1)))
    \<and> (r \<noteq> Ok () \<longrightarrow> bs = [] \<and> sbi_tx_body b1 = Some i)
    \<and> (r = Ok () \<longrightarrow> sbi_tx_body b1 = (if lr_is_complete (sbi_limit b1) then None else Some i))
    \<and> (r = Pending \<longrightarrow> bi_pending_rx io1 \<or> w \<in> set (ch_wakers (sc_in c1 i)))"
proof -
  obtain q qc where q: "sender_poll_ready w True (sc_in c i) = (q, qc)" by fastforce
  let ?io = "ensure_read_capacity (sbi_cur_read_size b) io"
  note cap = ensure_read_capacity_spec[OF assms(3), of "sbi_cur_read_size b"]
  have stay: "chunk_passed i [] False c c" by (simp add: chunk_passed_def)
  from sender_poll_ready_cases[OF q] show ?thesis
  proof (elim disjE exE conjE)
    assume wait: "q = Pending" "qc = (sc_in c i)\<lparr>ch_wakers := ch_wakers (sc_in c i) @ [w]\<rparr>"
    with assms(1,2) q have eq: "r = Pending" "b1 = b" "io1 = io" "c1 = upd_in i (\<lambda>_. qc) c"
      by (auto simp: sv_poll_read_body_def)
    have "chunk_passed i [] False c c1"
      using chunk_passed_wait[of i c "ch_wakers (sc_in c i) @ [w]"] eq(4) wait(2) by (simp add: upd_in_def)
    with eq wait assms(2-4) show ?thesis by (intro exI[of _ "[]"]) simp
  next
    fix x
    assume x: "q = Ok x" "qc = sc_in c i"
    obtain f io2 where f: "poll_fill_buf False ?io = (f, io2)" by fastforce
    note fill = poll_fill_buf_spec[OF cap(1) f]
    have same: "same_tx io io2" using same_tx_trans cap(2) fill by blast
    show ?thesis
    proof (cases f)
      case buf: (Ok buf)
      have io2: "rx_ok io2" "buf = unread io2" "in_stream io2 = in_stream io" using fill buf cap(3) by auto
      have lim: "limit_ok (sbi_limit b)" "\<not> lr_is_read_to_end (sbi_limit b)" using assms(4) by (simp_all add: server_limit_ok_def)
      have st2: "lr_stream (sbi_limit b, io2) = lr_stream (sbi_limit b, io)" "unmixed (sbi_limit b, io2) = unmixed (sbi_limit b, io)"
        using lim(2) io2(3) by (cases "sbi_limit b"; simp add: lr_stream_def unmixed_def lr_is_read_to_end_def)+
      show ?thesis
      proof (cases "buf = []")
        case True
        with assms(1,2) q x f buf have "r = Err (IoError UnexpectedEof ''EOF before complete body received'')" "b1 = b" "io1 = io2" "c1 = c"
          by (auto simp: sv_poll_read_body_def Let_def)
        with same stay assms(2) show ?thesis by (intro exI[of _ "[]"]) simp
      next
        case False
        obtain g l io3 where g: "read_chunk (length buf) (sbi_limit b, io2) = (g, l, io3)" by (metis prod_cases3)
        note chunk = read_chunk_spec[OF io2(1) lim(1) _ g] and only = read_chunk_only[OF g]
        have same3: "same_tx io io3" using same_tx_trans[OF same] only(1) by (simp add: reads_only_def)
        show ?thesis
        proof (cases g)
          case (Ok bs)
          then have "pass_chunk i bs (b\<lparr>sbi_limit := l\<rparr>, io3, c) = (r, b1, io1, c1)"
            using assms(1,2) q x f buf False g by (simp add: sv_poll_read_body_def)
          then show ?thesis
          proof (cases rule: pass_chunk_cases)
            case Partial
            with same3 stay assms(2) show ?thesis by (intro exI[of _ "[]"]) simp
          next
            case Passed
            with chunk Ok False same3 assms(2) show ?thesis
              by (intro exI[of _ bs]) (auto simp: st2 lim server_limit_ok_def)
          qed
        next
          case (Err e)
          with assms(1,2) q x f buf False g have "r = Err e" "b1 = b\<lparr>sbi_limit := l\<rparr>" "io1 = io3" "c1 = c"
            by (auto simp: sv_poll_read_body_def Let_def)
          with same3 stay assms(2) show ?thesis by (intro exI[of _ "[]"]) simp
        next
          case Pending
          with assms(1,2) q x f buf False g have "r = Pending" "b1 = b\<lparr>sbi_limit := l\<rparr>" "io1 = io3" "c1 = c"
            by (auto simp: sv_poll_read_body_def Let_def)
          with chunk Pending False same3 stay assms(2) only(3) show ?thesis
            by (intro exI[of _ "[]"]) (auto simp: st2 lim server_limit_ok_def)
        next
          case (Panic p)
          with chunk False show ?thesis by blast
        qed
      qed
    next
      case (Err e)
      with assms(1,2) q x f have "r = Err e" "b1 = b" "io1 = io2" "c1 = c" by (auto simp: sv_poll_read_body_def Let_def)
      with same stay assms(2) show ?thesis by (intro exI[of _ "[]"]) simp
    next
      case Pending
      with assms(1,2) q x f have "r = Pending" "b1 = b" "io1 = io2" "c1 = c" by (auto simp: sv_poll_read_body_def Let_def)
      moreover have "lr_stream (sbi_limit b, io2) = lr_stream (sbi_limit b, io)" "unmixed (sbi_limit b, io2) = unmixed (sbi_limit b, io)"
        using assms(4) fill Pending cap(3)
        by (cases "sbi_limit b"; simp add: lr_stream_def unmixed_def lr_is_read_to_end_def server_limit_ok_def)+
      ultimately show ?thesis using same stay assms(2,4) fill Pending
        by (intro exI[of _ "[]"]) simp
    next
      case (Panic p)
      have "0 < fb_cap (bi_buf ?io)" "fb_len (bi_buf ?io) = fb_cap (bi_buf ?io)" using fill Panic cap(1) by (auto simp: rx_ok_def)
      then have "fb_len (bi_buf ?io) \<noteq> 0" by simp
      with f Panic show ?thesis by (simp add: poll_fill_buf_def)
    qed
  qed
qed

section \<open>The loop over both\<close>

lemma sv_bidirect_loop_rule:
  assumes "sv_bidirect_loop w reg s = (r, s')" "I s"
    and "\<And>s s1. I s \<Longrightarrow> rx_res_waits s \<or> tx_body_waits s \<Longrightarrow> exchange_round w reg s = (Ok (), s1) \<Longrightarrow> I s1"
    and "\<And>s r s1. I s \<Longrightarrow> rx_res_waits s \<or> tx_body_waits s \<Longrightarrow> exchange_round w reg s = (r, s1) \<Longrightarrow> r \<noteq> Ok () \<Longrightarrow> Q r s1"
    and "\<And>s. I s \<Longrightarrow> \<not> rx_res_waits s \<Longrightarrow> \<not> tx_body_waits s \<Longrightarrow> Q (Ok ()) s"
  shows "Q r s'"
proof -
  have "sv_bidirect_loop w reg s = (r, s') \<Longrightarrow> I s \<Longrightarrow> Q r s'"
  proof (induction s rule: wf_induct_rule[OF wf_measures[of "[\<lambda>s. if rx_res_waits s then 1 else 0, exchange_size]"]])
    case (1 s)
    show ?case
    proof (cases "\<not> rx_res_waits s \<and> \<not> tx_body_waits s")
      case True
      with 1(2,3) assms(5) show ?thesis by (simp add: sv_bidirect_loop.simps[of w reg s])
    next
      case False
      then have waits: "rx_res_waits s \<or> tx_body_waits s" by simp
      obtain q s1 where q: "exchange_round w reg s = (q, s1)" by (metis surj_pair)
      have loop: "ready (q, s1) (\<lambda>_ s1. sv_bidirect_loop w reg s1) = (r, s')"
        using 1(2) False q by (simp add: sv_bidirect_loop.simps[of w reg s])
      show ?thesis
      proof (cases "q = Ok ()")
        case True
        have "(s1, s) \<in> measures [\<lambda>s. if rx_res_waits s then 1 else 0, exchange_size]"
          using exchange_round_decreases[OF q[unfolded True] waits] by auto
        with 1(1) assms(3)[OF 1(3) waits] loop q True show ?thesis by simp
      next
        case no: False
        then have "q = r" "s1 = s'" using loop by (cases q; simp)+
        with assms(4)[OF 1(3) waits q no] show ?thesis by simp
      qed
    qed
  qed
  with assms(1,2) show ?thesis by blast
qed

text \<open>Before the response is written the connection must be free for it.\<close>

definition exchange_inv :: "exchange \<Rightarrow> bool" where
  "exchange_inv = (\<lambda>(b, io, c). rx_ok io \<and> tx_ok io \<and> exchange_ok b \<and> (sbi_rx_res b \<noteq> None \<longrightarrow> can_poll_write io))"

text \<open>What an exchange that is pending waits for; without a registration it need not be anything.\<close>

definition body_asked :: "waker \<Rightarrow> exchange \<Rightarrow> bool" where
  "body_asked w = (\<lambda>(b, io, c). case sbi_tx_body b of
      Some i \<Rightarrow> bi_pending_rx io \<or> w \<in> set (ch_wakers (sc_in c i)) | None \<Rightarrow> False)"

definition exchange_waiting :: "waker \<Rightarrow> bool \<Rightarrow> exchange \<Rightarrow> bool" where
  "exchange_waiting w reg = (\<lambda>(b, io, c). case sbi_rx_res b of
      Some j \<Rightarrow> if reg then w \<in> set (ch_wakers (sc_res c j)) else sbi_tx_body b = None \<or> body_asked w (b, io, c)
    | None \<Rightarrow> body_asked w (b, io, c))"

lemma same_drives_in [simp]: "same_drives c (upd_in i f c)"
  by (simp add: same_drives_def)

lemma chunk_passed_drives: "chunk_passed i bs fin c c1 \<Longrightarrow> same_drives c c1"
  unfolding chunk_passed_def using same_drives_in by metis

definition exchange_post :: "waker \<Rightarrow> bool \<Rightarrow> unit res \<Rightarrow> exchange \<Rightarrow> bool" where
  "exchange_post w reg r = (\<lambda>(b, io, c).
     (\<forall>p. r = Panic p \<longrightarrow> server_panic p) \<and> ((\<forall>p. r \<noteq> Panic p) \<longrightarrow> tx_ok io)
     \<and> (r = Ok () \<or> r = Pending \<longrightarrow> rx_ok io \<and> tx_ok io \<and> exchange_ok b)
     \<and> (r = Pending \<longrightarrow> exchange_waiting w reg (b, io, c)))"

lemma exchange_round_post:
  assumes "exchange_inv (b, io, c)" "exchange_round w reg (b, io, c) = (r, s2)"
  shows "exchange_post w reg r s2 \<and> (r = Ok () \<longrightarrow> exchange_inv s2)
    \<and> ((\<forall>p. r \<noteq> Panic p) \<longrightarrow> same_drives c (snd (snd s2)))"
proof -
  have inv: "rx_ok io" "tx_ok io" "exchange_ok b" "sbi_rx_res b \<noteq> None \<longrightarrow> can_poll_write io" "server_limit_ok (sbi_limit b)"
    using assms(1) by (auto simp: exchange_inv_def exchange_ok_def)
  obtain q1 b1 io1 c1 where q1: "poll_if (rx_res_waits (b, io, c)) (poll_send_resp w reg) (b, io, c) = (q1, b1, io1, c1)"
    by (metis prod_cases4)
  have first: "(\<forall>p. q1 = Panic p \<longrightarrow> server_panic p) \<and> q1 \<noteq> Pending
      \<and> ((\<forall>p. q1 \<noteq> Panic p) \<longrightarrow> same_drives c c1)
      \<and> ((\<forall>p. q1 \<noteq> Panic p) \<longrightarrow> tx_ok io1)
      \<and> ((\<exists>a. q1 = Ok a) \<longrightarrow> rx_ok io1 \<and> exchange_ok b1)
      \<and> (q1 = Ok True \<longrightarrow> b1 = b \<and> io1 = io \<and> (\<exists>j. sbi_rx_res b = Some j \<and> (reg \<longrightarrow> w \<in> set (ch_wakers (sc_res c1 j)))))
      \<and> (q1 = Ok False \<longrightarrow> sbi_rx_res b1 = None)"
  proof (cases "sbi_rx_res b")
    case None
    with q1 inv show ?thesis by (auto simp: rx_res_waits_def)
  next
    case (Some j)
    obtain r1 b2 io2 c2 where r1: "poll_send_resp w reg (b, io, c) = (r1, b2, io2, c2)" by (metis prod_cases4)
    have eq: "q1 = (case r1 of Pending \<Rightarrow> Ok True | Ok _ \<Rightarrow> Ok False | Err e \<Rightarrow> Err e | Panic p \<Rightarrow> Panic p)"
      "b1 = b2" "io1 = io2" "c1 = c2"
      using q1 r1 Some by (cases r1; simp add: rx_res_waits_def poll_if_True)+
    note ok = poll_send_resp_ok[OF r1 Some inv(2) _ inv(1,3)]
    from ok Some eq inv show ?thesis by (cases r1) auto
  qed
  show ?thesis
  proof (cases "\<exists>a. q1 = Ok a")
    case False
    with assms(2) q1 first have "r = (case q1 of Err e \<Rightarrow> Err e | Panic p \<Rightarrow> Panic p | _ \<Rightarrow> Pending)" "s2 = (b1, io1, c1)"
      by (cases q1; simp add: exchange_round_def)+
    with first False show ?thesis by (cases q1) (auto simp: exchange_post_def)
  next
    case True
    then obtain a where a: "q1 = Ok a" by blast
    with first have ok1: "rx_ok io1" "tx_ok io1" "exchange_ok b1" "same_drives c c1" by auto
    have rest: "(if a \<and> (reg \<or> \<not> tx_body_waits (b1, io1, c1)) then (Pending, b1, io1, c1)
        else if tx_body_waits (b1, io1, c1) then sv_poll_read_body w (b1, io1, c1) else (Ok (), b1, io1, c1)) = (r, s2)"
      using assms(2) q1 a by (simp add: exchange_round_def)
    have can: "sbi_rx_res b1 \<noteq> None \<longrightarrow> can_poll_write io1" using first a inv(4) by (cases a) auto
    show ?thesis
    proof (cases "sbi_tx_body b1")
      case None
      with rest first a ok1 can show ?thesis
        by (cases a) (auto simp: tx_body_waits_def exchange_post_def exchange_waiting_def exchange_inv_def)
    next
      case (Some i)
      show ?thesis
      proof (cases "a \<and> reg")
        case True
        with rest first a ok1 Some show ?thesis
          by (auto simp: tx_body_waits_def exchange_post_def exchange_waiting_def)
      next
        case False
        obtain b2 io2 c2 where s2: "s2 = (b2, io2, c2)" by (metis prod_cases3)
        have rd: "sv_poll_read_body w (b1, io1, c1) = (r, b2, io2, c2)" using rest Some False s2 by (auto simp: tx_body_waits_def)
        have lim: "server_limit_ok (sbi_limit b1)" using ok1(3) by (simp add: exchange_ok_def)
        obtain bs where bs: "\<forall>p. r \<noteq> Panic p" "same_tx io1 io2" "b2 = b1\<lparr>sbi_limit := sbi_limit b2, sbi_tx_body := sbi_tx_body b2\<rparr>"
          "chunk_passed i bs (sbi_tx_body b2 = None) c1 c2" "r = Ok () \<or> r = Pending \<longrightarrow> rx_ok io2 \<and> server_limit_ok (sbi_limit b2)"
          "r \<noteq> Ok () \<longrightarrow> sbi_tx_body b2 = Some i" "r = Pending \<longrightarrow> bi_pending_rx io2 \<or> w \<in> set (ch_wakers (sc_in c2 i))"
          using sv_poll_read_body_spec[OF rd Some ok1(1) lim] by blast
        have b2: "sbi_rx_res b2 = sbi_rx_res b1" "sbi_holder b2 = sbi_holder b1" using sv_poll_read_body_frame(1,2)[OF rd] .
        have "same_drives c c2" using ok1(4) chunk_passed_drives[OF bs(4)] same_drives_trans by blast
        moreover have "tx_ok io2" "r = Ok () \<or> r = Pending \<longrightarrow> rx_ok io2 \<and> exchange_ok b2"
          using bs(2,5) b2 ok1(2,3) same_tx_ok(1)[OF bs(2)] by (simp_all add: exchange_ok_def)
        moreover have "r = Pending \<longrightarrow> exchange_waiting w reg (b2, io2, c2)"
          using bs(6,7) b2 first a False by (cases a) (auto simp: exchange_waiting_def body_asked_def split: option.split)
        moreover have "sbi_rx_res b2 \<noteq> None \<longrightarrow> can_poll_write io2" using can b2 same_tx_ok(2)[OF bs(2)] by simp
        ultimately show ?thesis using bs(1) s2 by (auto simp: exchange_post_def exchange_inv_def)
      qed
    qed
  qed
qed

lemma sv_bidirect_loop_post:
  assumes "exchange_inv (b, io, c)" "sv_bidirect_loop w reg (b, io, c) = (r, s1)"
  shows "exchange_post w reg r s1 \<and> ((\<forall>p. r \<noteq> Panic p) \<longrightarrow> same_drives c (snd (snd s1)))
    \<and> (r = Ok () \<longrightarrow> exchange_inv s1 \<and> \<not> rx_res_waits s1 \<and> \<not> tx_body_waits s1)"
  using assms(2)
proof (rule sv_bidirect_loop_rule[where I = "\<lambda>s. exchange_inv s \<and> same_drives c (snd (snd s))"], goal_cases)
  case 1
  then show ?case using assms(1) by simp
next
  case (2 s s1)
  with exchange_round_post[of "fst s" "fst (snd s)" "snd (snd s)" w reg "Ok ()" s1] same_drives_trans show ?case by auto
next
  case (3 s r s1)
  with exchange_round_post[of "fst s" "fst (snd s)" "snd (snd s)" w reg r s1] same_drives_trans show ?case by auto
next
  case (4 s)
  then show ?case by (cases s) (auto simp: exchange_inv_def exchange_post_def)
qed

section \<open>The body of the response\<close>

text \<open>A user who sends nothing after the piece with the end flag.\<close>

fun ends_once :: "(bytes \<times> bool) list \<Rightarrow> bool" where
  "ends_once [] = True"
| "ends_once ((bs, eob) # ms) = (if eob then ms = [] else ends_once ms)"

lemma upd_out_twice [simp]: "upd_out i f (upd_out i g c) = upd_out i (\<lambda>q. f (g q)) c"
  by (simp add: upd_out_def)

lemma send_body_loop_spec:
  assumes "send_body_loop w reg b (io, c) = (r, io1, c1)" "tx_ok io" "can_poll_write io"
  shows "(\<forall>p. r \<noteq> Panic p) \<and> same_rx io io1 \<and> tx_ok io1
    \<and> (\<exists>q. c1 = upd_out (bs_rx_body b) (\<lambda>_. q) c)
    \<and> ((\<exists>st. r = Ok st) \<longrightarrow> r = Ok (if bs_request_allows_reuse b then RecvReq else Closed))
    \<and> (r = Pending \<longrightarrow> bi_pending_tx io1 \<or> \<not> reg \<or> w \<in> set (ch_wakers (sc_out c1 (bs_rx_body b))))
    \<and> prefix (out_stream io) (out_stream io1)
    \<and> (ends_once (ch_queue (sc_out c (bs_rx_body b))) \<longrightarrow>
         prefix (out_stream io1) (out_stream io @ body_upto (ch_queue (sc_out c (bs_rx_body b))))
         \<and> ((\<exists>st. r = Ok st) \<longrightarrow> out_stream io1 = out_stream io @ body_upto (ch_queue (sc_out c (bs_rx_body b))))
         \<and> (r = Pending \<longrightarrow> out_stream io1 @ body_upto (ch_queue (sc_out c1 (bs_rx_body b)))
               = out_stream io @ body_upto (ch_queue (sc_out c (bs_rx_body b)))))"
  using assms
proof (induction "length (ch_queue (sc_out c (bs_rx_body b)))" arbitrary: io c rule: less_induct)
  case less
  let ?k = "bs_rx_body b"
  show ?case
  proof (cases rule: poll_recv_reg_cases[of w reg "sc_out c ?k"])
    case (Message m q)
    obtain chunk eob where m: "m = (chunk, eob)" by fastforce
    obtain wr rest io2 where wr: "poll_write_all (Some chunk) eob io = (wr, rest, io2)" by (metis prod_cases3)
    note idle = poll_write_all_idle[OF less.prems(2,3) wr]
    let ?c = "upd_out ?k (\<lambda>_. q) c"
    have queue: "ch_queue (sc_out c ?k) = (chunk, eob) # ch_queue q" using Message(2) m by simp
    have same: "\<exists>q1. ?c = upd_out ?k (\<lambda>_. q1) c" by blast
    note step = less.prems(1,3) Message(1) m wr
    show ?thesis
    proof (cases wr)
      case (Ok u)
      show ?thesis
      proof (cases eob)
        case True
        with step Ok have "r = Ok (if bs_request_allows_reuse b then RecvReq else Closed)" "io1 = io2" "c1 = ?c"
          by (simp_all add: send_body_loop.simps[of w reg b io c] Let_def)
        with idle Ok queue True same show ?thesis by simp
      next
        case False
        with step Ok have run: "send_body_loop w reg b (io2, ?c) = (r, io1, c1)"
          by (simp add: send_body_loop.simps[of w reg b io c] Let_def)
        have io2: "out_stream io2 = out_stream io @ chunk" "tx_ok io2" "can_poll_write io2" "same_rx io io2" using idle Ok by auto
        have "length (ch_queue (sc_out ?c ?k)) < length (ch_queue (sc_out c ?k))" using queue by simp
        note IH = less.hyps[OF this run io2(2,3)]
        from IH have "same_rx io io1" using same_rx_trans io2(4) by blast
        moreover have "\<exists>q. c1 = upd_out ?k (\<lambda>_. q) c" using IH by auto
        moreover have "prefix (out_stream io2) (out_stream io1)" using IH by blast
        then have "prefix (out_stream io) (out_stream io1)" using io2(1) append_prefixD by metis
        moreover have up: "body_upto (ch_queue (sc_out c ?k)) = chunk @ body_upto (ch_queue (sc_out ?c ?k))"
          "ends_once (ch_queue (sc_out c ?k)) = ends_once (ch_queue (sc_out ?c ?k))" using queue False by simp_all
        ultimately show ?thesis using IH unfolding up io2(1) append_assoc by blast
      qed
    next
      case (Err e)
      with step have "r = Err e" "io1 = io2" "c1 = ?c" by (simp_all add: send_body_loop.simps[of w reg b io c] Let_def)
      moreover from this idle(9) Err have "prefix (out_stream io2) (out_stream io @ chunk)" by blast
      then have "prefix (out_stream io2) (out_stream io @ chunk @ x)" for x by (metis append.assoc prefix_prefix)
      ultimately show ?thesis using idle same queue by simp
    next
      case Pending
      with step idle(1) have "r = Pending" "io1 = io2" "c1 = ?c" by (simp_all add: send_body_loop.simps[of w reg b io c] Let_def)
      moreover have "out_stream io2 = out_stream io @ chunk" "bi_pending_tx io2" using idle(6,7) Pending by auto
      ultimately show ?thesis using idle(2,3) same queue by (cases eob) simp_all
    next
      case (Panic p)
      with idle(4) show ?thesis by blast
    qed
  next
    case (Closed q)
    with less.prems have "r = Err (IoError OtherKind ''Unexpected end of body'')" "io1 = io" "c1 = upd_out ?k (\<lambda>_. q) c"
      by (simp_all add: send_body_loop.simps[of w reg b io c] Let_def)
    with less.prems(2) Closed(2) show ?thesis by auto
  next
    case (Waiting q)
    with less.prems have "r = Pending" "io1 = io" "c1 = upd_out ?k (\<lambda>_. q) c" by (simp_all add: send_body_loop.simps[of w reg b io c])
    with less.prems(2) Waiting show ?thesis by auto
  qed
qed

section \<open>The next request\<close>

lemma poll_next_req_cases:
  assumes "poll_next_req api (io, c) = (r, io1, c1)"
  obtains (Request) req where "poll_for_crlfcrlf (try_parse_req api) io = (Ok (Inr (Some req)), io1)"
      "new_request req (io1, c) = (r, io1, c1)"
  | (Hangup) q where "poll_for_crlfcrlf (try_parse_req api) io = (q, io1)" "\<forall>p. q \<noteq> Panic p" "r = Ok (None, Closed)" "c1 = drive_drop c"
  | (Failed) q e where "poll_for_crlfcrlf (try_parse_req api) io = (q, io1)" "\<forall>p. q \<noteq> Panic p" "r = Err e" "c1 = drive_drop c"
  | (Waiting) "poll_for_crlfcrlf (try_parse_req api) io = (Pending, io1)" "r = Pending" "c1 = drive_drop c"
  | (Panicked) p where "poll_for_crlfcrlf (try_parse_req api) io = (Panic p, io1)" "r = Panic p"
proof -
  obtain q io2 where q: "poll_for_crlfcrlf (try_parse_req api) io = (q, io2)" by fastforce
  have no: thesis if "no_request e (io2, c) = (r, io1, c1)" "\<forall>p. q \<noteq> Panic p" for e
    using that q Hangup Failed by (auto simp: no_request_def split: if_splits)
  show ?thesis
  proof (cases q)
    case (Ok a)
    show ?thesis
    proof (cases a)
      case (Inl e)
      with assms q Ok no show ?thesis by (simp add: poll_next_req_def)
    next
      case (Inr x)
      show ?thesis
      proof (cases x)
        case None
        with assms q Ok Inr Failed[of q] show ?thesis by (auto simp: poll_next_req_def)
      next
        case (Some req)
        then have n: "new_request req (io2, c) = (r, io1, c1)" using assms q Ok Inr by (simp add: poll_next_req_def)
        then have "io1 = io2" by (auto simp: new_request_def Let_def)
        with n q Ok Inr Some Request show ?thesis by simp
      qed
    qed
  qed (use assms q no Waiting Panicked in \<open>auto simp: poll_next_req_def\<close>)
qed

lemma request_limit [simp]: "server_limit_ok (lr_from_headers hs False)"
  by (auto simp: server_limit_ok_def lr_is_read_to_end_def lr_from_headers_def limit_ok_def split: option.splits)

lemma new_request_spec:
  assumes "new_request req (io, c) = (r, io1, c1)"
  obtains b where "r = Ok (Some ((req, recv_stream_new (sbi_tx_body b = None), sc_fresh c),
        \<lparr>sr_tx_res = sc_fresh c, sr_req_expects_no_body = (req_method req = ''HEAD'')\<rparr>), SendRes b)"
    "io1 = io" "exchange_ok b" "sbi_holder b = None" "sbi_rx_res b = Some (sc_fresh c)"
    "sbi_limit b = lr_from_headers (req_headers req) False" "sbi_request_allows_reuse b = allow_reuse (req_headers req) (req_version req)"
    "sbi_tx_body b = (if lr_is_no_body (sbi_limit b) then None else Some (sc_fresh c))"
    "sc_out c1 = sc_out c" "sc_fresh c1 = Suc (sc_fresh c)" "sc_drives c1 = Suc (sc_drives c)" "sc_ext c1 = sender_clone (sc_ext c)"
    "sc_res c1 = (sc_res c)(sc_fresh c := receiver_new 1)"
    "sc_in c1 = (sc_in c)(sc_fresh c := if sbi_tx_body b = None then sender_drop (receiver_new 1) else receiver_new 1)"
  using assms that by (fastforce simp: new_request_def Let_def exchange_ok_def)

section \<open>One round of the connection\<close>

text \<open>\<open>Ok None\<close> goes on with the next state, \<open>Ok (Some p)\<close> returns \<open>p\<close>.\<close>

definition lift_io :: "unit res \<Rightarrow> 'a res" where
  "lift_io r = (case r of Err e \<Rightarrow> Err e | Panic p \<Rightarrow> Panic p | _ \<Rightarrow> Pending)"

definition server_round :: "http_api \<Rightarrow> waker \<Rightarrow> bool \<Rightarrow> bool \<Rightarrow> server \<Rightarrow> package option option res \<times> server" where
  "server_round api w want reg self =
     (case poll_finish_pending_write (sv_io self) of
        (Ok _, io) \<Rightarrow>
          (case sv_state self of
             RecvReq \<Rightarrow>
               if want then
                 (case poll_next_req api (io, sv_chans self) of (q, io1, c) \<Rightarrow>
                   (map_res (\<lambda>(p, _). Some p) q,
                    \<lparr>sv_io = io1, sv_state = (case q of Ok (_, st) \<Rightarrow> st | _ \<Rightarrow> RecvReq), sv_chans = c\<rparr>))
               else (Ok (Some None), self\<lparr>sv_io := io\<rparr>)
           | SendRes b \<Rightarrow>
               (case sv_poll_bidirect w reg (b, io, sv_chans self) of (q, b1, io1, c) \<Rightarrow>
                 (map_res (\<lambda>_. None) q,
                  \<lparr>sv_io = io1, sv_state = (case q of Ok st \<Rightarrow> st | _ \<Rightarrow> SendRes b1),
                   sv_chans = (case q of Ok _ \<Rightarrow> drop_server_state (SendRes b1) c | _ \<Rightarrow> drop_want want c)\<rparr>))
           | SendBody b \<Rightarrow>
               (case send_body_loop w reg b (io, sv_chans self) of (q, io1, c) \<Rightarrow>
                 (map_res (\<lambda>_. None) q,
                  \<lparr>sv_io = io1, sv_state = (case q of Ok st \<Rightarrow> st | _ \<Rightarrow> SendBody b),
                   sv_chans = (case q of Ok _ \<Rightarrow> drop_server_state (SendBody b) c | _ \<Rightarrow> drop_want want c)\<rparr>))
           | Closed \<Rightarrow> (Ok (Some None), self\<lparr>sv_io := io, sv_chans := drop_want want (sv_chans self)\<rparr>))
      | (r, io) \<Rightarrow> (lift_io r, self\<lparr>sv_io := io, sv_chans := drop_want want (sv_chans self)\<rparr>))"

lemma sv_drive_round:
  "sv_drive api w want reg self =
     ready (server_round api w want reg self) (\<lambda>x s1. case x of None \<Rightarrow> sv_drive api w want reg s1 | Some p \<Rightarrow> (Ok p, s1))"
  by (subst sv_drive.simps) (auto simp: server_round_def lift_io_def split: res.splits prod.splits server_state.splits)

lemma server_round_rank:
  "server_round api w want reg self = (Ok None, self1) \<Longrightarrow> server_rank (sv_state self1) < server_rank (sv_state self)"
  by (auto simp: server_round_def lift_io_def dest: sv_poll_bidirect_rank send_body_loop_rank
      split: res.splits prod.splits server_state.splits if_splits)

lemma sv_drive_rule:
  assumes "sv_drive api w want reg self = (r, self')" "I self"
    and "\<And>s s1. I s \<Longrightarrow> server_round api w want reg s = (Ok None, s1) \<Longrightarrow> I s1"
    and "\<And>s s1 p. I s \<Longrightarrow> server_round api w want reg s = (Ok (Some p), s1) \<Longrightarrow> Q (Ok p) s1"
    and "\<And>s s1 e. I s \<Longrightarrow> server_round api w want reg s = (Err e, s1) \<Longrightarrow> Q (Err e) s1"
    and "\<And>s s1. I s \<Longrightarrow> server_round api w want reg s = (Pending, s1) \<Longrightarrow> Q Pending s1"
    and "\<And>s s1 p. I s \<Longrightarrow> server_round api w want reg s = (Panic p, s1) \<Longrightarrow> Q (Panic p) s1"
  shows "Q r self'"
  using assms(1,2)
proof (induction self rule: measure_induct_rule[where f = "\<lambda>s. server_rank (sv_state s)"])
  case (less s)
  obtain q s1 where q: "server_round api w want reg s = (q, s1)" by fastforce
  note run = less.prems(1)[unfolded sv_drive_round[of api w want reg s] q]
  show ?case
  proof (cases q)
    case (Ok x)
    show ?thesis
    proof (cases x)
      case None
      with run Ok less.IH[OF server_round_rank] q assms(3)[OF less.prems(2)] show ?thesis by simp
    next
      case (Some p)
      with run Ok q assms(4) less.prems(2) show ?thesis by auto
    qed
  qed (use run q assms(5-7) less.prems(2) in auto)
qed

end
