(* ===== verification/Server_Drive.thy ===== *)
theory Server_Drive
  imports Server_Proofs
begin

text \<open>
  What one call of \<^verbatim>\<open>drive\<close> does, proved round by round and carried through the loop by
  \<open>sv_drive_rule\<close>: the invariant and the count of the handles, what a pending call waits for, the
  order of what is written, and the body that is passed on.
\<close>

section \<open>The rounds\<close>

lemma map_res_iff [simp]:
  "map_res f r = Ok y \<longleftrightarrow> (\<exists>x. r = Ok x \<and> y = f x)" "map_res f r = Err e \<longleftrightarrow> r = Err e"
  "map_res f r = Pending \<longleftrightarrow> r = Pending" "map_res f r = Panic p \<longleftrightarrow> r = Panic p"
  by (cases r; auto)+

lemma lift_io_iff [simp]:
  "lift_io r \<noteq> Ok x" "lift_io r = Err e \<longleftrightarrow> r = Err e" "lift_io r = Panic p \<longleftrightarrow> r = Panic p"
  by (cases r; simp add: lift_io_def)+

lemma server_round_cases:
  assumes "server_round api w want reg self = (r, self1)"
  obtains (Write) q io where "poll_finish_pending_write (sv_io self) = (q, io)" "q \<noteq> Ok ()" "r = lift_io q"
      "self1 = self\<lparr>sv_io := io, sv_chans := drop_want want (sv_chans self)\<rparr>"
  | (Idle) io where "poll_finish_pending_write (sv_io self) = (Ok (), io)" "sv_state self = RecvReq" "\<not> want"
      "r = Ok (Some None)" "self1 = self\<lparr>sv_io := io\<rparr>"
  | (Receive) io q io1 c where "poll_finish_pending_write (sv_io self) = (Ok (), io)" "sv_state self = RecvReq" "want"
      "poll_next_req api (io, sv_chans self) = (q, io1, c)" "r = map_res (\<lambda>(p, _). Some p) q"
      "self1 = \<lparr>sv_io = io1, sv_state = (case q of Ok (_, st) \<Rightarrow> st | _ \<Rightarrow> RecvReq), sv_chans = c\<rparr>"
  | (Exchange) io b q b1 io1 c where "poll_finish_pending_write (sv_io self) = (Ok (), io)" "sv_state self = SendRes b"
      "sv_poll_bidirect w reg (b, io, sv_chans self) = (q, b1, io1, c)" "r = map_res (\<lambda>_. None) q"
      "self1 = \<lparr>sv_io = io1, sv_state = (case q of Ok st \<Rightarrow> st | _ \<Rightarrow> SendRes b1),
         sv_chans = (case q of Ok _ \<Rightarrow> drop_server_state (SendRes b1) c | _ \<Rightarrow> drop_want want c)\<rparr>"
  | (Body) io b q io1 c where "poll_finish_pending_write (sv_io self) = (Ok (), io)" "sv_state self = SendBody b"
      "send_body_loop w reg b (io, sv_chans self) = (q, io1, c)" "r = map_res (\<lambda>_. None) q"
      "self1 = \<lparr>sv_io = io1, sv_state = (case q of Ok st \<Rightarrow> st | _ \<Rightarrow> SendBody b),
         sv_chans = (case q of Ok _ \<Rightarrow> drop_server_state (SendBody b) c | _ \<Rightarrow> drop_want want c)\<rparr>"
  | (End) io where "poll_finish_pending_write (sv_io self) = (Ok (), io)" "sv_state self = Closed"
      "r = Ok (Some None)" "self1 = self\<lparr>sv_io := io, sv_chans := drop_want want (sv_chans self)\<rparr>"
proof -
  obtain q io where q: "poll_finish_pending_write (sv_io self) = (q, io)" by fastforce
  show ?thesis
  proof (cases "q = Ok ()")
    case False
    with assms q Write show ?thesis by (cases q) (auto simp: server_round_def)
  next
    case True
    show ?thesis
    proof (cases "sv_state self")
      case RecvReq
      obtain q1 io1 c where "poll_next_req api (io, sv_chans self) = (q1, io1, c)" by (metis prod_cases3)
      with assms q True RecvReq Idle Receive show ?thesis by (cases want) (auto simp: server_round_def)
    next
      case (SendRes b)
      obtain q1 b1 io1 c where "sv_poll_bidirect w reg (b, io, sv_chans self) = (q1, b1, io1, c)" by (metis prod_cases4)
      with assms q True SendRes Exchange show ?thesis by (auto simp: server_round_def)
    next
      case (SendBody b)
      obtain q1 io1 c where "send_body_loop w reg b (io, sv_chans self) = (q1, io1, c)" by (metis prod_cases3)
      with assms q True SendBody Body show ?thesis by (auto simp: server_round_def)
    next
      case Closed
      with assms q True End show ?thesis by (auto simp: server_round_def)
    qed
  qed
qed

text \<open>An exchange that is over has given up all its ends but the receiver of the body it goes on with.\<close>

definition exchange_over :: "exchange \<Rightarrow> bool" where
  "exchange_over s \<longleftrightarrow> exchange_inv s \<and> \<not> rx_res_waits s \<and> \<not> tx_body_waits s"

lemma after_exchange_cases:
  assumes "exchange_over (b, io, c)" "after_exchange (b, io, c) = (r, b1, io1, c1)"
  obtains no_body limit k where "sbi_holder b = Some (no_body, limit, k)" "b1 = b\<lparr>sbi_holder := None\<rparr>" "io1 = io"
    "drop_server_state (SendRes b1) c1 = c1"
    "r = Ok (if no_body \<or> lw_is_no_body limit then if sbi_request_allows_reuse b then RecvReq else Closed
       else SendBody \<lparr>bs_request_allows_reuse = sbi_request_allows_reuse b, bs_rx_body = k\<rparr>)"
    "c1 = (if no_body \<or> lw_is_no_body limit then upd_out k receiver_drop c else c)"
proof -
  have none: "sbi_rx_res b = None" "sbi_tx_body b = None" "sbi_holder b \<noteq> None"
    using assms(1) by (auto simp: exchange_over_def exchange_inv_def exchange_ok_def rx_res_waits_def tx_body_waits_def)
  then obtain no_body limit k where "sbi_holder b = Some (no_body, limit, k)" by auto
  with assms(2) none that[of no_body limit k] show ?thesis
    by (auto simp: after_exchange_def Let_def drop_server_state_def split: if_splits)
qed

lemma sv_poll_bidirect_cases:
  assumes "exchange_inv (b, io, c)" "sv_poll_bidirect w reg (b, io, c) = (r, b1, io1, c1)"
  obtains (Over) b2 c2 where "sv_bidirect_loop w reg (b, io, c) = (Ok (), b2, io1, c2)" "exchange_over (b2, io1, c2)"
      "after_exchange (b2, io1, c2) = (r, b1, io1, c1)"
  | (Stopped) q where "sv_bidirect_loop w reg (b, io, c) = (q, b1, io1, c1)" "q \<noteq> Ok ()"
      "r = (case q of Err e \<Rightarrow> Err e | Panic p \<Rightarrow> Panic p | _ \<Rightarrow> Pending)"
proof -
  obtain q b2 io2 c2 where q: "sv_bidirect_loop w reg (b, io, c) = (q, b2, io2, c2)" by (metis prod_cases4)
  show ?thesis
  proof (cases "q = Ok ()")
    case True
    have over: "exchange_over (b2, io2, c2)" using sv_bidirect_loop_post[OF assms(1) q] True by (simp add: exchange_over_def)
    have after: "after_exchange (b2, io2, c2) = (r, b1, io1, c1)" using assms(2) q True by (simp add: sv_poll_bidirect_def)
    then have "io1 = io2" using after_exchange_cases[OF over after] by metis
    with Over q True over after show ?thesis by simp
  next
    case False
    with assms(2) q Stopped show ?thesis by (cases q) (auto simp: sv_poll_bidirect_def)
  qed
qed

section \<open>The invariant\<close>

text \<open>What a call with a registration waits for: the transport, or the channel its state needs.\<close>

definition server_waiting :: "waker \<Rightarrow> bool \<Rightarrow> server \<Rightarrow> bool" where
  "server_waiting w reg self \<longleftrightarrow> bi_pending_tx (sv_io self) \<or> (case sv_state self of
      RecvReq \<Rightarrow> bi_pending_rx (sv_io self)
    | SendRes b \<Rightarrow> exchange_waiting w reg (b, sv_io self, sv_chans self)
    | SendBody b \<Rightarrow> \<not> reg \<or> w \<in> set (ch_wakers (sc_out (sv_chans self) (bs_rx_body b)))
    | Closed \<Rightarrow> False)"

lemma exchange_waiting_drop [simp]: "exchange_waiting w reg (b, io, drop_want want c) = exchange_waiting w reg (b, io, c)"
  by (auto simp: exchange_waiting_def body_asked_def drop_want_def split: option.split)

text \<open>The handle to drive the connection that comes with a call is passed on with a request, or dropped.\<close>

definition drives_after :: "bool \<Rightarrow> package option res \<Rightarrow> nat \<Rightarrow> nat" where
  "drives_after want r n = (case r of Ok (Some _) \<Rightarrow> Suc n | _ \<Rightarrow> if want then n - 1 else n)"

text \<open>No channel of a response gets longer; a new one is empty.\<close>

definition responses_taken :: "server_chans \<Rightarrow> server_chans \<Rightarrow> bool" where
  "responses_taken c c1 \<longleftrightarrow> sc_fresh c \<le> sc_fresh c1 \<and>
     (\<forall>j. suffix (ch_queue (sc_res c1 j)) (ch_queue (sc_res c j)))"

lemma responses_taken_refl [simp]: "responses_taken c c" by (simp add: responses_taken_def)

lemma responses_taken_trans: "responses_taken a b \<Longrightarrow> responses_taken b c \<Longrightarrow> responses_taken a c"
  unfolding responses_taken_def using suffix_order.order_trans le_trans by blast

lemma same_drives_taken: "same_drives c c1 \<Longrightarrow> responses_taken c c1"
  by (simp add: same_drives_def responses_taken_def)

definition server_post :: "waker \<Rightarrow> bool \<Rightarrow> bool \<Rightarrow> server_chans \<Rightarrow> package option res \<Rightarrow> server \<Rightarrow> bool" where
  "server_post w reg want c r self1 \<longleftrightarrow>
     (\<forall>p. r = Panic p \<longrightarrow> server_panic p)
     \<and> ((\<forall>p. r \<noteq> Panic p) \<longrightarrow> tx_ok (sv_io self1) \<and> responses_taken c (sv_chans self1)
          \<and> (\<forall>n. drives_are n c \<longrightarrow> drives_are (drives_after want r n) (sv_chans self1)))
     \<and> ((\<exists>x. r = Ok x) \<or> r = Pending \<longrightarrow> server_ok self1)
     \<and> (r = Pending \<longrightarrow> server_waiting w reg self1)"

lemma same_drives_want:
  assumes "same_drives c c1" "\<And>x. r \<noteq> Ok (Some x)"
  shows "responses_taken c (drop_want want c1)"
    "drives_are n c \<Longrightarrow> drives_are (drives_after want r n) (drop_want want c1)"
  using assms
  by (auto simp: drop_want_def drives_after_def responses_taken_def same_drives_def drives_are_def sender_drop_frame
      split: res.split option.split)

lemma new_request_drives:
  assumes "sc_drives c1 = Suc (sc_drives c)" "sc_ext c1 = sender_clone (sc_ext c)" "drives_are n c"
  shows "drives_are (Suc n) c1"
  using assms by (simp add: drives_are_def sender_clone_def)

lemma no_request_drives: "drives_are n c \<Longrightarrow> drives_are (n - 1) (drive_drop c)" "responses_taken c (drive_drop c)"
  by (simp_all add: drives_are_def sender_drop_frame responses_taken_def)

lemma poll_next_req_post:
  assumes "poll_next_req api (io, c) = (q, io1, c1)" "rx_ok io" "tx_ok io"
  shows "(\<forall>p. q = Panic p \<longrightarrow> server_panic p) \<and> (\<forall>p st. q = Ok (p, st) \<longrightarrow> server_ok \<lparr>sv_io = io1, sv_state = st, sv_chans = c1\<rparr>)
    \<and> (q = Pending \<longrightarrow> rx_ok io1 \<and> bi_pending_rx io1)
    \<and> ((\<forall>p. q \<noteq> Panic p) \<longrightarrow> tx_ok io1 \<and> same_tx io io1 \<and> responses_taken c c1
       \<and> (\<forall>n. drives_are n c \<longrightarrow> drives_are (case q of Ok (Some _, _) \<Rightarrow> Suc n | _ \<Rightarrow> n - 1) c1))"
  using assms(1)
proof (cases rule: poll_next_req_cases)
  case (Request req)
  note safe = poll_for_crlfcrlf_safe[OF assms(2) Request(1)]
  from Request(2) obtain b where b: "q = Ok (Some ((req, recv_stream_new (sbi_tx_body b = None), sc_fresh c),
        \<lparr>sr_tx_res = sc_fresh c, sr_req_expects_no_body = (req_method req = ''HEAD'')\<rparr>), SendRes b)"
    "exchange_ok b" "sc_fresh c1 = Suc (sc_fresh c)" "sc_drives c1 = Suc (sc_drives c)" "sc_ext c1 = sender_clone (sc_ext c)"
    "sc_res c1 = (sc_res c)(sc_fresh c := receiver_new 1)"
    by (rule new_request_spec)
  have "responses_taken c c1" unfolding responses_taken_def using b(3,6) by (simp add: receiver_new_def)
  moreover have "tx_ok io1" "rx_ok io1" "same_tx io io1" using safe(2) same_tx_ok(1)[of io io1] assms(3) by auto
  ultimately show ?thesis using b new_request_drives[OF b(4,5)] by (auto simp: server_ok_def server_state_ok_def)
next
  case (Hangup r)
  with poll_for_crlfcrlf_safe(2)[OF assms(2) Hangup(1)] same_tx_ok(1)[of io io1] assms(3) no_request_drives
  show ?thesis by (auto simp: server_ok_def server_state_ok_def)
next
  case (Failed r e)
  with poll_for_crlfcrlf_safe(2)[OF assms(2) Failed(1)] same_tx_ok(1)[of io io1] assms(3) no_request_drives
  show ?thesis by auto
next
  case Waiting
  with poll_for_crlfcrlf_safe(2,3)[OF assms(2) Waiting(1)] same_tx_ok(1)[of io io1] assms(3) no_request_drives
  show ?thesis by auto
next
  case (Panicked p)
  with poll_for_crlfcrlf_safe(1)[OF assms(2) Panicked(1)] show ?thesis by (auto simp: server_panic_def)
qed

lemma exchange_round_ext:
  assumes "exchange_over (b, io, c)" "after_exchange (b, io, c) = (r, b1, io1, c1)"
  shows "r = Ok st \<Longrightarrow> server_ok \<lparr>sv_io = io1, sv_state = st, sv_chans = drop_server_state (SendRes b1) c1\<rparr>"
    "same_drives c c1" "drop_server_state (SendRes b1) c1 = c1" "\<exists>st. r = Ok st" "io1 = io" "tx_ok io1"
proof -
  have io: "tx_ok io" "rx_ok io" using assms(1) by (auto simp: exchange_over_def exchange_inv_def)
  from assms obtain no_body limit k where a: "io1 = io" "drop_server_state (SendRes b1) c1 = c1"
    "r = Ok (if no_body \<or> lw_is_no_body limit then if sbi_request_allows_reuse b then RecvReq else Closed
       else SendBody \<lparr>bs_request_allows_reuse = sbi_request_allows_reuse b, bs_rx_body = k\<rparr>)"
    "c1 = (if no_body \<or> lw_is_no_body limit then upd_out k receiver_drop c else c)"
    by (rule after_exchange_cases)
  show "r = Ok st \<Longrightarrow> server_ok \<lparr>sv_io = io1, sv_state = st, sv_chans = drop_server_state (SendRes b1) c1\<rparr>"
    using a io by (auto simp: server_ok_def server_state_ok_def split: if_splits)
  show "same_drives c c1" using a(4) by (simp add: same_drives_def)
  show "drop_server_state (SendRes b1) c1 = c1" "\<exists>st. r = Ok st" "io1 = io" "tx_ok io1" using a io by auto
qed

lemma server_round_post:
  assumes "server_ok self" "server_round api w want reg self = (r, self1)"
  shows "r = Ok None \<Longrightarrow> server_ok self1 \<and> same_drives (sv_chans self) (sv_chans self1)"
    "r \<noteq> Ok None \<Longrightarrow> server_post w reg want (sv_chans self)
       (case r of Ok (Some p) \<Rightarrow> Ok p | Ok None \<Rightarrow> Ok None | Err e \<Rightarrow> Err e | Pending \<Rightarrow> Pending | Panic p \<Rightarrow> Panic p) self1"
proof -
  let ?c = "sv_chans self"
  have tx: "tx_ok (sv_io self)" and st: "server_state_ok (sv_state self)" and rx: "sv_state self \<noteq> Closed \<Longrightarrow> rx_ok (sv_io self)"
    using assms(1) by (auto simp: server_ok_def)
  note fin = poll_finish_pending_write_spec[OF tx] and want = same_drives_want[where want = want]
  have "(r = Ok None \<longrightarrow> server_ok self1 \<and> same_drives ?c (sv_chans self1))
    \<and> (r \<noteq> Ok None \<longrightarrow> server_post w reg want ?c
       (case r of Ok (Some p) \<Rightarrow> Ok p | Ok None \<Rightarrow> Ok None | Err e \<Rightarrow> Err e | Pending \<Rightarrow> Pending | Panic p \<Rightarrow> Panic p) self1)"
    using assms(2)
  proof (cases rule: server_round_cases)
    case (Write q io)
    then have nr: "\<And>x. r \<noteq> Ok x" "\<forall>p. r \<noteq> Panic p" "r = Pending \<Longrightarrow> q = Pending" using fin[OF Write(1)] by (cases q; simp add: lift_io_def)+
    have io: "tx_ok io" "same_rx (sv_io self) io" using fin[OF Write(1)] by auto
    then have "server_ok self1" using Write(4) st rx same_rx_ok(1)[OF io(2)] by (auto simp: server_ok_def)
    moreover have "r = Pending \<Longrightarrow> bi_pending_tx io" using nr(3) Write(1) poll_finish_waits by blast
    ultimately show ?thesis using nr io Write(4) want[OF same_drives_refl[of ?c]]
      by (cases r) (auto simp: server_post_def server_waiting_def)
  next
    case (Idle io)
    then show ?thesis using fin[OF Idle(1)] st rx same_rx_ok(1)[of "sv_io self" io]
      by (auto simp: server_post_def server_ok_def drives_after_def responses_taken_def)
  next
    case (Receive io q io1 c)
    have io: "tx_ok io" "rx_ok io" using fin[OF Receive(1)] rx same_rx_ok(1)[of "sv_io self" io] Receive(2) by auto
    note post = poll_next_req_post[OF Receive(4) io(2,1)]
    show ?thesis
    proof (cases q)
      case (Ok x)
      obtain p s where x: "x = (p, s)" by fastforce
      have "r = Ok (Some p)" using Receive(5) Ok x by simp
      with post Ok x Receive(3,6) show ?thesis
        by (cases p) (auto simp: server_post_def drives_after_def server_ok_def)
    qed (use post Receive(3,5,6) in \<open>auto simp: server_post_def drives_after_def server_ok_def server_state_ok_def server_waiting_def\<close>)
  next
    case (Exchange io b q b1 io1 c)
    have inv: "exchange_inv (b, io, ?c)"
      using fin[OF Exchange(1)] rx st same_rx_ok(1)[of "sv_io self" io] Exchange(2) by (auto simp: exchange_inv_def server_state_ok_def)
    from inv Exchange(3) show ?thesis
    proof (cases rule: sv_poll_bidirect_cases)
      case (Over b2 c2)
      note ext = exchange_round_ext[OF Over(2,3)]
      have "same_drives ?c c2" using sv_bidirect_loop_post[OF inv Over(1)] by simp
      then have "same_drives ?c c" using ext(2) same_drives_trans by blast
      moreover obtain s where "q = Ok s" using ext(4) by blast
      ultimately show ?thesis using Exchange(4,5) ext(1,3) by auto
    next
      case (Stopped x)
      note loop = sv_bidirect_loop_post[OF inv Stopped(1)]
      have q: "q = (case x of Err e \<Rightarrow> Err e | Panic p \<Rightarrow> Panic p | _ \<Rightarrow> Pending)" "x \<noteq> Ok ()" using Stopped by auto
      show ?thesis
      proof (cases x)
        case Pending
        with loop q Exchange(4,5) want[of ?c c "Pending"] show ?thesis
          by (auto simp: server_post_def exchange_post_def server_ok_def server_state_ok_def server_waiting_def)
      next
        case (Err e)
        with loop q Exchange(4,5) want[of ?c c "Err e"] show ?thesis by (auto simp: server_post_def exchange_post_def)
      next
        case (Panic p)
        with loop q Exchange(4,5) show ?thesis by (auto simp: server_post_def exchange_post_def)
      qed (use q in auto)
    qed
  next
    case (Body io b q io1 c)
    have io: "tx_ok io" "rx_ok io" "can_poll_write io" using fin[OF Body(1)] rx same_rx_ok(1)[of "sv_io self" io] Body(2) by auto
    note spec = send_body_loop_spec[OF Body(3) io(1,3)]
    have rx1: "rx_ok io1" "tx_ok io1" "\<forall>p. q \<noteq> Panic p" using spec same_rx_ok(1)[of io io1] io(2) by auto
    have drives: "same_drives ?c c" using spec by (auto simp: same_drives_def)
    show ?thesis
    proof (cases q)
      case (Ok s)
      then have "s = (if bs_request_allows_reuse b then RecvReq else Closed)" using spec by auto
      moreover have "same_drives c (drop_server_state (SendBody b) c)" by (simp add: same_drives_def drop_server_state_def)
      ultimately show ?thesis using Body(4,5) Ok rx1 drives same_drives_trans by (auto simp: server_ok_def server_state_ok_def)
    next
      case Pending
      with spec rx1 Body(4,5) want[OF drives, of "Pending"] show ?thesis
        by (auto simp: server_post_def server_ok_def server_state_ok_def server_waiting_def drop_want_def)
    next
      case (Err e)
      with rx1 Body(4,5) want[OF drives, of "Err e"] show ?thesis by (auto simp: server_post_def)
    qed (use rx1 in auto)
  next
    case (End io)
    then show ?thesis using fin[OF End(1)] want[OF same_drives_refl[of ?c], of "Ok None"]
      by (auto simp: server_post_def server_ok_def server_state_ok_def)
  qed
  then show "r = Ok None \<Longrightarrow> server_ok self1 \<and> same_drives (sv_chans self) (sv_chans self1)"
    "r \<noteq> Ok None \<Longrightarrow> server_post w reg want (sv_chans self)
       (case r of Ok (Some p) \<Rightarrow> Ok p | Ok None \<Rightarrow> Ok None | Err e \<Rightarrow> Err e | Pending \<Rightarrow> Pending | Panic p \<Rightarrow> Panic p) self1" by auto
qed

lemma same_drives_are: "same_drives c c1 \<Longrightarrow> drives_are n c1 = drives_are n c"
  by (simp add: same_drives_def drives_are_def)

lemma same_drives_responses: "same_drives c c1 \<Longrightarrow> responses_taken c1 c2 \<Longrightarrow> responses_taken c c2"
  using responses_taken_trans same_drives_taken by blast

lemma server_post_before: "same_drives c c1 \<Longrightarrow> server_post w reg want c1 r s \<Longrightarrow> server_post w reg want c r s"
  unfolding server_post_def using same_drives_are[of c c1] same_drives_responses[of c c1] by blast

lemma sv_drive_post:
  assumes "server_ok self" "sv_drive api w want reg self = (r, self1)"
  shows "server_post w reg want (sv_chans self) r self1"
  using assms(2)
proof (rule sv_drive_rule[where I = "\<lambda>s. server_ok s \<and> same_drives (sv_chans self) (sv_chans s)"], goal_cases)
  case 1
  then show ?case using assms(1) by simp
next
  case (2 s s1)
  then show ?case using server_round_post(1)[of s api w want reg "Ok None" s1] same_drives_trans by auto
next
  case (3 s s1 p)
  then show ?case using server_round_post(2)[of s api w want reg "Ok (Some p)" s1] server_post_before by auto
next
  case (4 s s1 e)
  then show ?case using server_round_post(2)[of s api w want reg "Err e" s1] server_post_before by auto
next
  case (5 s s1)
  then show ?case using server_round_post(2)[of s api w want reg "Pending" s1] server_post_before by auto
next
  case (6 s s1 p)
  then show ?case using server_round_post(2)[of s api w want reg "Panic p" s1] server_post_before by auto
qed

lemma poll_server_drive:
  assumes "poll_server api w want reg self = (r, self1)"
  obtains self2 where "sv_drive api w want reg self = (r, self2)" "sv_io self1 = sv_io self2"
    "(\<forall>e. r \<noteq> Err e) \<longrightarrow> self1 = self2"
    "(\<exists>e. r = Err e) \<longrightarrow> self1 = self2\<lparr>sv_state := Closed, sv_chans := drop_server_state (sv_state self2) (sv_chans self2)\<rparr>"
proof -
  obtain q s where q: "sv_drive api w want reg self = (q, s)" by fastforce
  have "q = r" "sv_io self1 = sv_io s" "(\<forall>e. r \<noteq> Err e) \<longrightarrow> self1 = s"
    "(\<exists>e. r = Err e) \<longrightarrow> self1 = s\<lparr>sv_state := Closed, sv_chans := drop_server_state (sv_state s) (sv_chans s)\<rparr>"
    using assms q by (cases q; auto simp: poll_server_def)+
  with q that show ?thesis by blast
qed

lemma drop_state_drives [simp]: "same_drives c (drop_server_state st c)"
  by (auto simp: same_drives_def drop_server_state_def drop_rx_res_res split: server_state.split option.split)

lemma taken_same_drives: "responses_taken c c1 \<Longrightarrow> same_drives c1 c2 \<Longrightarrow> responses_taken c c2"
  using responses_taken_trans same_drives_taken by blast

text \<open>After an error the connection is closed, and with that well-formed again.\<close>

lemma poll_server_post:
  assumes "server_ok self" "poll_server api w want reg self = (r, self1)"
  shows "r = Panic p \<Longrightarrow> server_panic p" "(\<And>p. r \<noteq> Panic p) \<Longrightarrow> server_ok self1"
    "(\<And>p. r \<noteq> Panic p) \<Longrightarrow> responses_taken (sv_chans self) (sv_chans self1)"
    "(\<And>p. r \<noteq> Panic p) \<Longrightarrow> drives_are n (sv_chans self) \<Longrightarrow> drives_are (drives_after want r n) (sv_chans self1)"
    "r = Pending \<Longrightarrow> server_waiting w reg self1"
proof -
  obtain s where d: "sv_drive api w want reg self = (r, s)" "sv_io self1 = sv_io s" "(\<forall>e. r \<noteq> Err e) \<longrightarrow> self1 = s"
    "(\<exists>e. r = Err e) \<longrightarrow> self1 = s\<lparr>sv_state := Closed, sv_chans := drop_server_state (sv_state s) (sv_chans s)\<rparr>"
    using assms(2) by (rule poll_server_drive)
  have post: "server_post w reg want (sv_chans self) r s" using assms(1) d(1) by (rule sv_drive_post)
  have "(\<forall>p. r = Panic p \<longrightarrow> server_panic p) \<and> ((\<forall>p. r \<noteq> Panic p) \<longrightarrow> server_ok self1
      \<and> responses_taken (sv_chans self) (sv_chans self1)
      \<and> (drives_are n (sv_chans self) \<longrightarrow> drives_are (drives_after want r n) (sv_chans self1)))
    \<and> (r = Pending \<longrightarrow> server_waiting w reg self1)"
  proof (cases "\<exists>e. r = Err e")
    case True
    then have "self1 = s\<lparr>sv_state := Closed, sv_chans := drop_server_state (sv_state s) (sv_chans s)\<rparr>" using d(4) by blast
    with post True taken_same_drives[OF _ drop_state_drives] show ?thesis
      by (auto simp: server_post_def server_ok_def server_state_ok_def same_drives_are[OF drop_state_drives])
  next
    case False
    with d(3) post show ?thesis by (cases r) (auto simp: server_post_def)
  qed
  then show "r = Panic p \<Longrightarrow> server_panic p" "(\<And>p. r \<noteq> Panic p) \<Longrightarrow> server_ok self1"
    "(\<And>p. r \<noteq> Panic p) \<Longrightarrow> responses_taken (sv_chans self) (sv_chans self1)"
    "(\<And>p. r \<noteq> Panic p) \<Longrightarrow> drives_are n (sv_chans self) \<Longrightarrow> drives_are (drives_after want r n) (sv_chans self1)"
    "r = Pending \<Longrightarrow> server_waiting w reg self1" by auto
qed

end
