(* ===== verification/Server_Answer.thy ===== *)
theory Server_Answer
  imports Server_Drive
begin

text \<open>
  The answers of the server: what is still to be written of the response to the request in
  progress, and that driving the connection writes it in order, once, and nothing else.
\<close>

section \<open>What is still to be written\<close>

text \<open>The head of the response, when the user has sent it and it is not written, and the pieces of its body.\<close>

type_synonym answer = "bytes \<times> (bytes \<times> bool) list"

definition answer_bytes :: "answer \<Rightarrow> bytes" where
  "answer_bytes a = fst a @ body_upto (snd a)"

definition exchange_answer :: "server_bidirect \<Rightarrow> server_chans \<Rightarrow> answer" where
  "exchange_answer b c = (case sbi_rx_res b of
      Some j \<Rightarrow> (case ch_queue (sc_res c j) of
          [] \<Rightarrow> ([], [])
        | (res, no_body, k) # _ \<Rightarrow>
            (response_head res,
             if no_body \<or> lw_is_no_body (lw_from_headers (res_headers res)) then [] else ch_queue (sc_out c k)))
    | None \<Rightarrow> (case sbi_holder b of
          Some (no_body, limit, k) \<Rightarrow> ([], if no_body \<or> lw_is_no_body limit then [] else ch_queue (sc_out c k))
        | None \<Rightarrow> ([], [])))"

definition answer :: "server \<Rightarrow> answer" where
  "answer self = (case sv_state self of
      SendRes b \<Rightarrow> exchange_answer b (sv_chans self)
    | SendBody b \<Rightarrow> ([], ch_queue (sc_out (sv_chans self) (bs_rx_body b)))
    | _ \<Rightarrow> ([], []))"

text \<open>A handle to respond is used once.\<close>

definition one_response :: "server_chans \<Rightarrow> bool" where
  "one_response c \<longleftrightarrow> (\<forall>j. length (ch_queue (sc_res c j)) \<le> 1)"

lemma one_response_taken:
  assumes "one_response c" "responses_taken c c1"
  shows "one_response c1"
  unfolding one_response_def
proof
  fix j
  have "suffix (ch_queue (sc_res c1 j)) (ch_queue (sc_res c j))"
    using assms(2) by (auto simp: responses_taken_def)
  moreover have "length (ch_queue (sc_res c j)) \<le> 1" using assms(1) by (simp add: one_response_def)
  ultimately show "length (ch_queue (sc_res c1 j)) \<le> 1" using suffix_length_le le_trans by fastforce
qed

text \<open>
  From an output and what is to follow it to a later output and what is then to follow: what
  was written is a beginning of what was to follow, and all of it is accounted for when \<open>good\<close>.
\<close>

definition handed_over :: "bool \<Rightarrow> bytes \<times> answer \<Rightarrow> bytes \<times> answer \<Rightarrow> bool" where
  "handed_over good = (\<lambda>(out, a) (out1, a1).
     prefix out out1 \<and> prefix out1 (out @ answer_bytes a)
     \<and> (good \<longrightarrow> out1 @ answer_bytes a1 = out @ answer_bytes a))"

lemma handed_over_same: "handed_over good (out, a) (out, a)"
  by (simp add: handed_over_def)

lemma handed_over_trans:
  "handed_over True s s1 \<Longrightarrow> handed_over good s1 s2 \<Longrightarrow> handed_over good s s2"
  by (cases s, cases s1, cases s2) (auto simp: handed_over_def)

section \<open>One round\<close>

lemma poll_send_resp_sends:
  assumes "poll_send_resp w reg (b, io, c) = (r, b1, io1, c1)" "sbi_rx_res b = Some j" "tx_ok io" "can_poll_write io"
    "exchange_ok b" "one_response c" "\<forall>p. r \<noteq> Panic p"
  shows "handed_over (r = Ok () \<or> r = Pending) (out_stream io, exchange_answer b c) (out_stream io1, exchange_answer b1 c1)"
    "r = Ok () \<or> r = Pending \<Longrightarrow> snd (exchange_answer b1 c1) = snd (exchange_answer b c)"
proof -
  have holder: "sbi_holder b = None" using assms(2,5) by (cases "sbi_holder b") (auto simp: exchange_ok_def)
  have "handed_over (r = Ok () \<or> r = Pending) (out_stream io, exchange_answer b c) (out_stream io1, exchange_answer b1 c1)
    \<and> (r = Ok () \<or> r = Pending \<longrightarrow> snd (exchange_answer b1 c1) = snd (exchange_answer b c))"
    using assms(1-4)
  proof (cases rule: poll_send_resp_cases)
    case (Sent res eob k q wr)
    have queue: "ch_queue (sc_res c j) = [(res, eob, k)]" "ch_queue q = []"
      using poll_recv_Some_queue[OF Sent(1)] assms(6)[unfolded one_response_def, THEN spec, of j] by auto
    have out: "out_stream io1 = out_stream io @ response_head res"
      using poll_write_all_idle(7)[OF assms(3,4) Sent(2)] Sent(3) by blast
    have "c1 = upd_res j receiver_drop (upd_res j (\<lambda>_. q) c)" using Sent(6) holder queue(2) by (simp add: drop_rx_res_empty)
    then have "exchange_answer b c = (response_head res, snd (exchange_answer b1 c1))" "fst (exchange_answer b1 c1) = []"
      using Sent(5) queue(1) assms(2) by (simp_all add: exchange_answer_def)
    with out show ?thesis by (cases "exchange_answer b1 c1") (auto simp: handed_over_def answer_bytes_def)
  next
    case (Failed res eob k q e)
    then have "fst (exchange_answer b c) = response_head res" using poll_recv_Some_queue[OF Failed(1)] assms(2) by (simp add: exchange_answer_def)
    moreover have "prefix (out_stream io) (out_stream io1)" "prefix (out_stream io1) (out_stream io @ response_head res)"
      using Failed(3) poll_write_all_idle(8,9)[OF assms(3,4)] by auto
    ultimately show ?thesis using Failed(2) by (auto simp: handed_over_def answer_bytes_def) (metis append.assoc prefix_prefix)
  next
    case (Dropped q)
    then show ?thesis by (simp add: handed_over_def)
  next
    case (Waiting q)
    then have "exchange_answer b1 c1 = exchange_answer b c" using assms(2)
      by (simp add: exchange_answer_def split: list.split)
    with Waiting(4) show ?thesis by (simp add: handed_over_same)
  qed (use assms(7) in auto)
  then show "handed_over (r = Ok () \<or> r = Pending) (out_stream io, exchange_answer b c) (out_stream io1, exchange_answer b1 c1)"
    "r = Ok () \<or> r = Pending \<Longrightarrow> snd (exchange_answer b1 c1) = snd (exchange_answer b c)" by auto
qed

lemma exchange_answer_frame:
  assumes "sbi_rx_res b1 = sbi_rx_res b" "sbi_holder b1 = sbi_holder b" "sc_res c1 = sc_res c" "sc_out c1 = sc_out c"
  shows "exchange_answer b1 c1 = exchange_answer b c"
  unfolding exchange_answer_def assms ..

text \<open>A round polls for the response when it waits for one, and then reads when it still expects a body.\<close>

definition response_polled :: "waker \<Rightarrow> bool \<Rightarrow> exchange \<Rightarrow> unit res \<Rightarrow> exchange \<Rightarrow> bool" where
  "response_polled w reg s r s1 \<longleftrightarrow>
     (if rx_res_waits s then poll_send_resp w reg s = (r, s1) else r = Ok () \<and> s1 = s)"

lemma exchange_round_cases:
  assumes "exchange_inv s" "exchange_round w reg s = (r, s2)"
  obtains (Stops) "response_polled w reg s r s2" "r = Ok () \<Longrightarrow> \<not> tx_body_waits s2"
  | (Reads) q s1 where "response_polled w reg s q s1" "q = Ok () \<or> q = Pending" "tx_body_waits s1"
      "sv_poll_read_body w s1 = (r, s2)" "rx_ok (fst (snd s1))" "tx_ok (fst (snd s1))" "exchange_ok (fst s1)"
proof -
  obtain a s1 where a: "poll_if (rx_res_waits s) (poll_send_resp w reg) s = (a, s1)" by (metis surj_pair)
  define q where "q = (case a of Ok True \<Rightarrow> Pending | Ok False \<Rightarrow> Ok () | Err e \<Rightarrow> Err e | Panic p \<Rightarrow> Panic p | Pending \<Rightarrow> Pending)"
  have polled: "response_polled w reg s q s1" unfolding response_polled_def
    using poll_if_cases[OF a] by (cases a) (auto simp: q_def split: bool.splits)
  show ?thesis
  proof (cases "\<exists>x. a = Ok x")
    case False
    with poll_if_cases(5)[OF a] consider e where "a = Err e" | p where "a = Panic p" by (cases a) auto
    then have "r = q \<and> s2 = s1 \<and> q \<noteq> Ok ()" using assms(2) unfolding exchange_round_def a by cases (auto simp: q_def)
    with polled Stops show ?thesis by metis
  next
    case True
    then obtain x where x: "a = Ok x" by blast
    have rest: "(if x \<and> (reg \<or> \<not> tx_body_waits s1) then (Pending, s1)
        else if tx_body_waits s1 then sv_poll_read_body w s1 else (Ok (), s1)) = (r, s2)"
      using assms(2) unfolding exchange_round_def a x by simp
    show ?thesis
    proof (cases "tx_body_waits s1 \<and> \<not> (x \<and> reg)")
      case False
      then have "r = q" "s2 = s1" "q = Ok () \<Longrightarrow> \<not> tx_body_waits s1" using rest x by (auto simp: q_def split: if_splits)
      with polled Stops show ?thesis by simp
    next
      case reads: True
      then have rd: "sv_poll_read_body w s1 = (r, s2)" using rest by auto
      obtain b io c b1 io1 c1 where s: "s = (b, io, c)" "s1 = (b1, io1, c1)" by (metis prod_cases3)
      have inv: "rx_ok io" "tx_ok io" "exchange_ok b" "sbi_rx_res b \<noteq> None \<longrightarrow> can_poll_write io"
        using assms(1) s by (auto simp: exchange_inv_def)
      have "q = Ok () \<or> q = Pending" using x by (cases x) (auto simp: q_def)
      moreover have "rx_ok io1 \<and> tx_ok io1 \<and> exchange_ok b1"
      proof (cases "sbi_rx_res b")
        case None
        with polled s inv show ?thesis by (auto simp: response_polled_def rx_res_waits_def)
      next
        case (Some j)
        then have sr: "poll_send_resp w reg (b, io, c) = (q, b1, io1, c1)" using polled s by (auto simp: response_polled_def rx_res_waits_def)
        from poll_send_resp_ok[OF sr Some inv(2) _ inv(1,3)] inv Some \<open>q = Ok () \<or> q = Pending\<close> show ?thesis by auto
      qed
      ultimately show ?thesis using Reads[OF polled] reads rd s by simp
    qed
  qed
qed

lemma response_polled_sends:
  assumes "response_polled w reg (b, io, c) r (b1, io1, c1)" "exchange_inv (b, io, c)" "one_response c" "\<forall>p. r \<noteq> Panic p"
  shows "handed_over (r = Ok () \<or> r = Pending) (out_stream io, exchange_answer b c) (out_stream io1, exchange_answer b1 c1)
    \<and> (r = Ok () \<or> r = Pending \<longrightarrow> snd (exchange_answer b1 c1) = snd (exchange_answer b c))"
proof (cases "sbi_rx_res b")
  case None
  with assms(1) show ?thesis by (auto simp: response_polled_def rx_res_waits_def handed_over_same)
next
  case (Some j)
  then have sr: "poll_send_resp w reg (b, io, c) = (r, b1, io1, c1)" using assms(1) by (simp add: response_polled_def rx_res_waits_def)
  have "tx_ok io" "can_poll_write io" "exchange_ok b" using assms(2) Some by (auto simp: exchange_inv_def)
  with poll_send_resp_sends[OF sr Some] assms(3,4) show ?thesis by blast
qed

lemma exchange_round_sends:
  assumes "exchange_inv (b, io, c)" "exchange_round w reg (b, io, c) = (r, b2, io2, c2)" "one_response c" "\<forall>p. r \<noteq> Panic p"
  shows "handed_over (r = Ok () \<or> r = Pending) (out_stream io, exchange_answer b c) (out_stream io2, exchange_answer b2 c2)
    \<and> (r = Ok () \<or> r = Pending \<longrightarrow> snd (exchange_answer b2 c2) = snd (exchange_answer b c))"
  using assms(1,2)
proof (cases rule: exchange_round_cases)
  case Stops
  with response_polled_sends assms(1,3,4) show ?thesis by blast
next
  case (Reads q s1)
  obtain b1 io1 c1 where s1: "s1 = (b1, io1, c1)" by (metis prod_cases3)
  obtain i where i: "sbi_tx_body b1 = Some i" using Reads(3) s1 by (auto simp: tx_body_waits_def)
  have rd: "sv_poll_read_body w (b1, io1, c1) = (r, b2, io2, c2)" using Reads(4) s1 by simp
  have "same_tx io1 io2"
    using sv_poll_read_body_spec[OF rd i] Reads(5,7) s1 by (auto simp: exchange_ok_def)
  then have "out_stream io2 = out_stream io1" by (rule same_tx_ok(3))
  moreover have "exchange_answer b2 c2 = exchange_answer b1 c1"
    using sv_poll_read_body_frame[OF rd] by (intro exchange_answer_frame) auto
  moreover have "\<forall>p. q \<noteq> Panic p" using Reads(2) by auto
  ultimately show ?thesis using response_polled_sends[OF _ assms(1,3), of w reg q b1 io1 c1] Reads(1,2) s1
    by (auto simp: handed_over_def)
qed

lemma sv_bidirect_loop_sends:
  assumes "exchange_inv (b, io, c)" "sv_bidirect_loop w reg (b, io, c) = (r, b1, io1, c1)" "one_response c" "\<forall>p. r \<noteq> Panic p"
  shows "handed_over (r = Ok () \<or> r = Pending) (out_stream io, exchange_answer b c) (out_stream io1, exchange_answer b1 c1)
    \<and> (r = Ok () \<or> r = Pending \<longrightarrow> snd (exchange_answer b1 c1) = snd (exchange_answer b c))"
proof -
  let ?P = "\<lambda>good (b1, io1, c1). handed_over good (out_stream io, exchange_answer b c) (out_stream io1, exchange_answer b1 c1)
    \<and> (good \<longrightarrow> snd (exchange_answer b1 c1) = snd (exchange_answer b c))"
  let ?I = "\<lambda>s. exchange_inv s \<and> same_drives c (snd (snd s)) \<and> ?P True s"
  have go: "exchange_inv s1 \<and> same_drives c (snd (snd s1)) \<and> ?P True s1"
    if "?I s" "exchange_round w reg s = (Ok (), s1)" for s s1
  proof -
    obtain b1 io1 c1 b2 io2 c2 where s: "s = (b1, io1, c1)" "s1 = (b2, io2, c2)" by (metis prod_cases3)
    have "one_response c1" using that(1) s one_response_taken[OF assms(3) same_drives_taken] by auto
    with exchange_round_sends[of b1 io1 c1 w reg "Ok ()" b2 io2 c2] exchange_round_post[of b1 io1 c1 w reg "Ok ()" s1] that s
    show ?thesis by (auto intro: same_drives_trans handed_over_trans)
  qed
  have stop: "(\<forall>p. r \<noteq> Panic p) \<longrightarrow> ?P (r = Ok () \<or> r = Pending) s1"
    if "?I s" "exchange_round w reg s = (r, s1)" for s r s1
  proof -
    obtain b1 io1 c1 b2 io2 c2 where s: "s = (b1, io1, c1)" "s1 = (b2, io2, c2)" by (metis prod_cases3)
    have "one_response c1" using that(1) s one_response_taken[OF assms(3) same_drives_taken] by auto
    with exchange_round_sends[of b1 io1 c1 w reg r b2 io2 c2] that s
    show ?thesis by (auto intro: handed_over_trans)
  qed
  from assms(2) have "(\<forall>p. r \<noteq> Panic p) \<longrightarrow> ?P (r = Ok () \<or> r = Pending) (b1, io1, c1)"
  proof (rule sv_bidirect_loop_rule[where I = ?I], goal_cases)
    case 1
    then show ?case using assms(1) by (simp add: handed_over_same)
  next
    case (2 s s1)
    then show ?case using go by blast
  next
    case (3 s r s1)
    then show ?case using stop by blast
  next
    case (4 s)
    then show ?case by auto
  qed
  with assms(4) show ?thesis by simp
qed

section \<open>A call\<close>

definition progress :: "server \<Rightarrow> bytes \<times> answer" where
  "progress self = (out_stream (sv_io self), answer self)"

definition answer_ok :: "server \<Rightarrow> bool" where
  "answer_ok self \<longleftrightarrow> one_response (sv_chans self) \<and> ends_once (snd (answer self))"

lemma drop_want_answer [simp]: "exchange_answer b (drop_want want c) = exchange_answer b c" "sc_out (drop_want want c) = sc_out c"
  by (auto simp: drop_want_def intro: exchange_answer_frame)

lemma after_exchange_answer:
  assumes "exchange_over (b, io, c)" "after_exchange (b, io, c) = (Ok st, b1, io1, c1)"
  shows "answer \<lparr>sv_io = io1, sv_state = st, sv_chans = drop_server_state (SendRes b1) c1\<rparr> = exchange_answer b c"
proof -
  have none: "sbi_rx_res b = None" using assms(1) by (auto simp: exchange_over_def rx_res_waits_def)
  from assms show ?thesis
  proof (cases rule: after_exchange_cases)
    case (1 no_body limit k)
    then show ?thesis using none by (auto simp: answer_def exchange_answer_def split: if_splits)
  qed
qed

lemma server_round_sends:
  assumes "server_ok self" "answer_ok self" "server_round api w want reg self = (r, self1)" "\<forall>p. r \<noteq> Panic p"
  shows "handed_over (\<forall>e. r \<noteq> Err e) (progress self) (progress self1) \<and> (r = Ok None \<longrightarrow> ends_once (snd (answer self1)))"
proof -
  let ?c = "sv_chans self"
  have tx: "tx_ok (sv_io self)" and st: "server_state_ok (sv_state self)" and rx: "sv_state self \<noteq> Closed \<Longrightarrow> rx_ok (sv_io self)"
    using assms(1) by (auto simp: server_ok_def)
  note fin = poll_finish_pending_write_spec[OF tx]
  show ?thesis
    using assms(3)
  proof (cases rule: server_round_cases)
    case (Write q io)
    then have "answer self1 = answer self" by (auto simp: answer_def split: server_state.split)
    with fin[OF Write(1)] Write(3,4) show ?thesis by (cases q) (auto simp: progress_def handed_over_same lift_io_def)
  next
    case (Idle io)
    with fin[OF Idle(1)] show ?thesis by (auto simp: progress_def answer_def handed_over_same)
  next
    case (Receive io q io1 c)
    have io: "tx_ok io" "rx_ok io" "out_stream io = out_stream (sv_io self)"
      using fin[OF Receive(1)] rx same_rx_ok(1)[of "sv_io self" io] Receive(2) by auto
    have np: "\<forall>p. q \<noteq> Panic p" using Receive(5) assms(4) by (cases q) auto
    then have "same_tx io io1" using poll_next_req_post[OF Receive(4) io(2,1)] by blast
    then have out: "out_stream io1 = out_stream (sv_io self)" using io(3) same_tx_ok(3) by metis
    have old: "answer self = ([], [])" using Receive(2) by (simp add: answer_def)
    have "answer self1 = ([], [])"
      using Receive(4)
    proof (cases rule: poll_next_req_cases)
      case (Request req)
      from Request(2) obtain b where "\<exists>p. q = Ok (p, SendRes b)" "sbi_rx_res b = Some (sc_fresh ?c)" "sc_res c = (sc_res ?c)(sc_fresh ?c := receiver_new 1)"
        by (rule new_request_spec) blast
      with Receive(6) show ?thesis by (auto simp: answer_def exchange_answer_def receiver_new_def)
    qed (use Receive(6) np in \<open>auto simp: answer_def\<close>)
    with out old Receive(5,6) show ?thesis by (auto simp: progress_def handed_over_same)
  next
    case (Exchange io b q b1 io1 c)
    have inv: "exchange_inv (b, io, ?c)"
      using fin[OF Exchange(1)] rx st same_rx_ok(1)[of "sv_io self" io] Exchange(2) by (auto simp: exchange_inv_def server_state_ok_def)
    have one: "one_response ?c" using assms(2) by (simp add: answer_ok_def)
    have start: "progress self = (out_stream io, exchange_answer b ?c)"
      using fin[OF Exchange(1)] Exchange(2) by (simp add: progress_def answer_def)
    from inv Exchange(3) show ?thesis
    proof (cases rule: sv_poll_bidirect_cases)
      case (Over b2 c2)
      note ext = exchange_round_ext[OF Over(2,3)] and loop = sv_bidirect_loop_sends[OF inv Over(1) one]
      obtain s where s: "q = Ok s" using ext(4) by blast
      have "answer self1 = exchange_answer b2 c2" using after_exchange_answer[OF Over(2) Over(3)[unfolded s]] Exchange(5) s by simp
      moreover have "ends_once (snd (exchange_answer b ?c))" using assms(2) start by (simp add: answer_ok_def progress_def)
      ultimately show ?thesis using loop start Exchange(5) by (auto simp: progress_def handed_over_def)
    next
      case (Stopped x)
      have q: "q = (case x of Err e \<Rightarrow> Err e | Panic p \<Rightarrow> Panic p | _ \<Rightarrow> Pending)" "x \<noteq> Ok ()" using Stopped by auto
      have np: "\<forall>p. x \<noteq> Panic p" using q assms(4) Exchange(4) by (cases x) auto
      have "answer self1 = exchange_answer b1 c" "sv_io self1 = io1" using Exchange(5) q by (cases x; simp add: answer_def)+
      moreover have "(\<forall>e. r \<noteq> Err e) \<longleftrightarrow> x = Pending" "r \<noteq> Ok None" using q np Exchange(4) by (cases x; auto)+
      ultimately show ?thesis using sv_bidirect_loop_sends[OF inv Stopped(1) one np] start q(2) by (simp add: progress_def)
    qed
  next
    case (Body io b q io1 c)
    have io: "tx_ok io" "rx_ok io" "can_poll_write io" "out_stream io = out_stream (sv_io self)"
      using fin[OF Body(1)] rx same_rx_ok(1)[of "sv_io self" io] Body(2) by auto
    note spec = send_body_loop_spec[OF Body(3) io(1,3)]
    let ?q = "ch_queue (sc_out ?c (bs_rx_body b))"
    have start: "progress self = (out_stream io, [], ?q)" using io(4) Body(2) by (simp add: progress_def answer_def)
    then have once: "ends_once ?q" using assms(2) by (simp add: answer_ok_def progress_def)
    show ?thesis
    proof (cases q)
      case (Ok s)
      then have "s = (if bs_request_allows_reuse b then RecvReq else Closed)" using spec by auto
      then have "answer self1 = ([], [])" using Ok Body(5) by (simp add: answer_def)
      with spec once start Ok Body(4,5) show ?thesis by (simp add: progress_def handed_over_def answer_bytes_def)
    next
      case Pending
      with Body(5) have "answer self1 = ([], ch_queue (sc_out c (bs_rx_body b)))" by (simp add: answer_def)
      with spec once start Pending Body(4,5) show ?thesis by (simp add: progress_def handed_over_def answer_bytes_def)
    next
      case (Err e)
      with spec once start Body(4,5) show ?thesis by (simp add: progress_def handed_over_def answer_bytes_def)
    qed (use spec in blast)
  next
    case (End io)
    with fin[OF End(1)] show ?thesis by (auto simp: progress_def answer_def handed_over_same)
  qed
qed

lemma sv_drive_sends:
  assumes "server_ok self" "answer_ok self" "sv_drive api w want reg self = (r, self1)" "\<forall>p. r \<noteq> Panic p"
  shows "handed_over (\<forall>e. r \<noteq> Err e) (progress self) (progress self1)"
proof -
  let ?I = "\<lambda>s. server_ok s \<and> answer_ok s \<and> handed_over True (progress self) (progress s)"
  have go: "?I s1" if "?I s" "server_round api w want reg s = (Ok None, s1)" for s s1
    using that server_round_sends[of s api w want reg "Ok None" s1] server_round_post(1)[of s api w want reg "Ok None" s1]
      one_response_taken[OF _ same_drives_taken, of "sv_chans s" "sv_chans s1"]
    by (auto simp: answer_ok_def intro: handed_over_trans)
  have stop: "handed_over (\<forall>e. r \<noteq> Err e) (progress self) (progress s1)"
    if "?I s" "server_round api w want reg s = (r, s1)" "\<forall>p. r \<noteq> Panic p" for s s1 r
    using that server_round_sends[of s api w want reg r s1] by (auto intro: handed_over_trans)
  from assms(3) have "(\<forall>p. r \<noteq> Panic p) \<longrightarrow> handed_over (\<forall>e. r \<noteq> Err e) (progress self) (progress self1)"
  proof (rule sv_drive_rule[where I = ?I], goal_cases)
    case 1
    then show ?case using assms(1,2) by (simp add: progress_def handed_over_same)
  next
    case (2 s s1)
    then show ?case using go by blast
  qed (use stop in fastforce)+
  with assms(4) show ?thesis by simp
qed

text \<open>A failed call closes the connection, and then nothing is to follow.\<close>

lemma poll_server_sends:
  assumes "server_ok self" "answer_ok self" "poll_server api w want reg self = (r, self1)" "\<forall>p. r \<noteq> Panic p"
  shows "handed_over (\<forall>e. r \<noteq> Err e) (progress self) (progress self1)"
proof -
  obtain s where d: "sv_drive api w want reg self = (r, s)" "sv_io self1 = sv_io s" "(\<forall>e. r \<noteq> Err e) \<longrightarrow> self1 = s"
    using assms(3) by (rule poll_server_drive)
  with sv_drive_sends[OF assms(1,2) d(1) assms(4)] show ?thesis by (auto simp: progress_def handed_over_def)
qed

end
