(* ===== verification/Server_Body.thy ===== *)
theory Server_Body
  imports Server_Answer
begin

text \<open>
  The body of a request on its way through the server: from the transport through the limiter
  into the channel of its stream, and from there to the user, with everything else a
  connection does in between.
\<close>

section \<open>What is still to come for a stream\<close>

text \<open>
  For the stream \<open>i\<close>: what waits in its channel, and while the connection still holds the
  sender what the limiter has yet to deliver.
\<close>

definition body_feed :: "nat \<Rightarrow> server_bidirect \<Rightarrow> buf_io \<Rightarrow> bytes" where
  "body_feed i b io = (if sbi_tx_body b = Some i then lr_stream (sbi_limit b, io) else [])"

definition exchange_due :: "nat \<Rightarrow> exchange \<Rightarrow> bytes" where
  "exchange_due i = (\<lambda>(b, io, c). chunk_bytes (ch_queue (sc_in c i)) @ body_feed i b io)"

definition stream_open :: "recv_chan \<Rightarrow> nat \<Rightarrow> bool" where
  "stream_open q n \<longleftrightarrow> chan_open q \<and> ch_senders q = n \<and> (\<forall>m \<in> set (ch_queue q). \<exists>v. m = Inr v)"

definition exchange_fed :: "nat \<Rightarrow> exchange \<Rightarrow> bool" where
  "exchange_fed i = (\<lambda>(b, io, c). stream_open (sc_in c i) (if sbi_tx_body b = Some i then 1 else 0)
     \<and> (sbi_tx_body b = Some i \<longrightarrow> unmixed (sbi_limit b, io)))"

lemma lr_complete_nil: "lr_is_complete l \<Longrightarrow> \<not> lr_is_read_to_end l \<Longrightarrow> lr_stream (l, io) = []"
  by (auto simp: lr_is_complete_def lr_is_read_to_end_def lr_stream_def clr_is_end_def clr_left_def split: limit_read.splits)

lemma same_rx_feed:
  assumes "same_rx io io1" "server_limit_ok l"
  shows "lr_stream (l, io1) = lr_stream (l, io)" "unmixed (l, io1) = unmixed (l, io)"
  using assms(2) same_rx_ok(2)[OF assms(1)]
  by (cases l; simp add: lr_stream_def unmixed_def server_limit_ok_def lr_is_read_to_end_def)+

lemma stream_open_passed:
  assumes "chunk_passed i bs fin c c1" "stream_open (sc_in c i) 1"
  shows "stream_open (sc_in c1 i) (if fin then 0 else 1)"
    "chunk_bytes (ch_queue (sc_in c1 i)) = chunk_bytes (ch_queue (sc_in c i)) @ bs"
proof -
  have q: "ch_queue (sc_in c1 i) = ch_queue (sc_in c i) @ (if bs = [] then [] else [Inr bs])" "chan_open (sc_in c1 i)"
    "ch_senders (sc_in c1 i) = (if fin then 0 else 1)"
    using assms by (auto simp: chunk_passed_def stream_open_def)
  show "stream_open (sc_in c1 i) (if fin then 0 else 1)" using q assms(2) by (auto simp: stream_open_def)
  show "chunk_bytes (ch_queue (sc_in c1 i)) = chunk_bytes (ch_queue (sc_in c i)) @ bs"
    using q(1) assms(2) by (simp add: stream_open_def chunk_bytes_append)
qed

lemma read_body_fed:
  assumes "exchange_fed i (b, io, c)" "sv_poll_read_body w (b, io, c) = (r, b1, io1, c1)" "sbi_tx_body b = Some j"
    "rx_ok io" "server_limit_ok (sbi_limit b)"
  shows "r = Ok () \<or> r = Pending \<Longrightarrow> exchange_fed i (b1, io1, c1) \<and> exchange_due i (b1, io1, c1) = exchange_due i (b, io, c)"
    "(\<exists>e. r = Err e) \<Longrightarrow> sbi_tx_body b1 = sbi_tx_body b \<and> stream_open (sc_in c1 i) (if sbi_tx_body b = Some i then 1 else 0)
       \<and> chunk_bytes (ch_queue (sc_in c1 i)) = chunk_bytes (ch_queue (sc_in c i))"
proof -
  obtain bs where bs: "chunk_passed j bs (sbi_tx_body b1 = None) c c1"
    "r = Ok () \<or> r = Pending \<longrightarrow> server_limit_ok (sbi_limit b1) \<and> (unmixed (sbi_limit b, io) \<longrightarrow> unmixed (sbi_limit b1, io1)
       \<and> lr_stream (sbi_limit b, io) = bs @ lr_stream (sbi_limit b1, io1))"
    "r \<noteq> Ok () \<longrightarrow> bs = [] \<and> sbi_tx_body b1 = Some j"
    "r = Ok () \<longrightarrow> sbi_tx_body b1 = (if lr_is_complete (sbi_limit b1) then None else Some j)"
    using sv_poll_read_body_spec[OF assms(2,3,4,5)] by blast
  have other: "sc_in c1 i = sc_in c i" if "i \<noteq> j"
    using bs(1) that by (metis chunk_passed_def fun_upd_apply upd_simps(1))
  show "(\<exists>e. r = Err e) \<Longrightarrow> sbi_tx_body b1 = sbi_tx_body b \<and> stream_open (sc_in c1 i) (if sbi_tx_body b = Some i then 1 else 0)
       \<and> chunk_bytes (ch_queue (sc_in c1 i)) = chunk_bytes (ch_queue (sc_in c i))"
    using bs(3) other stream_open_passed[OF bs(1)] assms(1,3) by (cases "i = j") (auto simp: exchange_fed_def)
  show "exchange_fed i (b1, io1, c1) \<and> exchange_due i (b1, io1, c1) = exchange_due i (b, io, c)" if ok: "r = Ok () \<or> r = Pending"
  proof (cases "i = j")
    case False
    have "sbi_tx_body b1 \<noteq> Some i" using bs(3,4) ok False by (auto split: if_splits)
    with other False assms(1,3) show ?thesis by (simp add: exchange_fed_def exchange_due_def body_feed_def)
  next
    case True
    have un: "unmixed (sbi_limit b, io)" "stream_open (sc_in c j) 1" using assms(1,3) True by (auto simp: exchange_fed_def)
    note passed = stream_open_passed[OF bs(1) un(2)]
    have stream: "lr_stream (sbi_limit b, io) = bs @ lr_stream (sbi_limit b1, io1)" "unmixed (sbi_limit b1, io1)" using bs(2) ok un(1) by auto
    show ?thesis
    proof (cases "sbi_tx_body b1")
      case None
      then have "lr_is_complete (sbi_limit b1)" using bs(3,4) ok by (auto split: if_splits)
      then have "lr_stream (sbi_limit b1, io1) = []" using bs(2) ok by (intro lr_complete_nil) (auto simp: server_limit_ok_def)
      with passed stream None True assms(3) show ?thesis by (simp add: exchange_fed_def exchange_due_def body_feed_def)
    next
      case (Some k)
      then have "k = j" using bs(3,4) ok by (auto split: if_splits)
      with passed stream Some True assms(3) show ?thesis by (simp add: exchange_fed_def exchange_due_def body_feed_def)
    qed
  qed
qed

text \<open>
  From one exchange to a later one: nothing of the body of stream \<open>i\<close> is lost or invented; after
  an error only what waits in the channel is left.
\<close>

definition body_kept :: "nat \<Rightarrow> bool \<Rightarrow> exchange \<Rightarrow> exchange \<Rightarrow> bool" where
  "body_kept i good s s1 \<longleftrightarrow> (if good then exchange_fed i s1 \<and> exchange_due i s1 = exchange_due i s
     else (case s1 of (b, io, c) \<Rightarrow> stream_open (sc_in c i) (if sbi_tx_body b = Some i then 1 else 0)
       \<and> prefix (chunk_bytes (ch_queue (sc_in c i))) (exchange_due i s)))"

lemma body_kept_trans: "body_kept i True s s1 \<Longrightarrow> body_kept i good s1 s2 \<Longrightarrow> body_kept i good s s2"
  by (auto simp: body_kept_def)

lemma response_polled_body:
  assumes "exchange_fed i s" "response_polled w reg s r s1" "exchange_inv s" "\<forall>p. r \<noteq> Panic p"
  shows "body_kept i (r = Ok () \<or> r = Pending) s s1"
proof -
  obtain b io c b1 io1 c1 where s: "s = (b, io, c)" "s1 = (b1, io1, c1)" by (metis prod_cases3)
  show ?thesis
  proof (cases "sbi_rx_res b")
    case None
    with assms(1,2) s show ?thesis by (auto simp: response_polled_def rx_res_waits_def body_kept_def)
  next
    case (Some j)
    then have sr: "poll_send_resp w reg (b, io, c) = (r, b1, io1, c1)" using assms(2) s by (simp add: response_polled_def rx_res_waits_def)
    have inv: "rx_ok io" "tx_ok io" "exchange_ok b" "can_poll_write io" "server_limit_ok (sbi_limit b)"
      using assms(3) s Some by (auto simp: exchange_inv_def exchange_ok_def)
    note frame = poll_send_resp_frame(3,4)[OF sr] and ok = poll_send_resp_ok[OF sr Some inv(2,4,1,3)]
    have io: "same_rx io io1" "sc_in c1 = sc_in c" using ok(2,5) assms(4) by blast+
    note feed = same_rx_feed[OF io(1) inv(5)]
    from assms(1) s frame io(2) feed show ?thesis
      by (auto simp: body_kept_def exchange_fed_def exchange_due_def body_feed_def)
  qed
qed

lemma exchange_round_body:
  assumes "exchange_fed i s" "exchange_round w reg s = (r, s2)" "exchange_inv s" "\<forall>p. r \<noteq> Panic p"
  shows "body_kept i (r = Ok () \<or> r = Pending) s s2"
  using assms(3,2)
proof (cases rule: exchange_round_cases)
  case Stops
  with response_polled_body[OF assms(1)] assms(3,4) show ?thesis by blast
next
  case (Reads q s1)
  obtain b1 io1 c1 b2 io2 c2 where s: "s1 = (b1, io1, c1)" "s2 = (b2, io2, c2)" by (metis prod_cases3)
  obtain j where j: "sbi_tx_body b1 = Some j" using Reads(3) s by (auto simp: tx_body_waits_def)
  have "\<forall>p. q \<noteq> Panic p" using Reads(2) by auto
  with response_polled_body[OF assms(1) Reads(1) assms(3)] Reads(2)
  have first: "body_kept i True s s1" by simp
  then have fed: "exchange_fed i (b1, io1, c1)" using s by (simp add: body_kept_def)
  have rd: "sv_poll_read_body w (b1, io1, c1) = (r, b2, io2, c2)" using Reads(4) s by simp
  have lim: "rx_ok io1" "server_limit_ok (sbi_limit b1)" using Reads(5,7) s by (auto simp: exchange_ok_def)
  have "body_kept i (r = Ok () \<or> r = Pending) s1 s2"
  proof (cases r)
    case (Err e)
    with read_body_fed(2)[OF fed rd j lim] s show ?thesis by (auto simp: body_kept_def exchange_due_def)
  qed (use read_body_fed(1)[OF fed rd j lim] s assms(4) in \<open>auto simp: body_kept_def\<close>)
  with first show ?thesis using body_kept_trans by blast
qed

lemma sv_bidirect_loop_body:
  assumes "exchange_fed i s" "sv_bidirect_loop w reg s = (r, s1)" "exchange_inv s" "\<forall>p. r \<noteq> Panic p"
  shows "body_kept i (r = Ok () \<or> r = Pending) s s1"
proof -
  let ?I = "\<lambda>t. exchange_inv t \<and> body_kept i True s t"
  have fed: "exchange_fed i t" if "body_kept i True s t" for t using that by (simp add: body_kept_def)
  have go: "?I t1" if t: "?I t" "exchange_round w reg t = (Ok (), t1)" for t t1
  proof
    obtain b io c where s: "t = (b, io, c)" by (metis prod_cases3)
    show "exchange_inv t1" using exchange_round_post[of b io c w reg "Ok ()" t1] t s by blast
    have "body_kept i True t t1" using exchange_round_body[OF fed t(2)] t(1) by simp
    with t(1) show "body_kept i True s t1" using body_kept_trans by blast
  qed
  have stop: "(\<forall>p. r \<noteq> Panic p) \<longrightarrow> body_kept i (r = Ok () \<or> r = Pending) s t1"
    if t: "?I t" "exchange_round w reg t = (r, t1)" for t r t1
    using exchange_round_body[OF fed t(2)] t(1) body_kept_trans by blast
  from assms(2) have "(\<forall>p. r \<noteq> Panic p) \<longrightarrow> body_kept i (r = Ok () \<or> r = Pending) s s1"
  proof (rule sv_bidirect_loop_rule[where I = ?I], goal_cases)
    case 1
    then show ?case using assms(1,3) by (simp add: body_kept_def)
  next
    case (2 t t1)
    then show ?case using go by blast
  next
    case (3 t r t1)
    then show ?case using stop by blast
  next
    case (4 t)
    then show ?case by auto
  qed
  with assms(4) show ?thesis by blast
qed

section \<open>What is still to come from a connection\<close>

definition body_due :: "nat \<Rightarrow> server \<Rightarrow> bytes" where
  "body_due i self = chunk_bytes (ch_queue (sc_in (sv_chans self) i))
     @ (case sv_state self of SendRes b \<Rightarrow> body_feed i b (sv_io self) | _ \<Rightarrow> [])"

definition feeds :: "nat \<Rightarrow> server \<Rightarrow> bool" where
  "feeds i self \<longleftrightarrow> (case sv_state self of SendRes b \<Rightarrow> sbi_tx_body b = Some i | _ \<Rightarrow> False)"

definition body_ok :: "nat \<Rightarrow> server \<Rightarrow> bool" where
  "body_ok i self \<longleftrightarrow> stream_open (sc_in (sv_chans self) i) (if feeds i self then 1 else 0) \<and> i < sc_fresh (sv_chans self)
     \<and> (\<forall>b. sv_state self = SendRes b \<longrightarrow> sbi_tx_body b = Some i \<longrightarrow> unmixed (sbi_limit b, sv_io self))"

definition body_kept_on :: "nat \<Rightarrow> bool \<Rightarrow> server \<Rightarrow> server \<Rightarrow> bool" where
  "body_kept_on i good self self1 \<longleftrightarrow> (if good then body_ok i self1 \<and> body_due i self1 = body_due i self
     else stream_open (sc_in (sv_chans self1) i) (if feeds i self1 then 1 else 0)
       \<and> prefix (chunk_bytes (ch_queue (sc_in (sv_chans self1) i))) (body_due i self))"

lemma drop_want_in [simp]: "sc_in (drop_want want c) = sc_in c" "sc_fresh (drop_want want c) = sc_fresh c"
  by (simp_all add: drop_want_def)

lemma body_exchange:
  assumes "sv_state self = SendRes b"
  shows "body_ok i self \<longleftrightarrow> exchange_fed i (b, sv_io self, sv_chans self) \<and> i < sc_fresh (sv_chans self)"
    "body_due i self = exchange_due i (b, sv_io self, sv_chans self)" "feeds i self \<longleftrightarrow> sbi_tx_body b = Some i"
  using assms by (auto simp: body_ok_def exchange_fed_def feeds_def body_due_def exchange_due_def)

lemma body_elsewhere:
  assumes "\<forall>b. sv_state self \<noteq> SendRes b"
  shows "body_ok i self \<longleftrightarrow> stream_open (sc_in (sv_chans self) i) 0 \<and> i < sc_fresh (sv_chans self)"
    "body_due i self = chunk_bytes (ch_queue (sc_in (sv_chans self) i))" "\<not> feeds i self"
  using assms by (auto simp: body_ok_def feeds_def body_due_def split: server_state.split)

lemma finish_body:
  assumes "body_ok i self" "same_rx (sv_io self) io" "server_state_ok (sv_state self)"
  shows "body_ok i (self\<lparr>sv_io := io\<rparr>)" "body_due i (self\<lparr>sv_io := io\<rparr>) = body_due i self"
proof -
  have lim: "server_limit_ok (sbi_limit b)" if "sv_state self = SendRes b" for b
    using assms(3) that by (auto simp: server_state_ok_def exchange_ok_def)
  note feed = same_rx_feed[OF assms(2) lim]
  show "body_ok i (self\<lparr>sv_io := io\<rparr>)" using assms(1) feed(2) by (auto simp: body_ok_def feeds_def)
  show "body_due i (self\<lparr>sv_io := io\<rparr>) = body_due i self"
    using feed(1) by (auto simp: body_due_def body_feed_def split: server_state.split)
qed

lemma body_chans:
  assumes "sc_in c = sc_in (sv_chans self)" "sc_fresh (sv_chans self) \<le> sc_fresh c"
  shows "body_ok i self \<Longrightarrow> body_ok i (self\<lparr>sv_chans := c\<rparr>)" "body_due i (self\<lparr>sv_chans := c\<rparr>) = body_due i self"
  using assms by (auto simp: body_ok_def body_due_def feeds_def split: server_state.split)

lemma server_round_body:
  assumes "server_ok self" "body_ok i self" "server_round api w want reg self = (r, self1)" "\<forall>p. r \<noteq> Panic p"
  shows "body_kept_on i (\<forall>e. r \<noteq> Err e) self self1"
proof -
  let ?c = "sv_chans self"
  have tx: "tx_ok (sv_io self)" and st: "server_state_ok (sv_state self)" and rx: "sv_state self \<noteq> Closed \<Longrightarrow> rx_ok (sv_io self)"
    using assms(1) by (auto simp: server_ok_def)
  note fin = poll_finish_pending_write_spec[OF tx]
  have kept: "body_kept_on i good self (self\<lparr>sv_io := io, sv_chans := c\<rparr>)"
    if "same_rx (sv_io self) io" "sc_in c = sc_in ?c" "sc_fresh c = sc_fresh ?c" for good io c
    using finish_body[OF assms(2) that(1) st] body_chans[of c "self\<lparr>sv_io := io\<rparr>" i] that(2,3)
    by (auto simp: body_kept_on_def body_ok_def body_due_def)
  show ?thesis
    using assms(3)
  proof (cases rule: server_round_cases)
    case (Write q io)
    with fin[OF Write(1)] kept show ?thesis by simp
  next
    case (Idle io)
    with fin[OF Idle(1)] kept[of io ?c] show ?thesis by simp
  next
    case (Receive io q io1 c)
    have i: "stream_open (sc_in ?c i) 0" "i < sc_fresh ?c" "body_due i self = chunk_bytes (ch_queue (sc_in ?c i))"
      using body_elsewhere[of self i] assms(2) Receive(2) by simp_all
    have np: "\<forall>p. q \<noteq> Panic p" using Receive(5) assms(4) by (cases q) auto
    from Receive(4) show ?thesis
    proof (cases rule: poll_next_req_cases)
      case (Request req)
      from Request(2) obtain b p where b: "q = Ok (p, SendRes b)" "sbi_tx_body b = (if lr_is_no_body (sbi_limit b) then None else Some (sc_fresh ?c))"
        "sc_fresh c = Suc (sc_fresh ?c)"
        "sc_in c = (sc_in ?c)(sc_fresh ?c := if sbi_tx_body b = None then sender_drop (receiver_new 1) else receiver_new 1)"
        by (rule new_request_spec) blast
      then have "sbi_tx_body b \<noteq> Some i" "sc_in c i = sc_in ?c i" using i(2) by (auto split: if_splits)
      with i b Receive(6) show ?thesis
        by (simp add: body_kept_on_def body_exchange exchange_fed_def exchange_due_def body_feed_def)
    next
      case (Hangup x)
      with i Receive(6) show ?thesis by (simp add: body_kept_on_def body_elsewhere)
    next
      case (Failed x e)
      with i Receive(5,6) show ?thesis by (simp add: body_kept_on_def body_elsewhere)
    next
      case Waiting
      with i Receive(5,6) show ?thesis by (simp add: body_kept_on_def body_elsewhere)
    qed (use np in auto)
  next
    case (Exchange io b q b1 io1 c)
    have inv: "exchange_inv (b, io, ?c)"
      using fin[OF Exchange(1)] rx st same_rx_ok(1)[of "sv_io self" io] Exchange(2) by (auto simp: exchange_inv_def server_state_ok_def)
    have i: "exchange_fed i (b, io, ?c)" "exchange_due i (b, io, ?c) = body_due i self" "i < sc_fresh ?c"
      using finish_body[OF assms(2) _ st, of io] fin[OF Exchange(1)] body_exchange[of "self\<lparr>sv_io := io\<rparr>" b i] Exchange(2) by auto
    from inv Exchange(3) show ?thesis
    proof (cases rule: sv_poll_bidirect_cases)
      case (Over b2 c2)
      have drives: "sc_fresh c2 = sc_fresh ?c" using sv_bidirect_loop_post[OF inv Over(1)] by (simp add: same_drives_def)
      have "body_kept i True (b, io, ?c) (b2, io1, c2)" using sv_bidirect_loop_body[OF i(1) Over(1) inv] by simp
      moreover have "sbi_tx_body b2 = None" using Over(2) by (auto simp: exchange_over_def tx_body_waits_def)
      ultimately have i2: "stream_open (sc_in c2 i) 0" "chunk_bytes (ch_queue (sc_in c2 i)) = body_due i self"
        using i(2) by (auto simp: body_kept_def exchange_fed_def exchange_due_def body_feed_def)
      from Over(2,3) obtain no_body limit k where a: "drop_server_state (SendRes b1) c = c"
        "q = Ok (if no_body \<or> lw_is_no_body limit then if sbi_request_allows_reuse b2 then RecvReq else Closed
           else SendBody \<lparr>bs_request_allows_reuse = sbi_request_allows_reuse b2, bs_rx_body = k\<rparr>)"
        "c = (if no_body \<or> lw_is_no_body limit then upd_out k receiver_drop c2 else c2)"
        by (rule after_exchange_cases)
      have "sc_in c = sc_in c2" "sc_fresh c = sc_fresh c2" using a(3) by simp_all
      moreover have "sv_chans self1 = c" "\<forall>b. sv_state self1 \<noteq> SendRes b" using Exchange(5) a(1,2) by simp_all
      ultimately show ?thesis using i2 i(3) drives Exchange(4) a(2) by (simp add: body_kept_on_def body_elsewhere)
    next
      case (Stopped x)
      have q: "q = (case x of Err e \<Rightarrow> Err e | Panic p \<Rightarrow> Panic p | _ \<Rightarrow> Pending)" "x \<noteq> Ok ()" using Stopped by auto
      have np: "\<forall>p. x \<noteq> Panic p" using q assms(4) Exchange(4) by (cases x) auto
      have self1: "sv_state self1 = SendRes b1" "sv_io self1 = io1" "sv_chans self1 = drop_want want c"
        using Exchange(5) q by (cases x; simp)+
      have "sc_fresh c = sc_fresh ?c" using sv_bidirect_loop_post[OF inv Stopped(1)] np by (simp add: same_drives_def)
      moreover have "(\<forall>e. r \<noteq> Err e) \<longleftrightarrow> x = Pending" using q np Exchange(4) by (cases x) auto
      ultimately show ?thesis using sv_bidirect_loop_body[OF i(1) Stopped(1) inv np] q(2) i(2,3) self1
        by (auto simp: body_kept_on_def body_kept_def body_exchange[OF self1(1)] exchange_fed_def exchange_due_def)
    qed
  next
    case (Body io b q io1 c)
    have io: "tx_ok io" "can_poll_write io" using fin[OF Body(1)] by auto
    note spec = send_body_loop_spec[OF Body(3) io]
    have c: "sc_in c = sc_in ?c" "sc_fresh c = sc_fresh ?c" using spec by auto
    have i: "stream_open (sc_in ?c i) 0" "i < sc_fresh ?c" "body_due i self = chunk_bytes (ch_queue (sc_in ?c i))"
      using body_elsewhere[of self i] assms(2) Body(2) by simp_all
    have "\<forall>b. sv_state self1 \<noteq> SendRes b" using spec Body(5) by (cases q) auto
    moreover have "sc_in (sv_chans self1) = sc_in ?c" "sc_fresh (sv_chans self1) = sc_fresh ?c"
      using Body(5) c by (cases q; simp add: drop_server_state_def)+
    ultimately show ?thesis using i by (simp add: body_kept_on_def body_elsewhere)
  next
    case (End io)
    with fin[OF End(1)] kept show ?thesis by simp
  qed
qed

lemma body_kept_on_trans: "body_kept_on i True s s1 \<Longrightarrow> body_kept_on i good s1 s2 \<Longrightarrow> body_kept_on i good s s2"
  by (auto simp: body_kept_on_def)

lemma sv_drive_body:
  assumes "server_ok self" "body_ok i self" "sv_drive api w want reg self = (r, self1)" "\<forall>p. r \<noteq> Panic p"
  shows "body_kept_on i (\<forall>e. r \<noteq> Err e) self self1"
proof -
  let ?I = "\<lambda>s. server_ok s \<and> body_kept_on i True self s"
  have ok: "body_ok i s" if "body_kept_on i True self s" for s using that by (simp add: body_kept_on_def)
  have go: "?I s1" if s: "?I s" "server_round api w want reg s = (Ok None, s1)" for s s1
  proof
    show "server_ok s1" using server_round_post(1)[of s api w want reg "Ok None" s1] s by blast
    have "body_kept_on i True s s1" using server_round_body[OF _ ok s(2)] s(1) by simp
    with s(1) show "body_kept_on i True self s1" using body_kept_on_trans by blast
  qed
  have stop: "body_kept_on i (\<forall>e. r \<noteq> Err e) self s1"
    if s: "?I s" "server_round api w want reg s = (r, s1)" "\<forall>p. r \<noteq> Panic p" for s s1 r
    using server_round_body[OF _ ok s(2,3)] s(1) body_kept_on_trans by blast
  from assms(3) have "(\<forall>p. r \<noteq> Panic p) \<longrightarrow> body_kept_on i (\<forall>e. r \<noteq> Err e) self self1"
  proof (rule sv_drive_rule[where I = ?I], goal_cases)
    case 1
    then show ?case using assms(1,2) by (simp add: body_kept_on_def)
  next
    case (2 s s1)
    then show ?case using go by blast
  qed (use stop in fastforce)+
  with assms(4) show ?thesis by simp
qed

lemma drop_server_state_in:
  "sc_in (drop_server_state st c) i = (case st of
     SendRes b \<Rightarrow> if sbi_tx_body b = Some i then sender_drop (sc_in c i) else sc_in c i | _ \<Rightarrow> sc_in c i)"
  by (auto simp: drop_server_state_def split: server_state.split option.split)

lemma stream_open_drop: "stream_open q 1 \<Longrightarrow> stream_open (sender_drop q) 0"
  by (simp add: stream_open_def sender_drop_frame)

text \<open>A call keeps the stream well-formed, and what is to come for it too unless it fails.\<close>

lemma poll_server_body:
  assumes "server_ok self" "body_ok i self" "poll_server api w want reg self = (r, self1)" "\<forall>p. r \<noteq> Panic p"
  shows "body_ok i self1" "prefix (body_due i self1) (body_due i self)"
    "(\<And>e. r \<noteq> Err e) \<Longrightarrow> body_due i self1 = body_due i self"
proof -
  obtain s where d: "sv_drive api w want reg self = (r, s)" "sv_io self1 = sv_io s" "(\<forall>e. r \<noteq> Err e) \<longrightarrow> self1 = s"
    "(\<exists>e. r = Err e) \<longrightarrow> self1 = s\<lparr>sv_state := Closed, sv_chans := drop_server_state (sv_state s) (sv_chans s)\<rparr>"
    using assms(3) by (rule poll_server_drive)
  note kept = sv_drive_body[OF assms(1,2) d(1) assms(4)]
  have "body_ok i self1 \<and> prefix (body_due i self1) (body_due i self) \<and> ((\<forall>e. r \<noteq> Err e) \<longrightarrow> body_due i self1 = body_due i self)"
  proof (cases "\<exists>e. r = Err e")
    case False
    with kept d(3) show ?thesis by (simp add: body_kept_on_def)
  next
    case True
    then have self1: "self1 = s\<lparr>sv_state := Closed, sv_chans := drop_server_state (sv_state s) (sv_chans s)\<rparr>" using d(4) by blast
    have s: "stream_open (sc_in (sv_chans s) i) (if feeds i s then 1 else 0)"
      "prefix (chunk_bytes (ch_queue (sc_in (sv_chans s) i))) (body_due i self)"
      using kept True by (auto simp: body_kept_on_def)
    have fresh: "i < sc_fresh (sv_chans self1)"
      using poll_server_post(3)[OF assms(1,3)] assms(2,4) by (auto simp: responses_taken_def body_ok_def)
    have "stream_open (sc_in (sv_chans self1) i) 0" "ch_queue (sc_in (sv_chans self1) i) = ch_queue (sc_in (sv_chans s) i)"
      using s(1) stream_open_drop self1 by (auto simp: drop_server_state_in feeds_def sender_drop_frame split: server_state.splits if_splits)
    with s fresh True self1 show ?thesis by (auto simp: body_elsewhere)
  qed
  then show "body_ok i self1" "prefix (body_due i self1) (body_due i self)"
    "(\<And>e. r \<noteq> Err e) \<Longrightarrow> body_due i self1 = body_due i self" by auto
qed

end
