(* ===== verification/Server_System.thy ===== *)
theory Server_System
  imports Server_Body
begin

text \<open>
  A server connection together with the handles its users hold: a transition system whose steps
  are the polls of \<^verbatim>\<open>accept\<close> and \<^verbatim>\<open>close\<close> and every call of a handle, in any order and
  with any arguments. Its invariant accounts for every handle that can drive the connection.
\<close>

section \<open>Accepting and driving\<close>

lemma map_res_Ok [simp]: "Ok y = map_res f r \<longleftrightarrow> (\<exists>x. r = Ok x \<and> y = f x)" "Ok x \<noteq> lift_io q"
  by (cases r; auto) (cases q; simp add: lift_io_def)

lemma sv_drive_no_request: "sv_drive api w False reg self = (r, self1) \<Longrightarrow> r \<noteq> Ok (Some p)"
proof (erule sv_drive_rule[where I = "\<lambda>_. True"])
  fix s s1 q
  assume "server_round api w False reg s = (Ok (Some q), s1)"
  then have "q = None" by (cases rule: server_round_cases) auto
  then show "Ok q \<noteq> Ok (Some p)" by simp
qed auto

lemma poll_server_no_request: "poll_server api w False reg self = (r, self1) \<Longrightarrow> r \<noteq> Ok (Some p)"
  using sv_drive_no_request by (metis poll_server_drive)

text \<open>What is delivered with a request, and the state it leaves the connection in.\<close>

definition delivered :: "request \<Rightarrow> recv_stream \<Rightarrow> nat \<Rightarrow> send_response \<Rightarrow> server \<Rightarrow> bool" where
  "delivered req rs i sr self \<longleftrightarrow> (let l = lr_from_headers (req_headers req) False; c = sv_chans self in
     \<exists>b. sv_state self = SendRes b \<and> sbi_limit b = l
       \<and> sbi_request_allows_reuse b = allow_reuse (req_headers req) (req_version req) \<and> sbi_holder b = None
       \<and> sbi_tx_body b = (if lr_is_no_body l then None else Some i) \<and> sbi_rx_res b = Some i
       \<and> rs = recv_stream_new (lr_is_no_body l) \<and> sr_tx_res sr = i \<and> sc_fresh c = Suc i
       \<and> sc_in c i = (if lr_is_no_body l then sender_drop (receiver_new 1) else receiver_new 1)
       \<and> sc_res c i = receiver_new 1)"

lemma sv_drive_delivers:
  assumes "server_ok self" "sv_drive api w want reg self = (Ok (Some ((req, rs, i), sr)), self1)"
  shows "delivered req rs i sr self1 \<and> i = sc_fresh (sv_chans self)"
proof -
  from assms(2) have "case Ok (Some ((req, rs, i), sr)) of Ok (Some ((req, rs, i), sr)) \<Rightarrow>
      delivered req rs i sr self1 \<and> i = sc_fresh (sv_chans self) | _ \<Rightarrow> True"
  proof (rule sv_drive_rule[where I = "\<lambda>s. server_ok s \<and> same_drives (sv_chans self) (sv_chans s)"], goal_cases)
    case 1
    then show ?case using assms(1) by simp
  next
    case (2 s s1)
    then show ?case using server_round_post(1)[of s api w want reg "Ok None" s1] same_drives_trans by auto
  next
    case (3 s s1 p)
    then have fresh: "sc_fresh (sv_chans s) = sc_fresh (sv_chans self)" by (simp add: same_drives_def)
    show ?case
    proof (cases p)
      case (Some p1)
      obtain req rs i sr where p1: "p1 = ((req, rs, i), sr)" by (metis surj_pair)
      from 3(2) have "delivered req rs i sr s1 \<and> i = sc_fresh (sv_chans s)"
      proof (cases rule: server_round_cases)
        case (Receive io q io1 c)
        from Receive(4) show ?thesis
        proof (cases rule: poll_next_req_cases)
          case (Request req')
          from Request(2) obtain b where "q = Ok (Some ((req', recv_stream_new (sbi_tx_body b = None), sc_fresh (sv_chans s)),
              \<lparr>sr_tx_res = sc_fresh (sv_chans s), sr_req_expects_no_body = (req_method req' = ''HEAD'')\<rparr>), SendRes b)"
            "sbi_rx_res b = Some (sc_fresh (sv_chans s))" "sbi_holder b = None"
            "sbi_request_allows_reuse b = allow_reuse (req_headers req') (req_version req')" "sbi_limit b = lr_from_headers (req_headers req') False"
            "sbi_tx_body b = (if lr_is_no_body (sbi_limit b) then None else Some (sc_fresh (sv_chans s)))"
            "sc_fresh c = Suc (sc_fresh (sv_chans s))" "sc_res c = (sc_res (sv_chans s))(sc_fresh (sv_chans s) := receiver_new 1)"
            "sc_in c = (sc_in (sv_chans s))(sc_fresh (sv_chans s) := if sbi_tx_body b = None then sender_drop (receiver_new 1) else receiver_new 1)"
            by (rule new_request_spec)
          with Receive(5,6) Some p1 show ?thesis by (auto simp: delivered_def Let_def)
        qed (use Receive(5) Some in auto)
      qed (use Some in auto)
      with p1 Some fresh show ?thesis by auto
    qed simp
  qed simp_all
  then show ?thesis unfolding res.case option.case prod.case .
qed

text \<open>\<^verbatim>\<open>accept\<close> waits until nobody else can drive the connection.\<close>

lemma poll_pending_external_cases:
  assumes "poll_pending_external w c = (r, c1)" "drives_are n c" "0 < n"
  shows "if n = 1 then r = Ok () \<and> c1 = c
    else r = Pending \<and> c1 = c\<lparr>sc_ext := (sc_ext c)\<lparr>ch_wakers := ch_wakers (sc_ext c) @ [w]\<rparr>\<rparr>"
  using assms
  by (cases rule: poll_recv_reg_cases[of w True "sc_ext c"]) (auto simp: poll_pending_external_def count_external_def drives_are_def)

lemma poll_accept_cases:
  assumes "poll_accept api w self = (r, self1)" "drives_are n (sv_chans self)" "0 < n"
  obtains (Busy) "n \<noteq> 1" "r = Pending" "self1 = self\<lparr>sv_chans := (sv_chans self)\<lparr>sc_ext :=
      (sc_ext (sv_chans self))\<lparr>ch_wakers := ch_wakers (sc_ext (sv_chans self)) @ [w]\<rparr>\<rparr>\<rparr>"
  | (Free) "n = 1" "poll_server api w True True (self\<lparr>sv_chans := drive_clone (sv_chans self)\<rparr>) = (r, self1)"
proof -
  obtain q c where q: "poll_pending_external w (sv_chans self) = (q, c)" by fastforce
  note ext = poll_pending_external_cases[OF q assms(2,3)]
  show ?thesis
  proof (cases "n = 1")
    case True
    with ext q assms(1) Free show ?thesis by (simp add: poll_accept_def)
  next
    case False
    with ext q assms(1) Busy show ?thesis by (simp add: poll_accept_def)
  qed
qed

lemma drives_clone: "drives_are n c \<Longrightarrow> drives_are (Suc n) (drive_clone c)"
  "drives_are n c \<Longrightarrow> drives_are (n - 1) (drive_drop c)"
  by (simp_all add: drives_are_def sender_clone_def sender_drop_frame)

lemma poll_drive_external_cases:
  assumes "poll_drive_external api w self = (r, self1)"
  obtains q where "poll_server api w False False self = (q, self1)" "\<And>p. q \<noteq> Ok (Some p)"
    "r = Ok () \<longleftrightarrow> q = Ok None \<or> q = Pending \<and> \<not> bi_pending_rx (sv_io self1) \<and> \<not> bi_pending_tx (sv_io self1)"
    "r = Pending \<longleftrightarrow> q = Pending \<and> (bi_pending_rx (sv_io self1) \<or> bi_pending_tx (sv_io self1))"
    "\<And>e. r = Err e \<longleftrightarrow> q = Err e" "\<And>p. r = Panic p \<longleftrightarrow> q = Panic p"
proof -
  obtain q s where q: "poll_server api w False False self = (q, s)" by fastforce
  have no: "q \<noteq> Ok (Some p)" for p using poll_server_no_request[OF q] .
  have "s = self1 \<and> (r = Ok () \<longleftrightarrow> q = Ok None \<or> q = Pending \<and> \<not> bi_pending_rx (sv_io self1) \<and> \<not> bi_pending_tx (sv_io self1))
    \<and> (r = Pending \<longleftrightarrow> q = Pending \<and> (bi_pending_rx (sv_io self1) \<or> bi_pending_tx (sv_io self1)))
    \<and> (\<forall>e. r = Err e \<longleftrightarrow> q = Err e) \<and> (\<forall>p. r = Panic p \<longleftrightarrow> q = Panic p)"
  proof (cases q)
    case (Ok x)
    with no have "x = None" by (cases x) auto
    with assms q Ok show ?thesis by (auto simp: poll_drive_external_def)
  qed (use assms q in \<open>auto simp: poll_drive_external_def Let_def split: if_splits\<close>)
  with q no that show ?thesis by blast
qed

lemma poll_drive_external_post:
  assumes "server_ok self" "poll_drive_external api w self = (r, self1)"
  shows "r = Panic p \<Longrightarrow> server_panic p" "(\<And>p. r \<noteq> Panic p) \<Longrightarrow> server_ok self1"
    "(\<And>p. r \<noteq> Panic p) \<Longrightarrow> responses_taken (sv_chans self) (sv_chans self1)"
    "(\<And>p. r \<noteq> Panic p) \<Longrightarrow> drives_are n (sv_chans self) \<Longrightarrow> drives_are n (sv_chans self1)"
proof -
  obtain q where q: "poll_server api w False False self = (q, self1)" "\<And>p. q \<noteq> Ok (Some p)" "\<And>p. r = Panic p \<longleftrightarrow> q = Panic p"
    using assms(2) by (rule poll_drive_external_cases) blast
  note post = poll_server_post[OF assms(1) q(1)]
  have "drives_after False q n = n" using q(2) by (auto simp: drives_after_def split: res.split option.split)
  with post(4)[of n] q(3)
  show "(\<And>p. r \<noteq> Panic p) \<Longrightarrow> drives_are n (sv_chans self) \<Longrightarrow> drives_are n (sv_chans self1)" by simp
  show "r = Panic p \<Longrightarrow> server_panic p" "(\<And>p. r \<noteq> Panic p) \<Longrightarrow> server_ok self1"
    "(\<And>p. r \<noteq> Panic p) \<Longrightarrow> responses_taken (sv_chans self) (sv_chans self1)" using post(1-3) q(3) by auto
qed

section \<open>Sending a body\<close>

text \<open>What driving and sending keep, \<^verbatim>\<open>do_send\<close> keeps, as long as nothing panics.\<close>

lemma flush_loop_rule:
  assumes "flush_loop d get s = Some out"
    and "\<And>s. P s \<Longrightarrow> sender_is_empty (get s) \<Longrightarrow> Q (Ok (), s)"
    and "\<And>s s1. P s \<Longrightarrow> d s = (Ok (), s1) \<Longrightarrow> P s1"
    and "\<And>s r s1. P s \<Longrightarrow> d s = (r, s1) \<Longrightarrow> r \<noteq> Ok () \<Longrightarrow> Q (r, s1)"
  shows "P s \<Longrightarrow> Q out"
proof -
  have "d = d \<longrightarrow> get = get \<longrightarrow> P s \<longrightarrow> Q out"
  proof (rule flush_loop.raw_induct[OF _ assms(1), where P = "\<lambda>d' get' s out. d' = d \<longrightarrow> get' = get \<longrightarrow> P s \<longrightarrow> Q out"], intro impI)
    fix loop d' get' s out
    assume IH: "\<And>d' get' s out. loop d' get' s = Some out \<Longrightarrow> d' = d \<longrightarrow> get' = get \<longrightarrow> P s \<longrightarrow> Q out"
      and step: "(if sender_is_empty (get' s) then Some (Ok (), s)
        else case d' s of (Ok x, s1) \<Rightarrow> loop d' get' s1 | (Err e, s1) \<Rightarrow> Some (Err e, s1)
          | (Pending, s1) \<Rightarrow> Some (Pending, s1) | (Panic p, s1) \<Rightarrow> Some (Panic p, s1)) = Some out"
      and eq: "d' = d" "get' = get" and "P s"
    obtain q t where q: "d s = (q, t)" by fastforce
    show "Q out"
    proof (cases "sender_is_empty (get s)")
      case True
      with step eq assms(2) \<open>P s\<close> show ?thesis by auto
    next
      case False
      show ?thesis
      proof (cases q)
        case (Ok x)
        with step eq False q have "loop d get t = Some out" by simp
        with IH assms(3)[OF \<open>P s\<close>, of t] q Ok show ?thesis by simp
      qed (use step eq False q assms(4)[OF \<open>P s\<close> q] in auto)
    qed
  qed
  then show "P s \<Longrightarrow> Q out" by blast
qed

lemma flush_loop_keeps:
  assumes "\<And>s r s1. P s \<Longrightarrow> d s = (r, s1) \<Longrightarrow> \<forall>p. r \<noteq> Panic p \<Longrightarrow> P s1"
    and "flush_loop d get s = Some (r, s1)" "P s" "\<forall>p. r \<noteq> Panic p"
  shows "P s1"
proof -
  have "(\<forall>p. fst (r, s1) \<noteq> Panic p) \<longrightarrow> P (snd (r, s1))"
    by (rule flush_loop_rule[OF assms(2), where P = P]) (use assms(1,3) in auto)
  with assms(4) show ?thesis by simp
qed

lemma io_result_Panic: "io_result q = Panic p \<longleftrightarrow> q = Panic p"
  by (cases q) (simp_all add: io_result_def)

lemma do_send_keeps:
  assumes d: "\<And>s r s1. P s \<Longrightarrow> d s = (r, s1) \<Longrightarrow> \<forall>p. r \<noteq> Panic p \<Longrightarrow> P s1"
    and put: "\<And>s tx. P s \<Longrightarrow> P (put tx s)"
    and run: "do_send_poll (Some d) get put w eob (phase, data, self, s) = Some (r, phase1, data1, self1, s1)"
    and "P s" "\<forall>p. r \<noteq> Panic p"
  shows "P s1"
proof -
  have flush: "P s1" if fl: "do_send_flush (Some d) get data self s = Some (r, phase1, data1, self1, s1)" and "P s" for data self s
  proof (cases "ss_ended self")
    case True
    then have "map_option (\<lambda>(r, s1). (io_result r, Flush, data, self, s1)) (flush_loop d get s) = Some (r, phase1, data1, self1, s1)"
      using fl by (simp add: do_send_flush_def)
    then obtain x where x: "flush_loop d get s = Some x" "(\<lambda>(r, s1). (io_result r, Flush, data, self, s1)) x = (r, phase1, data1, self1, s1)"
      unfolding map_option_eq_Some by blast
    obtain q t where "x = (q, t)" by fastforce
    with x have q: "flush_loop d get s = Some (q, s1)" "r = io_result q" by simp_all
    have "q \<noteq> Panic p" for p using assms(5) q(2) by (metis io_result_Panic)
    then have np: "\<forall>p. q \<noteq> Panic p" by blast
    show ?thesis by (rule flush_loop_keeps[where P = P, OF _ q(1) \<open>P s\<close> np]) (rule d)
  next
    case False
    with fl \<open>P s\<close> show ?thesis by (simp add: do_send_flush_def)
  qed
  have after: "P s1" if run: "do_send_after (Some d) get data self s = Some (r, phase1, data1, self1, s1)" and "P s" for data self s
  proof -
    obtain q t where q: "d s = (q, t)" by fastforce
    show ?thesis
    proof (cases q)
      case (Ok x)
      with run q have "do_send_flush (Some d) get data self t = Some (r, phase1, data1, self1, s1)" by (simp add: do_send_after_def poll_drive_server_def)
      with flush d[OF \<open>P s\<close> q] Ok show ?thesis by simp
    qed (use run q d[OF \<open>P s\<close> q] assms(5) in \<open>auto simp: do_send_after_def poll_drive_server_def io_result_def\<close>)
  qed
  have send: "P s1" if run: "do_send_data (Some d) get put w eob data self s = Some (r, phase1, data1, self1, s1)" and "P s" for data self s
  proof -
    obtain q data2 self2 tx where q: "poll_send_data w data eob (self, get s) = (q, data2, self2, tx)" by (metis prod_cases4)
    show ?thesis
    proof (cases "q = Ok (Inr ())")
      case True
      with run q after put[OF \<open>P s\<close>] show ?thesis by (simp add: do_send_data_def)
    next
      case False
      then have "s1 = put tx s" using run q by (cases q) (auto simp: do_send_data_def split: sum.splits)
      with put[OF \<open>P s\<close>] show ?thesis by simp
    qed
  qed
  show ?thesis
  proof (cases phase)
    case DriveBefore
    obtain q t where q: "d s = (q, t)" by fastforce
    show ?thesis
    proof (cases q)
      case (Ok x)
      with run q DriveBefore have "do_send_data (Some d) get put w eob data self t = Some (r, phase1, data1, self1, s1)"
        by (simp add: do_send_poll_def poll_drive_server_def)
      with send d[OF assms(4) q] Ok show ?thesis by simp
    qed (use run q DriveBefore d[OF assms(4) q] assms(5) in \<open>auto simp: do_send_poll_def poll_drive_server_def io_result_def\<close>)
  qed (use run send after flush assms(4) in \<open>auto simp: do_send_poll_def\<close>)
qed

section \<open>The handles of the users\<close>

text \<open>
  A handle to respond, the call of \<^verbatim>\<open>send_response\<close> that is driving the connection, the stream of
  a response, a call that is sending on it, and the stream of a request. The streams carry the
  number of their channel. A call that is given up is dropped, with what it owns.
\<close>

datatype server_handle =
    Responder send_response
  | Responding send_response "send_stream \<times> nat"
  | Writer nat send_stream
  | Writing nat bool send_phase send_data send_stream
  | Reader nat recv_stream

text \<open>How many \<^verbatim>\<open>SyncDriveExternal\<close>s a handle holds; \<^verbatim>\<open>send_response\<close> has made the one of the new stream.\<close>

fun handle_drives :: "server_handle \<Rightarrow> nat" where
  "handle_drives (Responding sr send) = 2"
| "handle_drives _ = 1"

fun handle_drop :: "server_handle \<Rightarrow> server_chans \<Rightarrow> server_chans" where
  "handle_drop (Responder sr) c = send_response_drop sr c"
| "handle_drop (Responding sr send) c = send_response_drop sr (send_stream_drop (snd send) c)"
| "handle_drop (Writer k ss) c = send_stream_drop k c"
| "handle_drop (Writing k eob phase data ss) c = send_stream_drop k c"
| "handle_drop (Reader i rs) c = recv_stream_drop i c"

text \<open>A step of one handle: the connection after it, and what the handle has become.\<close>

inductive handle_step :: "http_api \<Rightarrow> server \<Rightarrow> server_handle \<Rightarrow> server \<Rightarrow> server_handle list \<Rightarrow> bool" for api sv where
  respond: "send_response_start res no_body sr (sv_chans sv) = (Inr send, c) \<Longrightarrow>
    handle_step api sv (Responder sr) (sv\<lparr>sv_chans := c\<rparr>) [Responding sr send]"
| respond_fails: "send_response_start res no_body sr (sv_chans sv) = (Inl e, c) \<Longrightarrow>
    handle_step api sv (Responder sr) (sv\<lparr>sv_chans := c\<rparr>) []"
| responding: "send_response_drive api w sr send sv = (Pending, sv1) \<Longrightarrow>
    handle_step api sv (Responding sr send) sv1 [Responding sr send]"
| responded: "send_response_drive api w sr send sv = (Ok (Inr (ss, k)), sv1) \<Longrightarrow>
    handle_step api sv (Responding sr send) sv1 [Writer k ss]"
| responding_fails: "send_response_drive api w sr send sv = (Ok (Inl e), sv1) \<Longrightarrow>
    handle_step api sv (Responding sr send) sv1 []"
| send: "handle_step api sv (Writer k ss) sv [Writing k eob DriveBefore data ss]"
| sending: "server_send api w k eob (phase, data, ss, sv) = Some (Pending, (phase1, data1, ss1, sv1)) \<Longrightarrow>
    handle_step api sv (Writing k eob phase data ss) sv1 [Writing k eob phase1 data1 ss1]"
| sent: "server_send api w k eob (phase, data, ss, sv) = Some (Ok res, (phase1, data1, ss1, sv1)) \<Longrightarrow>
    handle_step api sv (Writing k eob phase data ss) sv1 [Writer k ss1]"
| give_up: "handle_step api sv (Writing k eob phase data ss) sv [Writer k ss]"
| read: "server_read api w i n (rs, sv) = (r, (rs1, sv1)) \<Longrightarrow> \<forall>p. r \<noteq> Panic p \<Longrightarrow>
    handle_step api sv (Reader i rs) sv1 [Reader i rs1]"
| drop: "handle_step api sv h (sv\<lparr>sv_chans := handle_drop h (sv_chans sv)\<rparr>) []"

inductive_cases responder_step: "handle_step api sv (Responder sr) sv1 hs"
inductive_cases responding_step: "handle_step api sv (Responding sr send) sv1 hs"
inductive_cases writing_step: "handle_step api sv (Writing k eob phase data ss) sv1 hs"
inductive_cases reader_step: "handle_step api sv (Reader i rs) sv1 hs"

type_synonym system = "server \<times> server_handle list"

inductive server_step :: "http_api \<Rightarrow> system \<Rightarrow> system \<Rightarrow> bool" for api where
  accept: "poll_accept api w sv = (Ok (Some ((req, rs, i), sr)), sv1) \<Longrightarrow>
    server_step api (sv, hs) (sv1, Reader i rs # Responder sr # hs)"
| accept_nothing: "poll_accept api w sv = (r, sv1) \<Longrightarrow> r = Ok None \<or> r = Pending \<or> (\<exists>e. r = Err e) \<Longrightarrow>
    server_step api (sv, hs) (sv1, hs)"
| close: "sv_poll_close api w sv = (r, sv1) \<Longrightarrow> \<forall>p. r \<noteq> Panic p \<Longrightarrow> server_step api (sv, hs) (sv1, hs)"
| handle: "handle_step api sv h sv1 hs1 \<Longrightarrow> server_step api (sv, xs @ h # ys) (sv1, xs @ hs1 @ ys)"

inductive server_reachable :: "http_api \<Rightarrow> system \<Rightarrow> bool" for api where
  start: "server_reachable api (sv_handshake t, [])"
| step: "server_reachable api s \<Longrightarrow> server_step api s s1 \<Longrightarrow> server_reachable api s1"

section \<open>The invariant of the system\<close>

definition all_drives :: "server_handle list \<Rightarrow> nat" where
  "all_drives hs = Suc (sum_list (map handle_drives hs))"

lemma all_drives_simps [simp]: "all_drives (xs @ ys) = all_drives xs + sum_list (map handle_drives ys)"
  "all_drives (h # hs) = handle_drives h + all_drives hs" "0 < all_drives hs" "all_drives [] = 1"
  by (simp_all add: all_drives_def)

fun responder :: "server_handle \<Rightarrow> nat option" where
  "responder (Responder sr) = Some (sr_tx_res sr)"
| "responder _ = None"

text \<open>Every responder has a channel of its own, that is still empty.\<close>

definition responders_ok :: "server_chans \<Rightarrow> server_handle list \<Rightarrow> bool" where
  "responders_ok c hs \<longleftrightarrow> distinct (List.map_filter responder hs)
     \<and> (\<forall>j \<in> set (List.map_filter responder hs). j < sc_fresh c \<and> ch_queue (sc_res c j) = [])"

definition system_ok :: "system \<Rightarrow> bool" where
  "system_ok = (\<lambda>(sv, hs). server_ok sv \<and> drives_are (all_drives hs) (sv_chans sv) \<and> one_response (sv_chans sv)
     \<and> responders_ok (sv_chans sv) hs)"

lemma map_filter_append: "List.map_filter f (xs @ ys) = List.map_filter f xs @ List.map_filter f ys"
  by (simp add: List.map_filter_def)

lemma responders_ok_taken:
  assumes "responders_ok c hs" "responses_taken c c1"
  shows "responders_ok c1 hs"
proof -
  have "j < sc_fresh c1 \<and> ch_queue (sc_res c1 j) = []" if j: "j < sc_fresh c" "ch_queue (sc_res c j) = []" for j
  proof -
    have "suffix (ch_queue (sc_res c1 j)) (ch_queue (sc_res c j))" "sc_fresh c \<le> sc_fresh c1"
      using assms(2) j(1) by (auto simp: responses_taken_def)
    with j show ?thesis by simp
  qed
  with assms(1) show ?thesis by (auto simp: responders_ok_def)
qed

lemma responders_ok_rest: "responders_ok c (xs @ h # ys) \<Longrightarrow> List.map_filter responder hs1 = [] \<Longrightarrow> responders_ok c (xs @ hs1 @ ys)"
  by (auto simp: responders_ok_def map_filter_append map_filter_Cons split: option.splits)

lemma server_ok_chans [simp]: "server_ok (sv\<lparr>sv_chans := c\<rparr>) = server_ok sv"
  by (simp add: server_ok_def)

lemma handshake_system: "system_ok (sv_handshake t, [])"
proof -
  have "server_ok (sv_handshake t)"
    by (simp add: server_ok_def sv_handshake_def server_new_def server_state_ok_def tx_ok_def bi_with_capacity_def)
      (simp add: bi_with_capacity_def[symmetric])
  moreover have "drives_are 1 (sv_chans (sv_handshake t))" "one_response (sv_chans (sv_handshake t))"
    "responders_ok (sv_chans (sv_handshake t)) []"
    by (simp_all add: sv_handshake_def server_new_def drives_are_def receiver_new_def one_response_def responders_ok_def map_filter_simps)
  ultimately show ?thesis by (simp add: system_ok_def)
qed

text \<open>What a step of a handle does to the connection, and to the channels of the other responders.\<close>

definition handle_stepped :: "nat \<Rightarrow> server_handle \<Rightarrow> server_chans \<Rightarrow> server \<Rightarrow> server_handle list \<Rightarrow> bool" where
  "handle_stepped n h c sv1 hs1 \<longleftrightarrow> server_ok sv1 \<and> drives_are (n - handle_drives h + sum_list (map handle_drives hs1)) (sv_chans sv1)
     \<and> one_response (sv_chans sv1) \<and> sc_fresh c \<le> sc_fresh (sv_chans sv1)
     \<and> (\<forall>j. responder h \<noteq> Some j \<longrightarrow> suffix (ch_queue (sc_res (sv_chans sv1) j)) (ch_queue (sc_res c j)))
     \<and> List.map_filter responder hs1 = []"

definition kept_external :: "nat \<Rightarrow> server_chans \<Rightarrow> server \<Rightarrow> bool" where
  "kept_external n c sv \<longleftrightarrow> server_ok sv \<and> drives_are n (sv_chans sv) \<and> responses_taken c (sv_chans sv)"

lemma kept_external_drive:
  "kept_external n c sv \<Longrightarrow> poll_drive_external api w sv = (r, sv1) \<Longrightarrow> \<forall>p. r \<noteq> Panic p \<Longrightarrow> kept_external n c sv1"
  unfolding kept_external_def using poll_drive_external_post(2-4)[of sv api w r sv1] responses_taken_trans by blast

lemma kept_external_chans [simp]:
  "kept_external n c (sv\<lparr>sv_chans := upd_in i f (sv_chans sv)\<rparr>) = kept_external n c sv"
  "kept_external n c (sv\<lparr>sv_chans := upd_out i g (sv_chans sv)\<rparr>) = kept_external n c sv"
  by (simp_all add: kept_external_def drives_are_def responses_taken_def)

lemma kept_external_stepped:
  assumes "kept_external n c sv1" "one_response c" "n - handle_drives h + sum_list (map handle_drives hs1) = n"
    "List.map_filter responder hs1 = []"
  shows "handle_stepped n h c sv1 hs1"
  using assms(1,2,4) one_response_taken[of c "sv_chans sv1"]
  unfolding handle_stepped_def kept_external_def responses_taken_def assms(3) by simp

lemma drop_frames [simp]:
  "sc_fresh (send_response_drop sr c) = sc_fresh c" "sc_fresh (send_stream_drop k c) = sc_fresh c" "sc_fresh (recv_stream_drop i c) = sc_fresh c"
  "sc_res (send_stream_drop k c) = sc_res c" "sc_res (recv_stream_drop i c) = sc_res c"
  "ch_queue (sc_res (send_response_drop sr c) j) = ch_queue (sc_res c j)"
  by (simp_all add: send_response_drop_def send_stream_drop_def recv_stream_drop_def sender_drop_frame)

lemma drop_drives:
  "drives_are n c \<Longrightarrow> drives_are (n - 1) (send_response_drop sr c)" "drives_are n c \<Longrightarrow> drives_are (n - 1) (send_stream_drop k c)"
  "drives_are n c \<Longrightarrow> drives_are (n - 1) (recv_stream_drop i c)"
  by (simp_all add: send_response_drop_def send_stream_drop_def recv_stream_drop_def drives_are_def sender_drop_frame)

lemma one_response_queue: "(\<And>j. ch_queue (sc_res c1 j) = ch_queue (sc_res c j)) \<Longrightarrow> one_response c1 = one_response c"
  by (simp add: one_response_def)

lemma handle_drop_stepped:
  assumes "server_ok sv" "drives_are n (sv_chans sv)" "handle_drives h \<le> n" "one_response (sv_chans sv)"
  shows "handle_stepped n h (sv_chans sv) (sv\<lparr>sv_chans := handle_drop h (sv_chans sv)\<rparr>) []"
proof -
  have "drives_are (n - handle_drives h) (handle_drop h (sv_chans sv))"
  proof (cases h)
    case (Responding sr send)
    with drop_drives(1)[OF drop_drives(2)[OF assms(2)], of sr "snd send"] show ?thesis by (simp add: diff_diff_eq numeral_2_eq_2)
  qed (simp_all add: drop_drives[OF assms(2), simplified])
  moreover have "sc_fresh (handle_drop h (sv_chans sv)) = sc_fresh (sv_chans sv)"
    "ch_queue (sc_res (handle_drop h (sv_chans sv)) j) = ch_queue (sc_res (sv_chans sv) j)" for j
    by (cases h; simp)+
  ultimately show ?thesis using assms one_response_queue[of "handle_drop h (sv_chans sv)" "sv_chans sv"]
    by (simp add: handle_stepped_def map_filter_simps)
qed

lemma send_response_start_stepped:
  assumes "send_response_start res no_body sr (sv_chans sv) = (r, c)" "server_ok sv" "drives_are n (sv_chans sv)" "1 \<le> n"
    "one_response (sv_chans sv)" "ch_queue (sc_res (sv_chans sv) (sr_tx_res sr)) = []"
    "hs1 = (case r of Inr send \<Rightarrow> [Responding sr send] | Inl e \<Rightarrow> [])"
  shows "handle_stepped n (Responder sr) (sv_chans sv) (sv\<lparr>sv_chans := c\<rparr>) hs1"
proof -
  let ?c = "sv_chans sv" and ?j = "sr_tx_res sr"
  let ?c2 = "drive_clone (?c\<lparr>sc_out := (sc_out ?c)(sc_fresh ?c := receiver_new 1), sc_fresh := sc_fresh ?c + 1\<rparr>)"
  let ?m = "(res, response_ended sr res no_body (lw_from_headers (res_headers res)), sc_fresh ?c)"
  have c2: "drives_are (Suc n) ?c2" using assms(3) by (simp add: drives_are_def sender_clone_def)
  obtain sent q where q: "sender_send ?m (sc_res ?c ?j) = (sent, q)" by fastforce
  have one: "length (ch_queue q) \<le> 1" using q assms(6) by (auto simp: sender_send_def inner_enqueue_def wake_all_def split: if_splits)
  have len: "length (ch_queue (sc_res ?c j)) \<le> 1" for j using assms(5) by (simp add: one_response_def)
  show ?thesis
  proof (cases sent)
    case True
    have "c = upd_res ?j (\<lambda>_. q) ?c2" "\<exists>send. r = Inr send"
      using assms(1) q True by (auto simp: send_response_start_def Let_def)
    moreover have "drives_are (Suc n) (upd_res ?j (\<lambda>_. q) ?c2)" using c2 by (simp add: drives_are_def)
    ultimately show ?thesis using assms(2,4,7) one len
      by (auto simp: handle_stepped_def one_response_def map_filter_simps)
  next
    case False
    have "c = send_response_drop sr (send_stream_drop (sc_fresh ?c) (upd_out (sc_fresh ?c) receiver_drop (upd_res ?j (\<lambda>_. q) ?c2)))"
      "\<exists>e. r = Inl e"
      using assms(1) q False by (auto simp: send_response_start_def Let_def)
    moreover have "drives_are (Suc n) (upd_out (sc_fresh ?c) receiver_drop (upd_res ?j (\<lambda>_. q) ?c2))" using c2 by (simp add: drives_are_def)
    note drop_drives(1)[OF drop_drives(2)[OF this], of sr "sc_fresh ?c"]
    ultimately show ?thesis using assms(2,4,7) one len
      by (auto simp: handle_stepped_def one_response_def map_filter_simps)
  qed
qed

lemma send_response_drive_stepped:
  assumes "send_response_drive api w sr send sv = (r, sv1)" "\<forall>p. r \<noteq> Panic p" "kept_external n (sv_chans sv) sv" "2 \<le> n"
    "one_response (sv_chans sv)"
    "hs1 = (case r of Ok (Inr (ss, k)) \<Rightarrow> [Writer k ss] | Ok (Inl e) \<Rightarrow> [] | _ \<Rightarrow> [Responding sr send])"
  shows "handle_stepped n (Responding sr send) (sv_chans sv) sv1 hs1"
proof -
  obtain q t where q: "poll_drive_external api w sv = (q, t)" by fastforce
  have np: "\<forall>p. q \<noteq> Panic p" using assms(1,2) q by (cases q) (auto simp: send_response_drive_def)
  have kept: "kept_external n (sv_chans sv) t" using kept_external_drive[OF assms(3) q np] .
  then have t: "server_ok t" "drives_are n (sv_chans t)" "responses_taken (sv_chans sv) (sv_chans t)" by (simp_all add: kept_external_def)
  have one: "one_response (sv_chans t)" using one_response_taken[OF assms(5) t(3)] .
  show ?thesis
  proof (cases q)
    case (Ok u)
    have "r = Ok (Inr send)" "sv1 = t\<lparr>sv_chans := send_response_drop sr (sv_chans t)\<rparr>"
      using assms(1) q Ok by (simp_all add: send_response_drive_def)
    moreover obtain ss k where "send = (ss, k)" by fastforce
    moreover have "n - 2 + 1 = n - 1" using assms(4) by simp
    ultimately show ?thesis using t one assms(6) drop_drives(1)[OF t(2)]
      by (auto simp: handle_stepped_def responses_taken_def one_response_def map_filter_simps)
  next
    case (Err e)
    have "r = Ok (Inl (from_io e))" "sv1 = t\<lparr>sv_chans := send_response_drop sr (send_stream_drop (snd send) (sv_chans t))\<rparr>"
      using assms(1) q Err by (simp_all add: send_response_drive_def)
    then show ?thesis using t one assms(6) drop_drives(1)[OF drop_drives(2)[OF t(2)], of sr "snd send"]
      by (auto simp: handle_stepped_def responses_taken_def one_response_def map_filter_simps diff_diff_eq numeral_2_eq_2)
  next
    case Pending
    then have "r = Pending" "sv1 = t" using assms(1) q by (simp_all add: send_response_drive_def)
    with kept assms(4-6) show ?thesis by (intro kept_external_stepped) (simp_all add: map_filter_simps)
  qed (use np in simp)
qed

lemma server_send_kept:
  assumes "kept_external n c sv" "server_send api w k eob (phase, data, ss, sv) = Some (r, phase1, data1, ss1, sv1)" "\<forall>p. r \<noteq> Panic p"
  shows "kept_external n c sv1"
  using assms(1,3)
  by (intro do_send_keeps[where P = "kept_external n c", OF _ _ assms(2)[unfolded server_send_def]]) (auto intro: kept_external_drive)

lemma server_read_kept:
  assumes "kept_external n c sv" "server_read api w i m (rs, sv) = (r, rs1, sv1)" "\<forall>p. r \<noteq> Panic p"
  shows "kept_external n c sv1"
proof -
  obtain q t where q: "poll_drive_external api w sv = (q, t)" by fastforce
  have m: "m \<noteq> 0" using assms(2,3) by (cases "m = 0") (auto simp: server_read_def rs_poll_read_def)
  then have np: "\<forall>p. q \<noteq> Panic p" using assms(2,3) q by (cases q) (auto simp: server_read_def rs_poll_read_def poll_drive_server_def)
  then have "kept_external n c t" using kept_external_drive[OF assms(1) q] by simp
  with assms(2) q m show ?thesis
    by (cases q) (auto simp: server_read_def rs_poll_read_def poll_drive_server_def split: prod.splits)
qed

lemma handle_step_stepped:
  assumes "handle_step api sv h sv1 hs1" "server_ok sv" "drives_are n (sv_chans sv)" "handle_drives h \<le> n" "one_response (sv_chans sv)"
    "\<And>sr. h = Responder sr \<Longrightarrow> ch_queue (sc_res (sv_chans sv) (sr_tx_res sr)) = []"
  shows "handle_stepped n h (sv_chans sv) sv1 hs1"
proof -
  have kept: "kept_external n (sv_chans sv) sv" using assms(2,3) by (simp add: kept_external_def)
  from assms show ?thesis
  proof (cases rule: handle_step.cases)
    case (respond res no_body sr send c)
    with assms send_response_start_stepped[OF respond(4)] show ?thesis by simp
  next
    case (respond_fails res no_body sr e c)
    with assms send_response_start_stepped[OF respond_fails(4)] show ?thesis by simp
  next
    case (responding w sr send)
    with assms kept send_response_drive_stepped[OF responding(3)] show ?thesis by simp
  next
    case (responded w sr send ss k)
    with assms kept send_response_drive_stepped[OF responded(3)] show ?thesis by simp
  next
    case (responding_fails w sr send e)
    with assms kept send_response_drive_stepped[OF responding_fails(3)] show ?thesis by simp
  next
    case (send k ss eob data)
    with assms kept show ?thesis by (auto intro!: kept_external_stepped simp: map_filter_simps)
  next
    case (sending w k eob phase data ss phase1 data1 ss1)
    with assms server_send_kept[OF kept sending(3)] show ?thesis by (auto intro!: kept_external_stepped simp: map_filter_simps)
  next
    case (sent w k eob phase data ss res phase1 data1 ss1)
    with assms server_send_kept[OF kept sent(3)] show ?thesis by (auto intro!: kept_external_stepped simp: map_filter_simps)
  next
    case (give_up k eob phase data ss)
    with assms kept show ?thesis by (auto intro!: kept_external_stepped simp: map_filter_simps)
  next
    case (read w i m rs r rs1)
    with assms server_read_kept[OF kept read(3,4)] show ?thesis by (auto intro!: kept_external_stepped simp: map_filter_simps)
  next
    case drop
    with assms handle_drop_stepped show ?thesis by simp
  qed
qed

lemma poll_accept_post:
  assumes "poll_accept api w self = (r, self1)" "drives_are n (sv_chans self)" "0 < n" "server_ok self"
  shows "r = Panic p \<Longrightarrow> server_panic p" "(\<And>p. r \<noteq> Panic p) \<Longrightarrow> server_ok self1 \<and> responses_taken (sv_chans self) (sv_chans self1)"
    "(\<And>p. r \<noteq> Panic p) \<Longrightarrow> drives_are (case r of Ok (Some _) \<Rightarrow> n + 2 | _ \<Rightarrow> n) (sv_chans self1)"
    "r = Ok (Some ((req, rs, i), sr)) \<Longrightarrow> n = 1 \<and> delivered req rs i sr self1 \<and> i = sc_fresh (sv_chans self)"
proof -
  have "(\<forall>p. r = Panic p \<longrightarrow> server_panic p)
    \<and> ((\<forall>p. r \<noteq> Panic p) \<longrightarrow> server_ok self1 \<and> responses_taken (sv_chans self) (sv_chans self1)
         \<and> drives_are (case r of Ok (Some _) \<Rightarrow> n + 2 | _ \<Rightarrow> n) (sv_chans self1))
    \<and> (\<forall>req rs i sr. r = Ok (Some ((req, rs, i), sr)) \<longrightarrow> n = 1 \<and> delivered req rs i sr self1 \<and> i = sc_fresh (sv_chans self))"
    using assms(1-3)
  proof (cases rule: poll_accept_cases)
    case Busy
    with assms(2,4) show ?thesis by (auto simp: responses_taken_def drives_are_def)
  next
    case Free
    let ?s = "self\<lparr>sv_chans := drive_clone (sv_chans self)\<rparr>"
    have ok: "server_ok ?s" "drives_are (Suc n) (sv_chans ?s)" using assms(2,4) drives_clone(1) by simp_all
    have taken: "responses_taken (sv_chans self) c" if "responses_taken (drive_clone (sv_chans self)) c" for c
      using that by (simp add: responses_taken_def)
    have count: "drives_after True r (Suc n) = (case r of Ok (Some _) \<Rightarrow> n + 2 | _ \<Rightarrow> n)"
      by (simp add: drives_after_def split: res.split option.split)
    obtain t where t: "sv_drive api w True True ?s = (r, t)" "(\<forall>e. r \<noteq> Err e) \<longrightarrow> self1 = t"
      using Free(2) by (rule poll_server_drive)
    have "delivered req rs i sr self1 \<and> i = sc_fresh (sv_chans self)" if "r = Ok (Some ((req, rs, i), sr))" for req rs i sr
      using sv_drive_delivers[OF ok(1) t(1)[unfolded that]] t(2) that by auto
    moreover have "drives_are (case r of Ok (Some _) \<Rightarrow> n + 2 | _ \<Rightarrow> n) (sv_chans self1)" if "\<forall>p. r \<noteq> Panic p"
      using poll_server_post(4)[OF ok(1) Free(2) _ ok(2)] that unfolding count by blast
    ultimately show ?thesis using Free(1) poll_server_post(1-3)[OF ok(1) Free(2)] taken by auto
  qed
  then show "r = Panic p \<Longrightarrow> server_panic p" "(\<And>p. r \<noteq> Panic p) \<Longrightarrow> server_ok self1 \<and> responses_taken (sv_chans self) (sv_chans self1)"
    "(\<And>p. r \<noteq> Panic p) \<Longrightarrow> drives_are (case r of Ok (Some _) \<Rightarrow> n + 2 | _ \<Rightarrow> n) (sv_chans self1)"
    "r = Ok (Some ((req, rs, i), sr)) \<Longrightarrow> n = 1 \<and> delivered req rs i sr self1 \<and> i = sc_fresh (sv_chans self)" by blast+
qed

lemma sv_poll_close_cases:
  assumes "sv_poll_close api w self = (r, self1)"
  obtains q where "poll_server api w False True self = (q, self1)" "\<And>p. q \<noteq> Ok (Some p)"
    "r = Pending \<longleftrightarrow> q = Pending" "\<And>p. r = Panic p \<longleftrightarrow> q = Panic p"
proof -
  obtain q t where q: "poll_server api w False True self = (q, t)" by fastforce
  then have "t = self1 \<and> (r = Pending \<longleftrightarrow> q = Pending) \<and> (\<forall>p. r = Panic p \<longleftrightarrow> q = Panic p)"
    using assms by (cases q) (auto simp: sv_poll_close_def)
  with q poll_server_no_request[OF q] that show ?thesis by blast
qed

lemma server_step_ok:
  assumes "server_step api s s1" "system_ok s"
  shows "system_ok s1"
  using assms
proof (induction rule: server_step.induct)
  case (accept w sv req rs i sr sv1 hs)
  then have ok: "server_ok sv" "drives_are (all_drives hs) (sv_chans sv)" "one_response (sv_chans sv)" "responders_ok (sv_chans sv) hs"
    by (simp_all add: system_ok_def)
  note post = poll_accept_post[OF accept(1) ok(2) _ ok(1)]
  have taken: "responses_taken (sv_chans sv) (sv_chans sv1)" "server_ok sv1" "delivered req rs i sr sv1" "i = sc_fresh (sv_chans sv)"
    "drives_are (all_drives hs + 2) (sv_chans sv1)" using post(2-4) by auto
  have old: "\<forall>j \<in> set (List.map_filter responder hs). j < i" using ok(4) taken(4) by (simp add: responders_ok_def)
  have id: "sr_tx_res sr = i" "i < sc_fresh (sv_chans sv1)" "ch_queue (sc_res (sv_chans sv1) i) = []"
    using taken(3) by (auto simp: delivered_def Let_def receiver_new_def)
  have "responders_ok (sv_chans sv1) (Reader i rs # Responder sr # hs)"
    using responders_ok_taken[OF ok(4) taken(1)] id old by (auto simp: responders_ok_def map_filter_Cons)
  with taken ok(3) one_response_taken show ?case by (auto simp: system_ok_def add.commute)
next
  case (accept_nothing w sv r sv1 hs)
  then have ok: "server_ok sv" "drives_are (all_drives hs) (sv_chans sv)" "one_response (sv_chans sv)" "responders_ok (sv_chans sv) hs"
    by (simp_all add: system_ok_def)
  note post = poll_accept_post[OF accept_nothing(1) ok(2) _ ok(1)]
  have "server_ok sv1" "responses_taken (sv_chans sv) (sv_chans sv1)" "drives_are (all_drives hs) (sv_chans sv1)"
    using post(2,3) accept_nothing(2) by auto
  with ok one_response_taken responders_ok_taken show ?case by (auto simp: system_ok_def)
next
  case (close w sv r sv1 hs)
  then have ok: "server_ok sv" "drives_are (all_drives hs) (sv_chans sv)" "one_response (sv_chans sv)" "responders_ok (sv_chans sv) hs"
    by (simp_all add: system_ok_def)
  obtain q where q: "poll_server api w False True sv = (q, sv1)" "\<And>p. q \<noteq> Ok (Some p)" "\<And>p. r = Panic p \<longleftrightarrow> q = Panic p"
    using close(1) by (rule sv_poll_close_cases) blast
  have "drives_after False q n = n" for n using q(2) by (auto simp: drives_after_def split: res.split option.split)
  then have "server_ok sv1" "responses_taken (sv_chans sv) (sv_chans sv1)" "drives_are (all_drives hs) (sv_chans sv1)"
    using poll_server_post[OF ok(1) q(1)] ok(2) q(3) close(2) by auto
  with ok one_response_taken responders_ok_taken show ?case by (auto simp: system_ok_def)
next
  case (handle sv h sv1 hs1 xs ys)
  let ?n = "all_drives (xs @ h # ys)"
  have ok: "server_ok sv" "drives_are ?n (sv_chans sv)" "one_response (sv_chans sv)" "responders_ok (sv_chans sv) (xs @ h # ys)"
    using handle(2) by (simp_all add: system_ok_def)
  have empty: "ch_queue (sc_res (sv_chans sv) (sr_tx_res sr)) = []" if "h = Responder sr" for sr
    using ok(4) that by (simp add: responders_ok_def map_filter_append map_filter_Cons)
  have "handle_stepped ?n h (sv_chans sv) sv1 hs1"
    using handle_step_stepped[OF handle(1) ok(1,2) _ ok(3) empty] by simp
  then have st: "server_ok sv1" "drives_are (all_drives (xs @ hs1 @ ys)) (sv_chans sv1)" "one_response (sv_chans sv1)"
    "sc_fresh (sv_chans sv) \<le> sc_fresh (sv_chans sv1)" "List.map_filter responder hs1 = []"
    "\<And>j. responder h \<noteq> Some j \<Longrightarrow> suffix (ch_queue (sc_res (sv_chans sv1) j)) (ch_queue (sc_res (sv_chans sv) j))"
    by (auto simp: handle_stepped_def ac_simps)
  have "j < sc_fresh (sv_chans sv1) \<and> ch_queue (sc_res (sv_chans sv1) j) = []"
    if "j \<in> set (List.map_filter responder (xs @ ys))" for j
  proof -
    have "responder h \<noteq> Some j" using ok(4) that
      by (auto simp: responders_ok_def map_filter_append map_filter_Cons split: option.splits)
    moreover have "j < sc_fresh (sv_chans sv)" "ch_queue (sc_res (sv_chans sv) j) = []" using ok(4) that
      by (auto simp: responders_ok_def map_filter_append map_filter_Cons split: option.splits)
    ultimately show ?thesis using st(4) st(6)[of j] by simp
  qed
  moreover have "distinct (List.map_filter responder (xs @ ys))" using ok(4)
    by (auto simp: responders_ok_def map_filter_append map_filter_Cons split: option.splits)
  ultimately have "responders_ok (sv_chans sv1) (xs @ hs1 @ ys)"
    using st(5) by (simp add: responders_ok_def map_filter_append)
  with st show ?case by (simp add: system_ok_def)
qed

lemma server_reachable_ok: "server_reachable api s \<Longrightarrow> system_ok s"
  by (induction rule: server_reachable.induct) (auto simp: handshake_system dest: server_step_ok)

end
