(* ===== verification/Server_Properties.thy ===== *)
theory Server_Properties
  imports Server_System
begin

text \<open>
  The properties of the server: what holds in every state a connection and its handles can
  reach, and how a request, its body, the response and its body pass through it.
\<close>

section \<open>A connection to look at\<close>

lemma pending_pair: "(case fst p of Pending \<Rightarrow> True | _ \<Rightarrow> False) \<Longrightarrow> p = (Pending, snd p)"
  by (cases p) (auto split: res.splits)

text \<open>A request with a body of five bytes is read, then its body comes in two pieces.\<close>

definition wit_transport :: "rx_event list \<Rightarrow> transport" where
  "wit_transport rx = \<lparr>tr_rx = rx, tr_tx = [TxAccept 100, TxAccept 100], tr_flush = [CtlDone, CtlDone], tr_close = [],
     tr_sent = [], tr_flushed = 0, tr_closed = False\<rparr>"

definition wit_server :: server where
  "wit_server = sv_handshake (wit_transport [RxData wit_req_bytes, RxPending, RxData ''hel'', RxData ''lo''])"

definition wit_accepted :: server where
  "wit_accepted = snd (poll_accept wit_api 7 wit_server)"

definition wit_sr :: send_response where
  "wit_sr = \<lparr>sr_tx_res = 0, sr_req_expects_no_body = False\<rparr>"

lemma wit_delivers: "\<exists>req. poll_accept wit_api 7 wit_server = (Ok (Some ((req, recv_stream_new False, 0), wit_sr)), wit_accepted)"
proof -
  have "case fst (poll_accept wit_api 7 wit_server) of
      Ok (Some ((req, rs, i), sr)) \<Rightarrow> rs = recv_stream_new False \<and> i = 0 \<and> sr = wit_sr | _ \<Rightarrow> False"
    by code_simp
  then show ?thesis unfolding wit_accepted_def
    by (cases "poll_accept wit_api 7 wit_server") (auto split: res.splits option.splits)
qed

abbreviation wit_handles :: "server_handle list" where
  "wit_handles \<equiv> [Reader 0 (recv_stream_new False), Responder wit_sr]"

lemma wit_server_reachable: "server_reachable wit_api (wit_server, [])"
  unfolding wit_server_def by (rule server_reachable.start)

lemma wit_accepted_reachable: "server_reachable wit_api (wit_accepted, wit_handles)"
  using wit_delivers server_step.accept server_reachable.step[OF wit_server_reachable] by blast

section \<open>Every reachable state\<close>

text \<open>
  C12. The server keeps its invariant and its assertions hold. In every reachable state of a
  connection and the handles of its users, no call that drives the connection panics but for two
  reasons: the read buffer is full at its largest size, or a user answered with a version that
  cannot be written. None of the assertions of the server fails, its two
  unreachable branches are never reached, and after the call the connection is well-formed
  again, also when the call ended with an error.
\<close>

theorem server_safe:
  assumes "server_reachable api (sv, hs)"
  shows "(\<forall>p. fst (poll_accept api w sv) = Panic p \<longrightarrow> server_panic p)
    \<and> (\<forall>p. fst (sv_poll_close api w sv) = Panic p \<longrightarrow> server_panic p)
    \<and> (\<forall>p. fst (poll_drive_external api w sv) = Panic p \<longrightarrow> server_panic p)
    \<and> (\<forall>want reg r sv1. poll_server api w want reg sv = (r, sv1) \<longrightarrow> (\<forall>p. r \<noteq> Panic p) \<longrightarrow> server_ok sv1)"
proof -
  have ok: "server_ok sv" "drives_are (all_drives hs) (sv_chans sv)"
    using server_reachable_ok[OF assms] by (simp_all add: system_ok_def)
  have "server_panic p" if "fst (poll_accept api w sv) = Panic p" for p
    using poll_accept_post(1)[OF prod.collapse[symmetric] ok(2) _ ok(1)] that by simp
  moreover have "server_panic p" if "fst (sv_poll_close api w sv) = Panic p" for p
  proof -
    have "sv_poll_close api w sv = (Panic p, snd (sv_poll_close api w sv))" using that by (metis prod.collapse)
    then obtain q where "poll_server api w False True sv = (q, snd (sv_poll_close api w sv))" "\<And>p'. Panic p = Panic p' \<longleftrightarrow> q = Panic p'"
      by (rule sv_poll_close_cases) blast
    from poll_server_post(1)[OF ok(1) this(1)] this(2) show ?thesis by blast
  qed
  moreover have "server_panic p" if "fst (poll_drive_external api w sv) = Panic p" for p
    using poll_drive_external_post(1)[OF ok(1) prod.collapse[symmetric]] that by simp
  ultimately show ?thesis using poll_server_post(2)[OF ok(1)] by blast
qed

theorem server_safe_witness:
  "\<exists>sv1. poll_server wit_api 7 False True wit_accepted = (Pending, sv1) \<and> server_ok sv1"
proof -
  have eq: "poll_server wit_api 7 False True wit_accepted = (Pending, snd (poll_server wit_api 7 False True wit_accepted))"
    by (rule pending_pair) code_simp
  with server_safe[OF wit_accepted_reachable, of 7] show ?thesis by blast
qed

text \<open>
  C13. One request at a time. In every reachable state the count of the means to drive the
  connection is one more than those its users hold. So while a user holds a handle of the
  request in progress \<^verbatim>\<open>accept\<close> is pending, touches nothing but the channel it registers with,
  and any handle that is dropped wakes it; and a request is only delivered when all handles of the one
  before it are gone.
\<close>

theorem server_accept_exclusive:
  assumes "server_reachable api (sv, hs)"
  shows "count_external (sv_chans sv) = Suc (sum_list (map handle_drives hs))
    \<and> (hs \<noteq> [] \<longrightarrow> poll_accept api w sv = (Pending, sv\<lparr>sv_chans := (sv_chans sv)\<lparr>sc_ext :=
          (sc_ext (sv_chans sv))\<lparr>ch_wakers := ch_wakers (sc_ext (sv_chans sv)) @ [w]\<rparr>\<rparr>\<rparr>))
    \<and> (\<forall>p sv1. poll_accept api w sv = (Ok (Some p), sv1) \<longrightarrow> hs = [])
    \<and> (\<forall>h. set (ch_wakers (sc_ext (sv_chans sv))) \<subseteq> set (ch_woken (sc_ext (handle_drop h (sv_chans sv)))))"
proof -
  have ok: "drives_are (all_drives hs) (sv_chans sv)" using server_reachable_ok[OF assms] by (simp add: system_ok_def)
  have pos: "0 < handle_drives h" for h by (cases h) simp_all
  have one: "all_drives hs \<noteq> 1 \<longleftrightarrow> hs \<noteq> []" using pos by (cases hs) (simp_all add: all_drives_def)
  obtain r sv1 where r: "poll_accept api w sv = (r, sv1)" by fastforce
  have "(hs \<noteq> [] \<longrightarrow> poll_accept api w sv = (Pending, sv\<lparr>sv_chans := (sv_chans sv)\<lparr>sc_ext :=
          (sc_ext (sv_chans sv))\<lparr>ch_wakers := ch_wakers (sc_ext (sv_chans sv)) @ [w]\<rparr>\<rparr>\<rparr>))
    \<and> (\<forall>p sv1. poll_accept api w sv = (Ok (Some p), sv1) \<longrightarrow> hs = [])"
    using r ok all_drives_simps(3)
  proof (cases rule: poll_accept_cases)
    case Busy
    with r one show ?thesis by simp
  next
    case Free
    with one show ?thesis by blast
  qed
  moreover have "set (ch_wakers (sc_ext (sv_chans sv))) \<subseteq> set (ch_woken (sc_ext (handle_drop h (sv_chans sv))))" for h
    using ok by (cases h) (auto simp: drives_are_def send_response_drop_def send_stream_drop_def recv_stream_drop_def
        sender_drop_def sender_release_def sender_drop_body_def wake_all_def)
  moreover have "count_external (sv_chans sv) = Suc (sum_list (map handle_drives hs))"
    using ok by (simp add: count_external_def drives_are_def all_drives_def)
  ultimately show ?thesis by blast
qed

theorem server_accept_exclusive_witness:
  "count_external (sv_chans wit_accepted) = 3 \<and> fst (poll_accept wit_api 8 wit_accepted) = Pending"
proof -
  note all = server_accept_exclusive[OF wit_accepted_reachable, of 8]
  have "fst (poll_accept wit_api 8 wit_accepted) = Pending" unfolding all[THEN conjunct2, THEN conjunct1, rule_format, OF list.discI[OF refl]] by simp
  with all[THEN conjunct1] show ?thesis by simp
qed

text \<open>
  C15. A pending server will be woken. When \<^verbatim>\<open>accept\<close> or \<^verbatim>\<open>close\<close> is pending in a reachable
  state, its waker is where the next thing it needs will come from: the channel of the handles
  while there are any, otherwise the transport, which was asked and is pending itself, or the channel of
  the response, of its body or of the body of the request. A handle that drives the connection is only
  told to wait for the transport, and then that is pending.
\<close>

theorem server_wakes:
  assumes "server_reachable api (sv, hs)"
  shows "(\<forall>sv1. poll_accept api w sv = (Pending, sv1) \<longrightarrow>
        (if hs = [] then server_waiting w True sv1 else w \<in> set (ch_wakers (sc_ext (sv_chans sv1)))))
    \<and> (\<forall>sv1. sv_poll_close api w sv = (Pending, sv1) \<longrightarrow> server_waiting w True sv1)
    \<and> (\<forall>sv1. poll_drive_external api w sv = (Pending, sv1) \<longrightarrow> bi_pending_rx (sv_io sv1) \<or> bi_pending_tx (sv_io sv1))"
proof -
  have ok: "server_ok sv" "drives_are (all_drives hs) (sv_chans sv)"
    using server_reachable_ok[OF assms] by (simp_all add: system_ok_def)
  have pos: "0 < handle_drives h" for h by (cases h) simp_all
  have one: "all_drives hs = 1 \<longleftrightarrow> hs = []" using pos by (cases hs) (simp_all add: all_drives_def)
  have "if hs = [] then server_waiting w True sv1 else w \<in> set (ch_wakers (sc_ext (sv_chans sv1)))"
    if "poll_accept api w sv = (Pending, sv1)" for sv1
    using that ok(2) all_drives_simps(3)
  proof (cases rule: poll_accept_cases)
    case Busy
    with one show ?thesis by simp
  next
    case Free
    have "server_ok (sv\<lparr>sv_chans := drive_clone (sv_chans sv)\<rparr>)" using ok(1) by simp
    from poll_server_post(5)[OF this Free(2)] Free(1) one show ?thesis by simp
  qed
  moreover have "server_waiting w True sv1" if closing: "sv_poll_close api w sv = (Pending, sv1)" for sv1
  proof -
    obtain q where "poll_server api w False True sv = (q, sv1)" "Pending = (Pending :: unit res) \<longleftrightarrow> q = Pending"
      using closing by (rule sv_poll_close_cases) blast
    then show ?thesis using poll_server_post(5)[OF ok(1)] by simp
  qed
  moreover have "bi_pending_rx (sv_io sv1) \<or> bi_pending_tx (sv_io sv1)" if "poll_drive_external api w sv = (Pending, sv1)" for sv1
    using that by (rule poll_drive_external_cases) blast
  ultimately show ?thesis by blast
qed

theorem server_wakes_witness:
  "\<exists>sv1. sv_poll_close wit_api 7 wit_accepted = (Pending, sv1) \<and> server_waiting 7 True sv1"
proof -
  have eq: "sv_poll_close wit_api 7 wit_accepted = (Pending, snd (sv_poll_close wit_api 7 wit_accepted))"
    by (rule pending_pair) code_simp
  with server_wakes[OF wit_accepted_reachable, of 7] show ?thesis by blast
qed

section \<open>The response and its body\<close>

text \<open>
  C6. Responses and their bodies are written in order, once. In every reachable state, what a call
  has written, followed by what is still to be written (the head of the response when the
  user has sent it, and the pieces of its body up to the end flag), is what it was before; nothing
  is lost, repeated or reordered. When the call fails, what it has written is a
  beginning of that. The user must send nothing after the piece with the end flag.
\<close>

theorem server_sends_in_order:
  assumes "server_reachable api (sv, hs)" "ends_once (snd (answer sv))"
    and "poll_server api w want register sv = (r, sv1)" "\<forall>p. r \<noteq> Panic p"
  shows "prefix (out_stream (sv_io sv)) (out_stream (sv_io sv1))
    \<and> prefix (out_stream (sv_io sv1)) (out_stream (sv_io sv) @ answer_bytes (answer sv))
    \<and> ((\<forall>e. r \<noteq> Err e) \<longrightarrow>
         out_stream (sv_io sv1) @ answer_bytes (answer sv1) = out_stream (sv_io sv) @ answer_bytes (answer sv))"
proof -
  have "server_ok sv" "answer_ok sv" using server_reachable_ok[OF assms(1)] assms(2) by (simp_all add: system_ok_def answer_ok_def)
  from poll_server_sends[OF this assms(3,4)] show ?thesis by (simp add: handed_over_def progress_def)
qed

text \<open>The user of the example has answered, and sent the whole body of the response.\<close>

definition wit_answered :: server where
  "wit_answered = wit_accepted\<lparr>sv_chans := snd (send_response_start wit_res False wit_sr (sv_chans wit_accepted))\<rparr>"

lemma wit_start: "\<exists>ss. send_response_start wit_res False wit_sr (sv_chans wit_accepted)
    = (Inr (ss, 1), snd (send_response_start wit_res False wit_sr (sv_chans wit_accepted)))"
proof -
  have "case fst (send_response_start wit_res False wit_sr (sv_chans wit_accepted)) of Inr (ss, k) \<Rightarrow> k = 1 | Inl _ \<Rightarrow> False"
    by code_simp
  then obtain ss where "fst (send_response_start wit_res False wit_sr (sv_chans wit_accepted)) = Inr (ss, 1)"
    by (auto split: sum.splits)
  then show ?thesis by (metis prod.collapse)
qed

lemma wit_answered_step: "\<exists>hs. server_step wit_api (wit_accepted, wit_handles) (wit_answered, hs)"
proof -
  obtain ss where "handle_step wit_api wit_accepted (Responder wit_sr) wit_answered [Responding wit_sr (ss, 1)]"
    using wit_start handle_step.respond[of wit_res False wit_sr wit_accepted] unfolding wit_answered_def by metis
  then have "server_step wit_api (wit_accepted, [Reader 0 (recv_stream_new False)] @ Responder wit_sr # [])
      (wit_answered, [Reader 0 (recv_stream_new False)] @ [Responding wit_sr (ss, 1)] @ [])"
    by (rule server_step.handle)
  then show ?thesis by auto
qed

lemma wit_answered_reachable: "\<exists>hs. server_reachable wit_api (wit_answered, hs)"
  using wit_answered_step server_reachable.step[OF wit_accepted_reachable] by blast

theorem server_sends_in_order_witness:
  "\<exists>sv1. poll_server wit_api 7 False False wit_answered = (Pending, sv1) \<and> out_stream (sv_io sv1) = wit_res_bytes
     \<and> out_stream (sv_io sv1) @ answer_bytes (answer sv1) = out_stream (sv_io wit_answered) @ answer_bytes (answer wit_answered)"
proof -
  let ?p = "poll_server wit_api 7 False False wit_answered"
  obtain hs where reach: "server_reachable wit_api (wit_answered, hs)" using wit_answered_reachable by blast
  have eq: "?p = (Pending, snd ?p)"
    by (rule pending_pair) code_simp
  have "ends_once (snd (answer wit_answered))" "out_stream (sv_io (snd ?p)) = wit_res_bytes" by code_simp+
  with server_sends_in_order[OF reach _ eq] eq show ?thesis by blast
qed

text \<open>A call that returns has nothing left to write.\<close>

lemma server_round_returns:
  assumes "server_round api w want reg self = (Ok (Some p), self1)"
  shows "answer self1 = ([], [])"
  using assms
proof (cases rule: server_round_cases)
  case (Receive io q io1 c)
  from Receive(4) show ?thesis
  proof (cases rule: poll_next_req_cases)
    case (Request req)
    from Request(2) obtain b where "\<exists>p. q = Ok (p, SendRes b)" "sbi_rx_res b = Some (sc_fresh (sv_chans self))"
      "sc_res c = (sc_res (sv_chans self))(sc_fresh (sv_chans self) := receiver_new 1)"
      by (rule new_request_spec) blast
    with Receive(6) show ?thesis by (auto simp: answer_def exchange_answer_def receiver_new_def)
  qed (use Receive(5,6) in \<open>auto simp: answer_def\<close>)
qed (auto simp: answer_def)

lemma poll_server_returns: "poll_server api w want reg self = (Ok p, self1) \<Longrightarrow> answer self1 = ([], [])"
proof (erule poll_server_drive)
  fix s
  assume d: "sv_drive api w want reg self = (Ok p, s)" and s: "(\<forall>e. Ok p \<noteq> Err e) \<longrightarrow> self1 = s"
  have "case Ok p of Ok _ \<Rightarrow> answer s = ([], []) | _ \<Rightarrow> True"
    using d by (rule sv_drive_rule[where I = "\<lambda>_. True"]) (auto dest: server_round_returns)
  with s show "answer self1 = ([], [])" by simp
qed

text \<open>
  C17. The response to the request in progress is what is written next. When a user
  answers with the handle that was delivered with the request, the head of that response is all
  that is to be written, and it is not written twice: a call that returns has
  written exactly that head, and a call that is pending has written what is missing from what is
  left.
\<close>

theorem server_answers_request:
  assumes "server_reachable api (sv, hs)" "sv_state sv = SendRes b" "sbi_rx_res b = Some (sr_tx_res sr)" "Responder sr \<in> set hs"
    and "chan_open (sc_res (sv_chans sv) (sr_tx_res sr))" "send_response_start res no_body sr (sv_chans sv) = (r0, c)"
    and "poll_server api w want register (sv\<lparr>sv_chans := c\<rparr>) = (r, sv1)" "\<forall>p. r \<noteq> Panic p" "\<forall>e. r \<noteq> Err e"
  shows "answer (sv\<lparr>sv_chans := c\<rparr>) = (response_head res, [])
    \<and> out_stream (sv_io sv1) @ answer_bytes (answer sv1) = out_stream (sv_io sv) @ response_head res
    \<and> ((\<exists>p. r = Ok p) \<longrightarrow> out_stream (sv_io sv1) = out_stream (sv_io sv) @ response_head res)"
proof -
  let ?c = "sv_chans sv" and ?j = "sr_tx_res sr"
  let ?m = "(res, response_ended sr res no_body (lw_from_headers (res_headers res)), sc_fresh ?c)"
  have ok: "server_ok sv" "one_response ?c" using server_reachable_ok[OF assms(1)] by (simp_all add: system_ok_def)
  obtain xs ys where "hs = xs @ Responder sr # ys" using assms(4) split_list by metis
  then have empty: "ch_queue (sc_res ?c ?j) = []"
    using server_reachable_ok[OF assms(1)] by (simp add: system_ok_def responders_ok_def map_filter_append map_filter_Cons)
  obtain sent q where q: "sender_send ?m (sc_res ?c ?j) = (sent, q)" by fastforce
  have queue: "sent" "ch_queue q = [?m]" using mpsc.send_open[OF assms(5) q] empty by auto
  then have c: "sc_res c = (sc_res ?c)(?j := q)" "sc_out c (sc_fresh ?c) = receiver_new 1"
    using assms(6) q by (auto simp: send_response_start_def Let_def)
  have ans: "answer (sv\<lparr>sv_chans := c\<rparr>) = (response_head res, [])"
    using assms(2,3) queue(2) c by (simp add: answer_def exchange_answer_def receiver_new_def)
  moreover have "answer_ok (sv\<lparr>sv_chans := c\<rparr>)"
    using ok(2) queue(2) c(1) unfolding answer_ok_def ans by (auto simp: one_response_def)
  then have "handed_over True (progress (sv\<lparr>sv_chans := c\<rparr>)) (progress sv1)"
    using poll_server_sends[OF _ _ assms(7,8)] ok(1) assms(9) by simp
  then have "out_stream (sv_io sv1) @ answer_bytes (answer sv1) = out_stream (sv_io sv) @ response_head res"
    unfolding handed_over_def progress_def ans by (simp add: answer_bytes_def)
  moreover have "answer_bytes (answer sv1) = []" if "r = Ok p" for p
    using poll_server_returns[OF assms(7)[unfolded that]] by (simp add: answer_bytes_def)
  ultimately show ?thesis by auto
qed

theorem server_answers_request_witness:
  "\<exists>sv1. poll_server wit_api 7 False False wit_answered = (Pending, sv1)
     \<and> out_stream (sv_io sv1) @ answer_bytes (answer sv1) = out_stream (sv_io wit_accepted) @ response_head wit_res"
proof -
  let ?p = "poll_server wit_api 7 False False wit_answered"
  have eq: "?p = (Pending, snd ?p)"
    by (rule pending_pair) code_simp
  have "case sv_state wit_accepted of SendRes b \<Rightarrow> sbi_rx_res b = Some 0 | _ \<Rightarrow> False"
    "chan_open (sc_res (sv_chans wit_accepted) 0)" by code_simp+
  then obtain b where b: "sv_state wit_accepted = SendRes b" "sbi_rx_res b = Some (sr_tx_res wit_sr)"
    "chan_open (sc_res (sv_chans wit_accepted) (sr_tx_res wit_sr))" by (auto simp: wit_sr_def split: server_state.splits)
  have "Responder wit_sr \<in> set wit_handles" by simp
  from server_answers_request[OF wit_accepted_reachable b(1,2) this b(3) prod.collapse[symmetric] eq[unfolded wit_answered_def]] eq
  show ?thesis unfolding wit_answered_def by blast
qed

section \<open>The body of a request\<close>

text \<open>
  What can happen while a user reads the body \<open>i\<close>: a read with a buffer of a size, a call that drives the
  connection from anywhere else, an answer, and pieces of the body of a response. A history ends
  at the first error. Its result is what the user has read.
\<close>

datatype body_op =
    ReadBody nat
  | DriveConnection bool bool
  | Respond response bool send_response
  | SendPiece nat "bytes \<times> bool"

fun server_body_run :: "http_api \<Rightarrow> waker \<Rightarrow> nat \<Rightarrow> body_op list \<Rightarrow> recv_stream \<times> server \<Rightarrow> bytes \<times> (recv_stream \<times> server)" where
  "server_body_run api w i [] s = ([], s)"
| "server_body_run api w i (ReadBody n # ops) s = (case server_read api w i n s of
      (Ok bs, s1) \<Rightarrow> (case server_body_run api w i ops s1 of (out, s2) \<Rightarrow> (bs @ out, s2))
    | (Pending, s1) \<Rightarrow> server_body_run api w i ops s1
    | (_, s1) \<Rightarrow> ([], s1))"
| "server_body_run api w i (DriveConnection want reg # ops) (rs, sv) = (case poll_server api w want reg sv of
      (Ok _, sv1) \<Rightarrow> server_body_run api w i ops (rs, sv1)
    | (Pending, sv1) \<Rightarrow> server_body_run api w i ops (rs, sv1)
    | (_, sv1) \<Rightarrow> ([], (rs, sv1)))"
| "server_body_run api w i (Respond res no_body sr # ops) (rs, sv) =
     server_body_run api w i ops (rs, sv\<lparr>sv_chans := snd (send_response_start res no_body sr (sv_chans sv))\<rparr>)"
| "server_body_run api w i (SendPiece k m # ops) (rs, sv) =
     server_body_run api w i ops (rs, sv\<lparr>sv_chans := upd_out k (\<lambda>q. snd (sender_send m q)) (sv_chans sv)\<rparr>)"

definition stream_due :: "nat \<Rightarrow> recv_stream \<times> server \<Rightarrow> bytes" where
  "stream_due i = (\<lambda>(rs, sv). if rs_ended rs then [] else ready_bytes rs @ body_due i sv)"

definition stream_ok :: "nat \<Rightarrow> recv_stream \<times> server \<Rightarrow> bool" where
  "stream_ok i = (\<lambda>(rs, sv). server_ok sv \<and> body_ok i sv \<and> rs_ok (rs, sc_in (sv_chans sv) i))"

lemma rs_ok_chan: "rs_ok (rs, q) = rs_ok (rs, q')"
  by (simp add: rs_ok_def)

lemma server_read_body:
  assumes "stream_ok i (rs, sv)" "server_read api w i n (rs, sv) = (r, rs1, sv1)" "r = Pending \<or> (\<exists>bs. r = Ok bs)"
  shows "stream_ok i (rs1, sv1) \<and> stream_due i (rs, sv) = (case r of Ok bs \<Rightarrow> bs | _ \<Rightarrow> []) @ stream_due i (rs1, sv1)
    \<and> (rs_ended rs1 \<longrightarrow> stream_due i (rs, sv) = (case r of Ok bs \<Rightarrow> bs | _ \<Rightarrow> []))"
proof -
  have n: "n \<noteq> 0" using assms(2,3) by (cases "n = 0") (auto simp: server_read_def rs_poll_read_def)
  obtain q t where q: "poll_drive_external api w sv = (q, t)" by fastforce
  have ne: "\<forall>p. q \<noteq> Panic p" "\<forall>e. q \<noteq> Err e"
    using assms(2,3) q n by (cases q; auto simp: server_read_def rs_poll_read_def poll_drive_server_def)+
  obtain q1 where q1: "poll_server api w False False sv = (q1, t)" "\<And>e. q = Err e \<longleftrightarrow> q1 = Err e" "\<And>p. q = Panic p \<longleftrightarrow> q1 = Panic p"
    using q by (rule poll_drive_external_cases) blast
  have sv: "server_ok sv" "body_ok i sv" "rs_ok (rs, sc_in (sv_chans t) i)"
    using assms(1) rs_ok_chan by (auto simp: stream_ok_def)
  have t: "server_ok t" "body_ok i t" "body_due i t = body_due i sv"
    using poll_server_post(2)[OF sv(1) q1(1)] poll_server_body(1,3)[OF sv(1,2) q1(1)] ne q1(2,3) by auto
  show ?thesis
  proof (cases "q = Ok ()")
    case False
    then have "r = Pending" "rs1 = rs" "sv1 = t" using assms(2) q ne n
      by (cases q; auto simp: server_read_def rs_poll_read_def poll_drive_server_def)+
    with t sv show ?thesis by (auto simp: stream_ok_def stream_due_def)
  next
    case True
    obtain x rs2 rx where x: "poll_body_data w n (rs, sc_in (sv_chans t) i) = (x, rs2, rx)" by (metis prod_cases3)
    have eq: "r = x" "rs1 = rs2" "sv1 = t\<lparr>sv_chans := upd_in i (\<lambda>_. rx) (sv_chans t)\<rparr>"
      using assms(2) q True n x by (simp_all add: server_read_def rs_poll_read_def poll_drive_server_def)
    show ?thesis
    proof (cases "rs_ended rs")
      case True
      then have "x = Ok []" "rs2 = rs" "rx = sc_in (sv_chans t) i" using x by (simp_all add: poll_body_data_def)
      with eq t sv True show ?thesis by (auto simp: stream_ok_def stream_due_def)
    next
      case False
      let ?q = "sc_in (sv_chans t) i"
      have open1: "chan_open ?q" "\<forall>m \<in> set (ch_queue ?q). \<exists>v. m = Inr v" "ch_senders ?q = (if feeds i t then 1 else 0)"
        using t(2) by (auto simp: body_ok_def stream_open_def)
      note keeps = poll_body_data_keeps[OF sv(3) False open1(1,2) x]
      let ?feed = "case sv_state t of SendRes b \<Rightarrow> body_feed i b (sv_io t) | _ \<Rightarrow> []"
      have due: "body_due i sv1 = chunk_bytes (ch_queue rx) @ ?feed" using eq(3) by (simp add: body_due_def cong: server_state.case_cong)
      have "feeds i sv1 = feeds i t" using eq(3) by (simp add: feeds_def)
      then have "body_ok i sv1" using t(2) eq(3) keeps open1 by (auto simp: body_ok_def stream_open_def)
      moreover have feed: "?feed = []" if "rs_ended rs2"
        using keeps that open1(3) by (auto simp: feeds_def body_feed_def split: server_state.split if_splits)
      have stream: "rs_stream (rs, ?q) = ready_bytes rs @ chunk_bytes (ch_queue ?q)" using False by (simp add: rs_stream_def)
      have "body_due i sv = chunk_bytes (ch_queue ?q) @ ?feed" using t(3) by (simp add: body_due_def)
      with stream False keeps feed due eq(1,2)
      have "stream_due i (rs, sv) = (case r of Ok bs \<Rightarrow> bs | _ \<Rightarrow> []) @ stream_due i (rs1, sv1)"
        by (auto simp: stream_due_def rs_stream_def split: if_splits)
      moreover have "stream_due i (rs1, sv1) = []" if "rs_ended rs1" using that by (simp add: stream_due_def)
      ultimately show ?thesis using t(1) eq keeps rs_ok_chan by (auto simp: stream_ok_def)
    qed
  qed
qed

lemma stream_chans:
  assumes "stream_ok i (rs, sv)" "sc_in c = sc_in (sv_chans sv)" "sc_fresh (sv_chans sv) \<le> sc_fresh c"
  shows "stream_ok i (rs, sv\<lparr>sv_chans := c\<rparr>)" "stream_due i (rs, sv\<lparr>sv_chans := c\<rparr>) = stream_due i (rs, sv)"
  using assms body_chans[OF assms(2,3)] by (auto simp: stream_ok_def stream_due_def)

lemma send_response_start_in:
  assumes "send_response_start res no_body sr c = (r, c1)"
  shows "sc_in c1 = sc_in c" "sc_fresh c \<le> sc_fresh c1"
  using assms
  by (auto simp: send_response_start_def Let_def send_response_drop_def send_stream_drop_def split: prod.splits bool.splits)

lemma server_body_run_spec:
  assumes "stream_ok i s" "server_body_run api w i ops s = (out, s1)"
  shows "prefix out (stream_due i s) \<and> (rs_ended (fst s1) \<longrightarrow> out = stream_due i s)"
  using assms
proof (induction ops arbitrary: s out)
  case Nil
  then show ?case by (cases s) (auto simp: stream_due_def)
next
  case (Cons x ops)
  obtain rs sv where s: "s = (rs, sv)" by fastforce
  have ok: "server_ok sv" "body_ok i sv" using Cons.prems(1) s by (auto simp: stream_ok_def)
  show ?case
  proof (cases x)
    case (ReadBody n)
    obtain r rs2 sv2 where r: "server_read api w i n (rs, sv) = (r, rs2, sv2)" by (metis prod_cases3)
    show ?thesis
    proof (cases "r = Pending \<or> (\<exists>bs. r = Ok bs)")
      case True
      note body = server_read_body[OF Cons.prems(1)[unfolded s] r True]
      obtain out2 where "server_body_run api w i ops (rs2, sv2) = (out2, s1)" "out = (case r of Ok bs \<Rightarrow> bs | _ \<Rightarrow> []) @ out2"
        using Cons.prems(2) s ReadBody r True by (auto split: prod.splits)
      with Cons.IH[of "(rs2, sv2)" out2] body s show ?thesis by auto
    next
      case False
      then have out: "out = []" "s1 = (rs2, sv2)" using Cons.prems(2) s ReadBody r by (cases r; simp)+
      have "rs2 = rs \<or> \<not> rs_ended rs2"
      proof (cases "rs_ended rs2")
        case True
        have rd: "r \<noteq> Ok []" using False by blast
        then show ?thesis using r False True
          by (auto simp: server_read_def rs_poll_read_def poll_drive_server_def poll_body_data_def ship_ready_def Let_def
              split: if_splits res.splits prod.splits option.splits sum.splits)
      qed simp
      with out s show ?thesis by (auto simp: stream_due_def)
    qed
  next
    case (DriveConnection want reg)
    obtain r sv2 where r: "poll_server api w want reg sv = (r, sv2)" by fastforce
    show ?thesis
    proof (cases "r = Pending \<or> (\<exists>p. r = Ok p)")
      case True
      then have good: "\<forall>p. r \<noteq> Panic p" "\<forall>e. r \<noteq> Err e" by auto
      have "server_ok sv2" "body_ok i sv2" "body_due i sv2 = body_due i sv"
        using poll_server_post(2)[OF ok(1) r] poll_server_body(1,3)[OF ok r] good by auto
      then have "stream_ok i (rs, sv2)" "stream_due i (rs, sv2) = stream_due i s"
        using Cons.prems(1) s rs_ok_chan by (auto simp: stream_ok_def stream_due_def)
      moreover have "server_body_run api w i ops (rs, sv2) = (out, s1)"
        using Cons.prems(2) s DriveConnection r True by auto
      ultimately show ?thesis using Cons.IH by metis
    next
      case False
      then have "out = []" "s1 = (rs, sv2)" using Cons.prems(2) s DriveConnection r by (cases r; simp)+
      with s show ?thesis by (auto simp: stream_due_def)
    qed
  next
    case (Respond res no_body sr)
    let ?c = "snd (send_response_start res no_body sr (sv_chans sv))"
    note frame = send_response_start_in[of res no_body sr "sv_chans sv", OF prod.collapse[symmetric]]
    note keep = stream_chans[OF Cons.prems(1)[unfolded s] frame]
    have "server_body_run api w i ops (rs, sv\<lparr>sv_chans := ?c\<rparr>) = (out, s1)" using Cons.prems(2) s Respond by simp
    with Cons.IH[OF keep(1)] keep(2) s show ?thesis by simp
  next
    case (SendPiece k m)
    let ?c = "upd_out k (\<lambda>q. snd (sender_send m q)) (sv_chans sv)"
    have keep: "stream_ok i (rs, sv\<lparr>sv_chans := ?c\<rparr>)" "stream_due i (rs, sv\<lparr>sv_chans := ?c\<rparr>) = stream_due i (rs, sv)"
      using stream_chans[of i rs sv ?c] Cons.prems(1) s by simp_all
    have "server_body_run api w i ops (rs, sv\<lparr>sv_chans := ?c\<rparr>) = (out, s1)" using Cons.prems(2) s SendPiece by simp
    with Cons.IH[OF keep(1)] keep(2) s show ?thesis by simp
  qed
qed

lemma no_body_stream: "lr_is_no_body (lr_from_headers hs srv) \<Longrightarrow> lr_stream (lr_from_headers hs srv, io) = []"
  by (auto simp: lr_from_headers_def lr_is_no_body_def lr_stream_def clr_left_def clr_new_def split: option.splits if_splits)

lemma delivered_stream:
  assumes "delivered req rs i sr sv" "server_ok sv" "unmixed (lr_from_headers (req_headers req) False, sv_io sv)"
  shows "stream_ok i (rs, sv)" "stream_due i (rs, sv) = lr_stream (lr_from_headers (req_headers req) False, sv_io sv)"
proof -
  let ?l = "lr_from_headers (req_headers req) False" and ?c = "sv_chans sv"
  obtain b where b: "sv_state sv = SendRes b" "sbi_limit b = ?l" "sbi_tx_body b = (if lr_is_no_body ?l then None else Some i)"
    "rs = recv_stream_new (lr_is_no_body ?l)" "sc_fresh ?c = Suc i"
    "sc_in ?c i = (if lr_is_no_body ?l then sender_drop (receiver_new 1) else receiver_new 1)"
    using assms(1) by (auto simp: delivered_def Let_def)
  have q: "stream_open (sc_in ?c i) (if lr_is_no_body ?l then 0 else 1)" "ch_queue (sc_in ?c i) = []"
  proof -
    have new: "stream_open (receiver_new 1) 1" "ch_queue (receiver_new 1) = []" by (simp_all add: stream_open_def receiver_new_def chan_open_def)
    then show "stream_open (sc_in ?c i) (if lr_is_no_body ?l then 0 else 1)" "ch_queue (sc_in ?c i) = []"
      using b(6) stream_open_drop[OF new(1)] by (auto simp: sender_drop_frame)
  qed
  show "stream_ok i (rs, sv)"
    using q b assms(2,3) by (cases "lr_is_no_body ?l") (simp_all add: stream_ok_def body_ok_def feeds_def rs_ok_def recv_stream_new_def)
  show "stream_due i (rs, sv) = lr_stream (?l, sv_io sv)"
    using q b no_body_stream[of "req_headers req" False "sv_io sv"]
    by (simp add: stream_due_def body_due_def body_feed_def recv_stream_new_def ready_bytes_def)
qed

text \<open>
  C7. The body of a request whose bytes are not mixed with those of the next request reaches its user, and its end is
  told only when all of it has. Let \<^verbatim>\<open>accept\<close> have delivered a request and, if the body has a \<^verbatim>\<open>content-length\<close>, let
  nothing follow the body in what the connection still has to read: a client that waits for the response before it
  sends its next request. (For one that does not, the statement is false: \<open>server_over_read\<close>.) The user reads
  with buffers of any sizes while the connection is driven from anywhere, and the response and its body are
  sent. What the user has read is a beginning of the body that the headers announce; and once the stream has
  reported its end, it is exactly that body.
\<close>

theorem server_body_fifo:
  assumes "server_reachable api (sv0, hs)" "poll_accept api w sv0 = (Ok (Some ((req, rs, i), sr)), sv)"
    and "unmixed (lr_from_headers (req_headers req) False, sv_io sv)"
    and "server_body_run api w2 i ops (rs, sv) = (out, s1)"
  shows "prefix out (lr_stream (lr_from_headers (req_headers req) False, sv_io sv))
    \<and> (is_end_stream (fst s1) \<longrightarrow> out = lr_stream (lr_from_headers (req_headers req) False, sv_io sv))"
proof -
  have ok: "server_ok sv0" "drives_are (all_drives hs) (sv_chans sv0)"
    using server_reachable_ok[OF assms(1)] by (simp_all add: system_ok_def)
  have "server_ok sv" "delivered req rs i sr sv"
    using poll_accept_post(2)[OF assms(2) ok(2) _ ok(1)] poll_accept_post(4)[OF assms(2) ok(2) _ ok(1)] by auto
  note start = delivered_stream[OF this(2,1) assms(3)]
  show ?thesis using server_body_run_spec[OF start(1) assms(4)] unfolding start(2) is_end_stream_def .
qed

theorem server_body_fifo_witness:
  "\<exists>out s1. server_body_run wit_api 8 0 [ReadBody 9, ReadBody 2, ReadBody 9, ReadBody 9, ReadBody 9] (recv_stream_new False, wit_accepted) = (out, s1) \<and> out = ''hello'' \<and> is_end_stream (fst s1)"
proof -
  let ?ops = "[ReadBody 9, ReadBody 2, ReadBody 9, ReadBody 9, ReadBody 9]"
  let ?s = "(recv_stream_new False, wit_accepted)"
  obtain out s1 where run: "server_body_run wit_api 8 0 ?ops ?s = (out, s1)" by (metis surj_pair)
  have "case fst (poll_accept wit_api 7 wit_server) of
      Ok (Some ((req, rs, i), sr)) \<Rightarrow> unmixed (lr_from_headers (req_headers req) False, sv_io wit_accepted)
        \<and> lr_stream (lr_from_headers (req_headers req) False, sv_io wit_accepted) = ''hello'' | _ \<Rightarrow> False"
    by code_simp
  then obtain req where req: "poll_accept wit_api 7 wit_server = (Ok (Some ((req, recv_stream_new False, 0), wit_sr)), wit_accepted)"
    "unmixed (lr_from_headers (req_headers req) False, sv_io wit_accepted)"
    "lr_stream (lr_from_headers (req_headers req) False, sv_io wit_accepted) = ''hello''"
    using wit_delivers by auto
  have ends: "is_end_stream (fst (snd (server_body_run wit_api 8 0 ?ops ?s)))" by code_simp
  with server_body_fifo[OF wit_server_reachable req(1,2) run] run req(3) show ?thesis by simp
qed

end
