(* ===== verification/Server_Invariant.thy ===== *)
theory Server_Invariant
  imports Server_System
begin

text \<open>
  The rules by which a fact about a connection and its state is carried through the system of the connection and the
  handles of its users: what every call that drives the connection keeps, every step keeps, and it holds in every
  reachable state when it holds at the start.
\<close>

section \<open>Facts and invariants of a connection, whatever its users hold\<close>

locale connection_fact =
  fixes api :: http_api and inv :: "server \<Rightarrow> bool"
  assumes chans: "inv (sv\<lparr>sv_chans := c\<rparr>) = inv sv"
    and poll: "server_ok sv \<Longrightarrow> one_response (sv_chans sv) \<Longrightarrow> inv sv \<Longrightarrow> poll_server api w want reg sv = (r, sv1) \<Longrightarrow> \<forall>p. r \<noteq> Panic p \<Longrightarrow> inv sv1"
begin

definition kept :: "server \<Rightarrow> bool" where
  "kept sv \<longleftrightarrow> server_ok sv \<and> one_response (sv_chans sv) \<and> inv sv"

lemma drive:
  assumes "kept sv" "poll_drive_external api w sv = (r, sv1)" "\<forall>p. r \<noteq> Panic p"
  shows "kept sv1"
proof -
  obtain q where q: "poll_server api w False False sv = (q, sv1)" "\<And>p. r = Panic p \<longleftrightarrow> q = Panic p"
    using assms(2) by (rule poll_drive_external_cases) blast
  have sv: "server_ok sv" "one_response (sv_chans sv)" "inv sv" using assms(1) by (simp_all add: kept_def)
  have "inv sv1" using poll[OF sv q(1)] q(2) assms(3) by blast
  with poll_drive_external_post(2,3)[OF sv(1) assms(2)] one_response_taken[OF sv(2)] assms(3) show ?thesis by (simp add: kept_def)
qed

lemma kept_chans: "sc_res c = sc_res (sv_chans sv) \<Longrightarrow> kept (sv\<lparr>sv_chans := c\<rparr>) = kept sv"
  by (simp add: kept_def server_ok_def chans one_response_def)

lemma keptD: "kept sv \<Longrightarrow> inv sv" by (simp add: kept_def)

lemma handle_step_keeps:
  assumes "handle_step api sv h sv1 hs1" "kept sv"
  shows "inv sv1"
  using assms
proof (induction rule: handle_step.induct)
  case (responding w sr send sv1)
  then show ?case using drive[of sv w _ sv1]
    by (auto simp: send_response_drive_def keptD split: prod.splits res.splits)
next
  case (responded w sr send ss k sv1)
  obtain q t where q: "poll_drive_external api w sv = (q, t)" by fastforce
  with responded drive[of sv w q t] show ?case by (cases q) (auto simp: send_response_drive_def chans keptD)
next
  case (responding_fails w sr send e sv1)
  obtain q t where q: "poll_drive_external api w sv = (q, t)" by fastforce
  with responding_fails drive[of sv w q t] show ?case by (cases q) (auto simp: send_response_drive_def chans keptD)
next
  case (sending w k eob phase data ss phase1 data1 ss1 sv1)
  have "kept sv1"
    by (rule do_send_keeps[where P = kept, OF drive _ sending(1)[unfolded server_send_def]])
      (use sending in \<open>auto simp: kept_chans\<close>)
  then show ?case by (rule keptD)
next
  case (sent w k eob phase data ss res phase1 data1 ss1 sv1)
  have "kept sv1"
    by (rule do_send_keeps[where P = kept, OF drive _ sent(1)[unfolded server_send_def]])
      (use sent in \<open>auto simp: kept_chans\<close>)
  then show ?case by (rule keptD)
next
  case (read w i n rs r sv1 rs1)
  obtain q t where q: "poll_drive_external api w sv = (q, t)" by fastforce
  have "n \<noteq> 0" using read(1,2) by (cases "n = 0") (auto simp: server_read_def rs_poll_read_def)
  with read q drive[of sv w q t] show ?case
    by (cases q) (auto simp: server_read_def rs_poll_read_def poll_drive_server_def chans keptD split: prod.splits)
qed (simp_all add: chans keptD)

lemma accept_keeps:
  assumes "poll_accept api w sv = (r, sv1)" "system_ok (sv, hs)" "inv sv" "\<forall>p. r \<noteq> Panic p"
  shows "inv sv1"
proof -
  have ok: "server_ok sv" "drives_are (all_drives hs) (sv_chans sv)" "0 < all_drives hs" "one_response (sv_chans sv)"
    using assms(2) by (simp_all add: system_ok_def all_drives_def)
  from assms(1) ok(2,3) show ?thesis
  proof (cases rule: poll_accept_cases)
    case Busy
    show ?thesis unfolding Busy(3) chans by (rule assms(3))
  next
    case Free
    with poll[OF _ _ _ Free(2)] ok(1,4) assms(3,4) show ?thesis by (simp add: chans one_response_def)
  qed
qed

lemma step_keeps:
  assumes "server_step api s s1" "system_ok s" "inv (fst s)"
  shows "inv (fst s1)"
  using assms
proof (induction rule: server_step.induct)
  case (accept w sv req rs i sr sv1 hs)
  then show ?case using accept_keeps[OF accept(1,2)] by simp
next
  case (accept_nothing w sv r sv1 hs)
  then show ?case using accept_keeps[OF accept_nothing(1,3)] by auto
next
  case (close w sv r sv1 hs)
  obtain q where "poll_server api w False True sv = (q, sv1)" "\<And>p. r = Panic p \<longleftrightarrow> q = Panic p"
    using close(1) by (rule sv_poll_close_cases) blast
  with close poll show ?case by (auto simp: system_ok_def)
next
  case (handle sv h sv1 hs1 xs ys)
  then show ?case using handle_step_keeps[OF handle(1)] by (simp add: system_ok_def kept_def)
qed

lemma run_keeps:
  assumes "(server_step api)\<^sup>*\<^sup>* s s1" "system_ok s" "inv (fst s)"
  shows "system_ok s1 \<and> inv (fst s1)"
  using assms
proof (induction rule: rtranclp_induct)
  case (step t u)
  with server_step_ok[OF step(2)] step_keeps[OF step(2)] show ?case by blast
qed simp

end

locale connection_invariant = connection_fact +
  assumes handshake: "inv (sv_handshake t)"
begin

lemma reachable: "server_reachable api s \<Longrightarrow> inv (fst s)"
  by (induction rule: server_reachable.induct) (auto simp: handshake intro: step_keeps server_reachable_ok)

end

end
