(* ===== verification/Server_Protocol.thy ===== *)
theory Server_Protocol
  imports Server_Properties Server_Invariant
begin

text \<open>
  The protocol the server follows, and that it does: an abstract machine that exchanges one
  request after the other, with what is written and what is passed on as part of its state, and the simulation of every
  call that drives the connection by it.
\<close>

section \<open>The protocol\<close>

text \<open>
  The user of a request has not answered yet, or has handed over a response that is still to be written,
  or that response is written. A response comes with the pieces of its body that are there, or has none.
\<close>

type_synonym pieces = "(bytes \<times> bool) list"

datatype reply =
    Awaited
  | Given bytes "pieces option"
  | Written "pieces option"

text \<open>The body of the request is received, or still on its way with what is missing of it, when it is tracked.\<close>

datatype upload =
    Received
  | Untracked
  | Due bytes

text \<open>
  The connection waits for a request, or one is exchanged (the flag says whether the connection may be used again
  after it), or the body of its response is sent, or the connection is over. The state of the protocol is the output so far, what has
  been passed on of the body of the request and is not yet taken, and the phase.
\<close>

datatype phase =
    Free
  | Exchanging bool reply upload
  | Answering bool pieces
  | Over

type_synonym protocol = "bytes \<times> bytes \<times> phase"

definition after_answer :: "bool \<Rightarrow> phase" where
  "after_answer u = (if u then Free else Over)"

text \<open>
  The steps of the connection; those of its users, who hand over responses and pieces, are not among them. Nothing
  but a response that was handed over leads on from an exchange, nothing but its head is written
  then, and a body is over with the piece that carries the end flag. That flag may be lost (the protocol allows it
  because the code does it, as \<open>server_lost_end\<close> of the theory \<open>Server_Faults\<close> shows): then the answer is not over.
\<close>

inductive protocol_step :: "protocol \<Rightarrow> protocol \<Rightarrow> bool" where
  respond: "protocol_step (out, got, Exchanging u (Given head body) up) (out @ head, got, Exchanging u (Written body) up)"
| receive: "protocol_step (out, got, Exchanging u a (Due (bs @ rest))) (out, got @ bs, Exchanging u a (Due rest))"
| received: "protocol_step (out, got, Exchanging u a (Due [])) (out, got, Exchanging u a Received)"
| received_untracked: "protocol_step (out, got, Exchanging u a Untracked) (out, got, Exchanging u a Received)"
| no_body: "protocol_step (out, got, Exchanging u (Written None) Received) (out, got, after_answer u)"
| body: "protocol_step (out, got, Exchanging u (Written (Some ps)) Received) (out, got, Answering u ps)"
| piece: "protocol_step (out, got, Answering u ((bs, eob) # ps)) (out @ bs, got, Answering u ps)"
| last_piece: "protocol_step (out, got, Answering u ((bs, True) # ps)) (out @ bs, got, after_answer u)"
| hang_up: "protocol_step (out, got, Free) (out, got, Over)"

inductive_cases exchange_step: "protocol_step (out, got, Exchanging u a up) s"
inductive_cases answer_step: "protocol_step (out, got, Answering u ps) s"
inductive_cases free_step: "protocol_step (out, got, Free) s"
inductive_cases over_step: "protocol_step (out, got, Over) s"

lemmas protocol_steps = exchange_step answer_step free_step over_step

text \<open>
  What the protocol says: an exchange nobody has answered goes nowhere. One with an answer is
  over only when the head of that answer and its body up to a piece with the end flag are written,
  the whole body of the request is passed on, and the connection may be used again.
\<close>

lemma protocol_awaits:
  assumes "protocol_step\<^sup>*\<^sup>* (out, got, Exchanging u Awaited up) s"
  shows "\<exists>got1 up1. s = (out, got1, Exchanging u Awaited up1)"
  using assms by (induction rule: rtranclp_induct) (auto elim: exchange_step)

definition wrote_answer :: "bytes \<Rightarrow> pieces option \<Rightarrow> bytes \<Rightarrow> bool" where
  "wrote_answer head body bs \<longleftrightarrow> (case body of
      None \<Rightarrow> bs = head
    | Some ps \<Rightarrow> \<exists>ps1 p ps2. ps = ps1 @ (p, True) # ps2 \<and> bs = head @ concat (map fst ps1) @ p)"

lemma protocol_answers:
  assumes "protocol_step\<^sup>*\<^sup>* (out, got, Exchanging u (Given head body) (Due due)) (out1, got1, Free)"
  shows "u \<and> got1 = got @ due \<and> (\<exists>bs. out1 = out @ bs \<and> wrote_answer head body bs)"
proof -
  have "case s of (out1, got1, ph) \<Rightarrow> (case ph of
      Exchanging u1 a up \<Rightarrow> u1 = u \<and> (case a of Awaited \<Rightarrow> False | Given h b \<Rightarrow> h = head \<and> b = body \<and> out1 = out
            | Written b \<Rightarrow> b = body \<and> out1 = out @ head)
          \<and> (case up of Received \<Rightarrow> got1 = got @ due | Untracked \<Rightarrow> False | Due rest \<Rightarrow> got1 @ rest = got @ due)
    | Answering u1 ps \<Rightarrow> u1 = u \<and> got1 = got @ due \<and> (\<exists>ps1. body = Some (ps1 @ ps) \<and> out1 = out @ head @ concat (map fst ps1))
    | Free \<Rightarrow> u \<and> got1 = got @ due \<and> (\<exists>bs. out1 = out @ bs \<and> wrote_answer head body bs)
    | Over \<Rightarrow> True)"
    if "protocol_step\<^sup>*\<^sup>* (out, got, Exchanging u (Given head body) (Due due)) s" for s
    using that
  proof (induction rule: rtranclp_induct)
    case (step s t)
    show ?case
      using step(2,3)
    proof (cases rule: protocol_step.cases)
      case (piece out2 got2 u2 bs eob ps)
      with step(3) obtain ps1 where "body = Some (ps1 @ (bs, eob) # ps)" "out2 = out @ head @ concat (map fst ps1)" by auto
      with piece step(3) show ?thesis by (auto intro!: exI[of _ "ps1 @ [(bs, eob)]"])
    next
      case (last_piece out2 got2 u2 bs ps)
      with step(3) obtain ps1 where "body = Some (ps1 @ (bs, True) # ps)" "out2 = out @ head @ concat (map fst ps1)" by auto
      with last_piece step(3) show ?thesis by (auto simp: after_answer_def wrote_answer_def)
    qed (auto simp: after_answer_def wrote_answer_def split: reply.splits)
  qed simp
  from this[OF assms] show ?thesis by simp
qed

section \<open>A connection as a state of the protocol\<close>

definition body_of :: "bool \<Rightarrow> limit_write \<Rightarrow> nat \<Rightarrow> server_chans \<Rightarrow> pieces option" where
  "body_of no_body limit k c = (if no_body \<or> lw_is_no_body limit then None else Some (ch_queue (sc_out c k)))"

definition reply_of :: "server_bidirect \<Rightarrow> server_chans \<Rightarrow> reply" where
  "reply_of b c = (case sbi_rx_res b of
      Some j \<Rightarrow> (case ch_queue (sc_res c j) of
          [] \<Rightarrow> Awaited
        | (res, no_body, k) # _ \<Rightarrow> Given (response_head res) (body_of no_body (lw_from_headers (res_headers res)) k c))
    | None \<Rightarrow> Written (case sbi_holder b of Some (no_body, limit, k) \<Rightarrow> body_of no_body limit k c | None \<Rightarrow> None))"

text \<open>The body of a request is tracked by the number of its stream, or not.\<close>

definition upload_of :: "nat option \<Rightarrow> server_bidirect \<Rightarrow> buf_io \<Rightarrow> upload" where
  "upload_of t b io = (case sbi_tx_body b of
      None \<Rightarrow> Received
    | Some _ \<Rightarrow> (case t of None \<Rightarrow> Untracked | Some _ \<Rightarrow> Due (lr_stream (sbi_limit b, io))))"

definition passed_on :: "nat option \<Rightarrow> server_chans \<Rightarrow> bytes" where
  "passed_on t c = (case t of None \<Rightarrow> [] | Some i \<Rightarrow> chunk_bytes (ch_queue (sc_in c i)))"

definition exchange_phase :: "nat option \<Rightarrow> exchange \<Rightarrow> phase" where
  "exchange_phase t = (\<lambda>(b, io, c). Exchanging (sbi_request_allows_reuse b) (reply_of b c) (upload_of t b io))"

definition exchange_protocol :: "nat option \<Rightarrow> exchange \<Rightarrow> protocol" where
  "exchange_protocol t = (\<lambda>(b, io, c). (out_stream io, passed_on t c, exchange_phase t (b, io, c)))"

definition protocol_of :: "nat option \<Rightarrow> server \<Rightarrow> protocol" where
  "protocol_of t self = (out_stream (sv_io self), passed_on t (sv_chans self), (case sv_state self of
      RecvReq \<Rightarrow> Free
    | SendRes b \<Rightarrow> exchange_phase t (b, sv_io self, sv_chans self)
    | SendBody s \<Rightarrow> Answering (bs_request_allows_reuse s) (ch_queue (sc_out (sv_chans self) (bs_rx_body s)))
    | Closed \<Rightarrow> Over))"



lemmas protocol_defs = protocol_of_def exchange_protocol_def exchange_phase_def

section \<open>The simulation\<close>


section \<open>The exchange of a request and its response\<close>

lemma reply_of_frame:
  assumes "sbi_rx_res b1 = sbi_rx_res b" "sbi_holder b1 = sbi_holder b" "sc_res c1 = sc_res c" "sc_out c1 = sc_out c"
  shows "reply_of b1 c1 = reply_of b c"
  unfolding reply_of_def body_of_def assms ..










section \<open>The body of a response\<close>


section \<open>A call\<close>

lemma drop_want_frame [simp]: "sc_res (drop_want want c) = sc_res c" "passed_on t (drop_want want c) = passed_on t c"
  "reply_of b (drop_want want c) = reply_of b c"
  by (auto simp: passed_on_def drop_want_def body_of_def intro: reply_of_frame split: option.split)

lemma drop_body_frame [simp]: "passed_on t (drop_server_state (SendBody b) c) = passed_on t c"
  by (simp add: passed_on_def drop_server_state_def split: option.split)














section \<open>A connection that is used once\<close>








section \<open>The server and the protocol\<close>





end
