(* ===== verification/Server_Faults.thy ===== *)
theory Server_Faults
  imports Server_Protocol
begin

text \<open>
  What the model of the server shows to go wrong: a body that is read past its end, a call that
  never returns, the end of a response that is forgotten, an error that looks like the end of a
  body, and bytes that are held back from a reader.
\<close>

section \<open>A body that is read past its end\<close>

text \<open>
  C24. A body with a length takes whatever is in the read buffer. When the buffer holds more
  than is left of the body, and nothing of it has been consumed, all of it is passed to the user as
  body: the bytes after the body, which belong to the next request, are gone from the connection, and
  the body is not complete.
\<close>

theorem server_over_read:
  assumes "sbi_tx_body b = Some i" "sbi_limit b = LR_ContentLength v" "rx_ok io" "bi_pos io = 0"
    and "clr_left v < length (unread io)" "length (unread io) < 2 ^ 64"
    and "chan_open (sc_in c i)" "length (ch_queue (sc_in c i)) < ch_bound (sc_in c i)"
  shows "\<exists>b1 io1 c1. sv_poll_read_body w (b, io, c) = (Ok (), b1, io1, c1)
    \<and> ch_queue (sc_in c1 i) = ch_queue (sc_in c i) @ [Inr (unread io)] \<and> unread io1 = []
    \<and> sbi_tx_body b1 = Some i \<and> \<not> lr_is_complete (sbi_limit b1)"
proof -
  let ?io = "ensure_read_capacity (sbi_cur_read_size b) io" and ?bs = "unread io"
  let ?v = "v\<lparr>clr_total := clr_total v + of_nat (length ?bs)\<rparr>"
  note cap = ensure_read_capacity_spec[OF assms(3), of "sbi_cur_read_size b"]
  have pos: "bi_pos ?io = 0" using assms(4) by (simp add: ensure_read_capacity_def)
  have bs: "?bs \<noteq> []" using assms(5) by auto
  then have "fb_len (bi_buf ?io) \<noteq> 0" using cap(1,4) unread_nil_iff[OF cap(1)] pos by auto
  then have fill: "poll_fill_buf False ?io = (Ok ?bs, ?io)" using cap(4) by (simp add: poll_fill_buf_def Let_def)
  obtain io1 where take: "take_read_buf ?io = (?bs, io1)" "unread io1 = []"
    using take_read_buf_spec(4,5)[OF cap(1)] pos cap(4) by (metis can_take_read_buf_def surj_pair)
  have ready: "sender_poll_ready w True (sc_in c i) = (Ok True, sc_in c i)"
    using assms(7,8) by (simp add: sender_poll_ready_def inner_poll_ready_def chan_open_def)
  have "of_nat (length ?bs) \<noteq> clr_limit v - clr_total v"
  proof
    assume "of_nat (length ?bs) = clr_limit v - clr_total v"
    then have "clr_left v = unat (of_nat (length ?bs) :: 64 word)" by (simp add: clr_left_eq)
    then have "clr_left v = length ?bs" using assms(6) by (simp add: unsigned_of_nat take_bit_nat_eq_self)
    with assms(5) show False by simp
  qed
  then have nc: "\<not> lr_is_complete (LR_ContentLength ?v)"
    by (auto simp: lr_is_complete_def clr_is_end_def algebra_simps)
  have chunk: "read_chunk (length ?bs) (sbi_limit b, ?io) = (Ok ?bs, LR_ContentLength ?v, io1)"
    using assms(2) pos take(1) by (simp add: read_chunk_def lr_can_read_entire_vec_def can_take_read_buf_def lr_accept_entire_vec_def)
  let ?c = "upd_in i (\<lambda>q. snd (sender_send (Inr ?bs) q)) c"
  have "sv_poll_read_body w (b, io, c) = (Ok (), b\<lparr>sbi_limit := LR_ContentLength ?v\<rparr>, io1, ?c)"
    using assms(1) ready fill bs chunk nc by (simp add: sv_poll_read_body_def pass_chunk_def)
  moreover have "ch_queue (sc_in ?c i) = ch_queue (sc_in c i) @ [Inr ?bs]"
    using mpsc.send_open[OF assms(7), of "Inr ?bs"] by (cases "sender_send (Inr ?bs) (sc_in c i)") simp
  ultimately show ?thesis using take(2) nc assms(1) by auto
qed

text \<open>The transport delivers five bytes of body and the next request in one piece.\<close>

definition wit_pipelined :: buf_io where
  "wit_pipelined = (bi_with_capacity 64 (wit_transport []))\<lparr>bi_buf :=
     \<lparr>fb_init = ''helloGET /next'', fb_len = 14, fb_cap = 64\<rparr>\<rparr>"

definition wit_exchange :: server_bidirect where
  "wit_exchange = \<lparr>sbi_limit = LR_ContentLength (clr_new 5), sbi_request_allows_reuse = True, sbi_tx_body = Some 0,
     sbi_rx_res = Some 0, sbi_holder = None, sbi_cur_read_size = 5\<rparr>"

theorem server_over_read_witness:
  "\<exists>b1 io1 c1. sv_poll_read_body 7 (wit_exchange, wit_pipelined, sv_chans (sv_handshake (wit_transport []))) = (Ok (), b1, io1, c1)
     \<and> ch_queue (sc_in c1 0) = [Inr ''helloGET /next''] \<and> unread io1 = []"
proof -
  let ?c = "sv_chans (sv_handshake (wit_transport []))"
  have "sbi_tx_body wit_exchange = Some 0" "sbi_limit wit_exchange = LR_ContentLength (clr_new 5)" by (simp_all add: wit_exchange_def)
  moreover have "rx_ok wit_pipelined" "bi_pos wit_pipelined = 0" "unread wit_pipelined = ''helloGET /next''"
    by (simp_all add: wit_pipelined_def bi_with_capacity_def rx_ok_def unread_def fb_deref_def fb_ok_def)
  moreover have "clr_left (clr_new 5) < 14" by code_simp
  moreover have "chan_open (sc_in ?c 0)" "length (ch_queue (sc_in ?c 0)) < ch_bound (sc_in ?c 0)" "ch_queue (sc_in ?c 0) = []"
    by (simp_all add: sv_handshake_def server_new_def receiver_new_def chan_open_def)
  ultimately show ?thesis using server_over_read[of wit_exchange 0 "clr_new 5" wit_pipelined ?c 7] by auto
qed

section \<open>A call that never returns\<close>

definition stuck :: "nat \<Rightarrow> nat \<Rightarrow> server \<Rightarrow> bool" where
  "stuck i k sv \<longleftrightarrow> (case sv_state sv of SendRes b \<Rightarrow> sbi_rx_res b = None \<and> sbi_tx_body b = Some i | _ \<Rightarrow> False)
     \<and> can_poll_write (sv_io sv) \<and> \<not> bi_pending_rx (sv_io sv)
     \<and> chan_open (sc_in (sv_chans sv) i) \<and> ch_bound (sc_in (sv_chans sv) i) \<le> length (ch_queue (sc_in (sv_chans sv) i))
     \<and> \<not> sender_is_empty (sc_out (sv_chans sv) k)"

lemma stuck_drive:
  assumes "stuck i k sv"
  shows "\<exists>sv1. poll_drive_external api w sv = (Ok (), sv1) \<and> stuck i k sv1"
proof -
  obtain b where b: "sv_state sv = SendRes b" "sbi_rx_res b = None" "sbi_tx_body b = Some i" using assms by (auto simp: stuck_def split: server_state.splits)
  have io: "can_poll_write (sv_io sv)" "\<not> bi_pending_rx (sv_io sv)" "\<not> bi_pending_tx (sv_io sv)"
    using assms by (auto simp: stuck_def can_poll_write_def)
  let ?q = "(sc_in (sv_chans sv) i)\<lparr>ch_wakers := ch_wakers (sc_in (sv_chans sv) i) @ [w]\<rparr>"
  let ?sv = "sv\<lparr>sv_chans := upd_in i (\<lambda>_. ?q) (sv_chans sv)\<rparr>"
  have wait: "sender_poll_ready w True (sc_in (sv_chans sv) i) = (Pending, ?q)"
    using assms by (auto simp: stuck_def sender_poll_ready_def inner_poll_ready_def chan_open_def)
  have "exchange_round w False (b, sv_io sv, sv_chans sv) = (Pending, b, sv_io sv, upd_in i (\<lambda>_. ?q) (sv_chans sv))"
    using b wait by (simp add: exchange_round_def rx_res_waits_def tx_body_waits_def sv_poll_read_body_def)
  then have "sv_poll_bidirect w False (b, sv_io sv, sv_chans sv) = (Pending, b, sv_io sv, upd_in i (\<lambda>_. ?q) (sv_chans sv))"
    using b by (simp add: sv_poll_bidirect_def sv_bidirect_loop.simps rx_res_waits_def tx_body_waits_def)
  then have "poll_server api w False False sv = (Pending, ?sv)"
    using b io poll_finish_idle[OF io(1)] by (cases sv) (simp add: poll_server_def sv_drive.simps drop_want_def)
  then have "poll_drive_external api w sv = (Ok (), ?sv)" using io by (simp add: poll_drive_external_def)
  moreover have "stuck i k ?sv" using assms by (auto simp: stuck_def chan_open_def)
  ultimately show ?thesis by blast
qed

text \<open>
  C23. Sending the end of a response can hang for ever. When the response has been written, the
  body of the request has not been read and its channel is full, and a piece of the response waits
  in its channel, driving the connection succeeds without doing anything: the connection waits for the
  reader, not for the transport. The loop at the end of \<^verbatim>\<open>do_send\<close> then
  spins without ever returning to its executor, so nothing else on its thread runs.
\<close>

theorem server_flush_livelock:
  assumes "stuck i k sv" "ss_ended ss"
  shows "server_send api w k eob (Flush, data, ss, sv) = None"
proof -
  have "flush_loop (poll_drive_external api w) (\<lambda>s. sc_out (sv_chans s) k) sv \<noteq> Some out" for out
  proof
    assume "flush_loop (poll_drive_external api w) (\<lambda>s. sc_out (sv_chans s) k) sv = Some out"
    then show False
    proof (rule flush_loop_rule[where P = "stuck i k"])
      fix s r s1
      assume "stuck i k s" "poll_drive_external api w s = (r, s1)"
      then show "r \<noteq> Ok () \<Longrightarrow> False" using stuck_drive[of i k s api w] by simp
    next
      fix s s1
      assume "stuck i k s" "poll_drive_external api w s = (Ok (), s1)"
      then show "stuck i k s1" using stuck_drive[of i k s api w] by simp
    next
      fix s
      show "stuck i k s \<Longrightarrow> sender_is_empty (sc_out (sv_chans s) k) \<Longrightarrow> False" by (simp add: stuck_def)
    qed (rule assms(1))
  qed
  then have "flush_loop (poll_drive_external api w) (\<lambda>s. sc_out (sv_chans s) k) sv = None" by (cases "flush_loop (poll_drive_external api w) (\<lambda>s. sc_out (sv_chans s) k) sv") auto
  with assms(2) show ?thesis by (simp add: server_send_def do_send_poll_def do_send_flush_def)
qed

text \<open>
  The user of the example reads nothing and answers: the first three bytes of the body fill its channel,
  the response is written, and the user sends the end of its body.
\<close>

definition wit_stuck :: server where
  "wit_stuck = (let sv = snd (poll_accept wit_api 7 (sv_handshake (wit_transport [RxData wit_req_bytes, RxData ''hel'', RxData ''lo''])));
       sv1 = snd (poll_drive_external wit_api 7 (sv\<lparr>sv_chans := snd (send_response_start wit_res False wit_sr (sv_chans sv))\<rparr>))
     in sv1\<lparr>sv_chans := upd_out 1 (\<lambda>q. snd (sender_send (''hello'', True) q)) (sv_chans sv1)\<rparr>)"

theorem server_flush_livelock_witness:
  "server_send wit_api 7 1 True (Flush, EmptyData, (send_stream_new (LW_ContentLength (clw_new 5)) True), wit_stuck) = None"
proof -
  have "stuck 0 1 wit_stuck" by code_simp
  then show ?thesis by (rule server_flush_livelock) (simp add: send_stream_new_def)
qed

section \<open>The end of a response that is forgotten\<close>

text \<open>
  C26. The end of a response is forgotten when its write is pending. The state of the connection
  does not note that the last piece has been taken, so once the piece is written it waits for more;
  when the user drops the stream, as it may after the last piece, the connection ends with an
  error, although the response was sent in full.
\<close>

theorem server_lost_end:
  assumes "poll_write_all (Some chunk) True io = (Pending, None, io1)" "can_poll_write io" "poll_finish_pending_write io1 = (Ok (), io2)"
    and "ch_queue (sc_out c (bs_rx_body b)) = [(chunk, True)]" "ch_senders (sc_out c (bs_rx_body b)) = 1" "tx_ok io"
  shows "\<exists>c1. send_body_loop w reg b (io, c) = (Pending, io1, c1)
    \<and> out_stream io2 = out_stream io @ chunk
    \<and> fst (send_body_loop w reg b (io2, upd_out (bs_rx_body b) sender_drop c1)) = Err (IoError OtherKind ''Unexpected end of body'')"
proof -
  let ?k = "bs_rx_body b"
  obtain q where q: "poll_recv w reg (sc_out c ?k) = (Ok (Some (chunk, True)), q)" "ch_queue q = []" "ch_senders q = 1"
    using assms(4,5) by (auto simp: poll_recv_def inner_poll_dequeue_def wake_all_def)
  let ?c = "upd_out ?k (\<lambda>_. q) c"
  have first: "send_body_loop w reg b (io, c) = (Pending, io1, ?c)"
    using q(1) assms(1,2) by (simp add: send_body_loop.simps[of w reg b io c] Let_def)
  note wrote = poll_write_all_idle[OF assms(6,2,1)]
  have io2: "can_poll_write io2" "out_stream io2 = out_stream io @ chunk"
    using poll_finish_pending_write_spec[OF wrote(3) assms(3)] wrote(7) by auto
  obtain q2 where q2: "poll_recv w reg (sender_drop q) = (Ok None, q2)"
    using q(2,3) by (cases rule: poll_recv_reg_cases[of w reg "sender_drop q"]) (auto simp: sender_drop_frame)
  have "fst (send_body_loop w reg b (io2, upd_out ?k sender_drop ?c)) = Err (IoError OtherKind ''Unexpected end of body'')"
    using q2 io2(1) by (simp add: send_body_loop.simps[of w reg b io2] Let_def)
  with first io2(2) show ?thesis by blast
qed

definition wit_slow :: buf_io where
  "wit_slow = bi_with_capacity 8 ((wit_transport [])\<lparr>tr_tx := [TxAccept 2, TxPending, TxAccept 10]\<rparr>)"

theorem server_lost_end_witness:
  "\<exists>io1 io2. poll_write_all (Some ''hello'') True wit_slow = (Pending, None, io1) \<and> poll_finish_pending_write io1 = (Ok (), io2)
     \<and> out_stream io2 = ''hello''
     \<and> (\<exists>c1. fst (send_body_loop 7 True \<lparr>bs_request_allows_reuse = True, bs_rx_body = 0\<rparr> (io2, c1))
           = Err (IoError OtherKind ''Unexpected end of body''))"
proof -
  let ?b = "\<lparr>bs_request_allows_reuse = True, bs_rx_body = 0\<rparr>"
  let ?c = "upd_out 0 (\<lambda>q. snd (sender_send (''hello'', True) q)) (sv_chans (sv_handshake (wit_transport [])))"
  let ?w = "poll_write_all (Some ''hello'') True wit_slow"
  have "case ?w of (Pending, None, io1) \<Rightarrow> (case poll_finish_pending_write io1 of (Ok _, io2) \<Rightarrow> True | _ \<Rightarrow> False) | _ \<Rightarrow> False"
    by code_simp
  then obtain io1 io2 where io: "?w = (Pending, None, io1)" "poll_finish_pending_write io1 = (Ok (), io2)"
    by (auto split: prod.splits res.splits option.splits)
  have w: "can_poll_write wit_slow" "tx_ok wit_slow" "out_stream wit_slow = []"
    by (simp_all add: wit_slow_def bi_with_capacity_def can_poll_write_def tx_ok_def out_stream_def pending_bytes_def wit_transport_def)
  have c: "ch_queue (sc_out ?c (bs_rx_body ?b)) = [(''hello'', True)]" "ch_senders (sc_out ?c (bs_rx_body ?b)) = 1"
    by (simp_all add: sv_handshake_def server_new_def receiver_new_def sender_send_def inner_enqueue_def wake_all_def)
  from server_lost_end[OF io(1) w(1) io(2) c w(2), of 7 True] w(3) io show ?thesis by auto
qed

section \<open>An error that looks like the end of a body\<close>

text \<open>
  C25. An error that another caller gets looks like the end of the body. The error of a connection is returned
  to whoever drives it: \<^verbatim>\<open>accept\<close>, \<^verbatim>\<open>close\<close> or the other stream. The connection is closed and the
  sender of the body goes with its state, so a user that reads the body afterwards is told that it
  has ended, and by no error, however much of it is missing.
\<close>

theorem server_error_truncates:
  assumes "server_ok sv" "body_ok i sv" "poll_server api w want reg sv = (Err e, sv1)"
    and "ch_queue (sc_in (sv_chans sv1) i) = []" "poll_finish_pending_write (sv_io sv1) = (Ok (), io)"
    and "\<not> rs_ended rs" "rs_ready rs = None" "0 < n"
  shows "\<exists>rs1 sv2. server_read api w2 i n (rs, sv1) = (Ok [], rs1, sv2) \<and> is_end_stream rs1"
proof -
  have "body_ok i sv1" using poll_server_body(1)[OF assms(1-3)] by simp
  moreover have closed: "sv_state sv1 = Closed"
    using assms(3) by (auto simp: poll_server_def split: prod.splits res.splits)
  ultimately have "ch_senders (sc_in (sv_chans sv1) i) = 0" by (simp add: body_ok_def feeds_def stream_open_def)
  with assms(4) obtain q where q: "poll_recv w2 True (sc_in (sv_chans sv1) i) = (Ok None, q)"
    by (cases rule: poll_recv_reg_cases[of w2 True "sc_in (sv_chans sv1) i"]) auto
  have "poll_drive_external api w2 sv1 = (Ok (), sv1\<lparr>sv_io := io\<rparr>)"
    using closed assms(5) by (simp add: poll_drive_external_def poll_server_def sv_drive.simps drop_want_def)
  then have "server_read api w2 i n (rs, sv1) = (Ok [], rs\<lparr>rs_ended := True\<rparr>, sv1\<lparr>sv_io := io, sv_chans := upd_in i (\<lambda>_. q) (sv_chans sv1)\<rparr>)"
    using assms(6-8) q by (simp add: server_read_def rs_poll_read_def poll_drive_server_def poll_body_data_def)
  then show ?thesis by (auto simp: is_end_stream_def)
qed

text \<open>The peer hangs up after three of five bytes, which the user has read; then something else drives the connection.\<close>

definition wit_cut_accepted :: server where
  "wit_cut_accepted = snd (poll_accept wit_api 7 (sv_handshake (wit_transport [RxData wit_req_bytes, RxData ''hel'', RxData []])))"

definition wit_cut :: "recv_stream \<times> server" where
  "wit_cut = snd (server_read wit_api 8 0 9 (recv_stream_new False, wit_cut_accepted))"

text \<open>What the next call makes of that: the end of the input, and nothing left for the user.\<close>

definition cut_short :: "recv_stream \<times> server \<Rightarrow> bool" where
  "cut_short = (\<lambda>(rs, sv). case poll_server wit_api 9 False False sv of
     (Err e, sv1) \<Rightarrow> e = IoError UnexpectedEof ''EOF before complete body received''
       \<and> ch_queue (sc_in (sv_chans sv1) 0) = [] \<and> \<not> rs_ended rs \<and> rs_ready rs = None
       \<and> (case poll_finish_pending_write (sv_io sv1) of (Ok _, _) \<Rightarrow> True | _ \<Rightarrow> False)
   | _ \<Rightarrow> False)"

lemma wit_cut_ok: "stream_ok 0 wit_cut" "stream_due 0 (recv_stream_new False, wit_cut_accepted) = ''hel''"
proof -
  let ?sv0 = "sv_handshake (wit_transport [RxData wit_req_bytes, RxData ''hel'', RxData []])"
  have "case fst (poll_accept wit_api 7 ?sv0) of
      Ok (Some ((req, rs, i), sr)) \<Rightarrow> rs = recv_stream_new False \<and> i = 0
        \<and> unmixed (lr_from_headers (req_headers req) False, sv_io wit_cut_accepted)
        \<and> lr_stream (lr_from_headers (req_headers req) False, sv_io wit_cut_accepted) = ''hel''
    | _ \<Rightarrow> False"
    by code_simp
  then obtain req sr where req: "fst (poll_accept wit_api 7 ?sv0) = Ok (Some ((req, recv_stream_new False, 0), sr))"
    "unmixed (lr_from_headers (req_headers req) False, sv_io wit_cut_accepted)"
    "lr_stream (lr_from_headers (req_headers req) False, sv_io wit_cut_accepted) = ''hel''"
    by (auto split: res.splits option.splits)
  then have acc: "poll_accept wit_api 7 ?sv0 = (Ok (Some ((req, recv_stream_new False, 0), sr)), wit_cut_accepted)"
    unfolding wit_cut_accepted_def by (metis prod.collapse)
  have ok: "server_ok ?sv0" "drives_are 1 (sv_chans ?sv0)"
    using handshake_system[of "wit_transport [RxData wit_req_bytes, RxData ''hel'', RxData []]"] by (simp_all add: system_ok_def)
  have "server_ok wit_cut_accepted" "delivered req (recv_stream_new False) 0 sr wit_cut_accepted"
    using poll_accept_post(2)[OF acc ok(2) _ ok(1)] poll_accept_post(4)[OF acc ok(2) _ ok(1)] by auto
  note start = delivered_stream[OF this(2,1) req(2)]
  show "stream_due 0 (recv_stream_new False, wit_cut_accepted) = ''hel''" using start(2) req(3) by simp
  have "case fst (server_read wit_api 8 0 9 (recv_stream_new False, wit_cut_accepted)) of Ok _ \<Rightarrow> True | _ \<Rightarrow> False" by code_simp
  then have "\<exists>bs. fst (server_read wit_api 8 0 9 (recv_stream_new False, wit_cut_accepted)) = Ok bs" by (auto split: res.splits)
  with server_read_body[OF start(1), of wit_api 8 9] show "stream_ok 0 wit_cut"
    unfolding wit_cut_def by (metis prod.collapse)
qed

theorem server_error_truncates_witness:
  "\<exists>sv1 rs1 sv2. poll_server wit_api 9 False False (snd wit_cut) = (Err (IoError UnexpectedEof ''EOF before complete body received''), sv1)
     \<and> server_read wit_api 8 0 4 (fst wit_cut, sv1) = (Ok [], rs1, sv2) \<and> is_end_stream rs1"
proof -
  have cut: "cut_short wit_cut" by code_simp
  obtain rs sv where wit: "wit_cut = (rs, sv)" by (meson surj_pair)
  obtain r sv1 where r: "poll_server wit_api 9 False False sv = (r, sv1)" by (meson surj_pair)
  obtain q io where q: "poll_finish_pending_write (sv_io sv1) = (q, io)" by (meson surj_pair)
  have "r = Err (IoError UnexpectedEof ''EOF before complete body received'')"
    using cut by (cases r) (simp_all add: cut_short_def wit r)
  note eq = r[unfolded this]
  have p: "q = Ok ()" "ch_queue (sc_in (sv_chans sv1) 0) = []" "\<not> rs_ended rs" "rs_ready rs = None"
    using cut by (cases q; simp add: cut_short_def wit eq q)+
  have "server_ok sv" "body_ok 0 sv" using wit_cut_ok(1) by (simp_all add: stream_ok_def wit)
  from server_error_truncates[OF this eq p(2) q[unfolded p(1)] p(3,4), of 4 8] eq show ?thesis unfolding wit by auto
qed

section \<open>Bytes that are held back\<close>

text \<open>
  A reader of a request body can be told to wait while bytes are at hand. \<^verbatim>\<open>poll_read\<close> drives the connection
  before it looks at what is left of the last chunk. When the channel has room and the transport has nothing to
  read yet, driving is pending, and so is the read, whatever the stream has at hand; a peer that waits for an
  answer to these bytes waits for ever.
\<close>

theorem server_withholds:
  assumes "sv_state sv = SendRes b" "sbi_rx_res b = Some j" "ch_queue (sc_res (sv_chans sv) j) = []" "ch_senders (sc_res (sv_chans sv) j) \<noteq> 0"
    and "sbi_tx_body b = Some i" "chan_open (sc_in (sv_chans sv) i)" "ch_queue (sc_in (sv_chans sv) i) = []" "0 < ch_bound (sc_in (sv_chans sv) i)"
    and "rx_ok (sv_io sv)" "unread (sv_io sv) = []" "can_poll_write (sv_io sv)"
    and "\<forall>m. fst (tr_poll_read m (bi_inner (sv_io sv))) = Pending" "0 < n"
  shows "\<exists>sv1. server_read api w i n (rs, sv) = (Pending, rs, sv1)"
proof -
  let ?io = "ensure_read_capacity (sbi_cur_read_size b) (sv_io sv)" and ?c = "sv_chans sv"
  have cap: "rx_ok ?io" "unread ?io = []" "bi_inner ?io = bi_inner (sv_io sv)"
    using ensure_read_capacity_spec[OF assms(9)] assms(10) by (simp_all add: ensure_read_capacity_def)
  then have len: "fb_len (bi_buf ?io) = 0" by (auto simp: unread_nil_iff rx_ok_def)
  obtain f io1 where f: "poll_fill_buf False ?io = (f, io1)" by fastforce
  have np: "f \<noteq> Panic p" for p
    using poll_fill_buf_spec[OF cap(1) f] cap(1) len by (auto simp: rx_ok_def)
  obtain m q t where "tr_poll_read m (bi_inner ?io) = (q, t)" "q = Pending \<Longrightarrow> f = Pending"
  proof -
    obtain br where br: "fb_borrow (bi_buf ?io) = Ok br"
      using f np len by (cases "fb_borrow (bi_buf ?io)") (auto simp: poll_fill_buf_def Let_def)
    obtain q t where q: "tr_poll_read (fb_len (fr_buf br)) (bi_inner ?io) = (q, t)" by fastforce
    have "f = Pending" if "q = Pending" using f br len q that by (auto simp: poll_fill_buf_def Let_def)
    with that q show thesis by blast
  qed
  then have pend: "f = Pending" using assms(12) cap(3) by (metis fst_conv)
  have io1: "bi_pending_rx io1" "bi_pending_tx io1 = bi_pending_tx (sv_io sv)"
    using poll_fill_buf_spec[OF cap(1) f] pend ensure_read_capacity_spec(2)[OF assms(9), of "sbi_cur_read_size b"] by (auto simp: same_tx_def)
  have ready: "sender_poll_ready w True (sc_in ?c i) = (Ok True, sc_in ?c i)"
    using assms(6-8) by (auto simp: sender_poll_ready_def inner_poll_ready_def chan_open_def)
  have read: "sv_poll_read_body w (b, sv_io sv, ?c) = (Pending, b, io1, ?c)"
    using assms(5) ready f pend by (simp add: sv_poll_read_body_def Let_def)
  have "poll_recv w False (sc_res ?c j) = (Pending, sc_res ?c j)"
    using assms(3,4) by (cases rule: poll_recv_reg_cases[of w False "sc_res ?c j"]) auto
  then have resp: "poll_send_resp w False (b, sv_io sv, ?c) = (Pending, b, sv_io sv, ?c)"
    using assms(2) by (simp add: poll_send_resp_def upd_res_def)
  then have "exchange_round w False (b, sv_io sv, ?c) = (Pending, b, io1, ?c)"
    using assms(2,5) read by (simp add: exchange_round_def poll_if_def rx_res_waits_def tx_body_waits_def)
  then have "sv_poll_bidirect w False (b, sv_io sv, ?c) = (Pending, b, io1, ?c)"
    using assms(2) by (simp add: sv_poll_bidirect_def sv_bidirect_loop.simps rx_res_waits_def)
  then have "poll_server api w False False sv = (Pending, \<lparr>sv_io = io1, sv_state = SendRes b, sv_chans = ?c\<rparr>)"
    using assms(1,11) by (cases sv) (simp add: poll_server_def sv_drive.simps poll_finish_idle drop_want_def)
  then have "poll_drive_external api w sv = (Pending, \<lparr>sv_io = io1, sv_state = SendRes b, sv_chans = ?c\<rparr>)"
    using io1(1) by (simp add: poll_drive_external_def)
  with assms(13) show ?thesis by (simp add: server_read_def rs_poll_read_def poll_drive_server_def)
qed

text \<open>Three bytes of the body are there; two are read, and the third is not given out.\<close>

definition wit_piece :: "bytes res \<times> (recv_stream \<times> server)" where
  "wit_piece = server_read wit_api 8 0 2 (recv_stream_new False,
     snd (poll_accept wit_api 7 (sv_handshake (wit_transport [RxData wit_req_bytes, RxData ''hel'']))))"

theorem server_withholds_witness:
  "fst wit_piece = Ok ''he'' \<and> ready_bytes (fst (snd wit_piece)) = ''l'' \<and> fst (server_read wit_api 8 0 2 (snd wit_piece)) = Pending"
proof -
  obtain rs sv where s: "snd wit_piece = (rs, sv)" by fastforce
  have c: "fst wit_piece = Ok ''he''" "ready_bytes (fst (snd wit_piece)) = ''l''"
    "case sv_state (snd (snd wit_piece)) of SendRes b \<Rightarrow> sbi_rx_res b = Some 0 \<and> sbi_tx_body b = Some 0 | _ \<Rightarrow> False"
    "ch_queue (sc_res (sv_chans (snd (snd wit_piece))) 0) = [] \<and> ch_senders (sc_res (sv_chans (snd (snd wit_piece))) 0) = 1"
    "case sc_in (sv_chans (snd (snd wit_piece))) 0 of q \<Rightarrow> chan_open q \<and> ch_queue q = [] \<and> ch_bound q = 1"
    "case sv_io (snd (snd wit_piece)) of io \<Rightarrow> rx_ok io \<and> unread io = [] \<and> can_poll_write io \<and> tr_rx (bi_inner io) = []"
    by code_simp+
  from c(3) s obtain b where "sv_state sv = SendRes b" "sbi_rx_res b = Some 0" "sbi_tx_body b = Some 0"
    by (auto split: server_state.splits)
  moreover have "\<forall>m. fst (tr_poll_read m (bi_inner (sv_io sv))) = Pending" using c(6) s by (simp add: tr_poll_read.simps)
  ultimately show ?thesis using c(4-6) s server_withholds[of sv b 0 0 2 wit_api 8 rs] c(1,2) by auto
qed

end
