(* ===== verification/Server_Flag.thy ===== *)
theory Server_Flag
  imports Server_Properties Server_Invariant
begin

text \<open>
  The flag by which a connection tells the handles of its users that it waits for the transport
  (\<^verbatim>\<open>pending_rx\<close>) is true: whenever it is set nothing that is already buffered could be
  handed on. A stale flag would put a reader to sleep that nobody wakes.
\<close>

section \<open>The flag after a poll for a head\<close>

lemma poll_fill_buf_flag:
  assumes "poll_fill_buf force io = (Ok buf, io1)"
  shows "\<not> force \<and> fb_len (bi_buf io) \<noteq> 0 \<and> io1 = io \<and> buf = unread io \<or> \<not> bi_pending_rx io1"
proof (cases "fb_len (bi_buf io) = 0 \<or> force")
  case False
  with assms show ?thesis by (auto simp: poll_fill_buf_def Let_def)
next
  case True
  then obtain br where br: "fb_borrow (bi_buf io) = Ok br"
    using assms by (cases "fb_borrow (bi_buf io)") (auto simp: poll_fill_buf_def Let_def)
  obtain q t where q: "tr_poll_read (fb_len (fr_buf br) - fb_len (bi_buf io)) (bi_inner io) = (q, t)" by fastforce
  then obtain bs where "q = Ok bs" using assms True br by (cases q) (auto simp: poll_fill_buf_def Let_def)
  with assms True br q show ?thesis
    by (cases "fr_extend (length bs) (fr_fill (fb_len (bi_buf io)) bs br)") (auto simp: poll_fill_buf_def Let_def)
qed

lemma consume_flag: "consume n io = (Ok (), io1) \<Longrightarrow> bi_pending_rx io1 = bi_pending_rx io"
  by (auto simp: consume_def Let_def split: if_splits)

text \<open>
  A head is only found in bytes that have just arrived, unless it is in the buffer already; a
  pending poll has looked through the whole buffer.
\<close>

lemma crlf_loop_flag:
  assumes "rx_ok io" "bi \<le> length (unread io)" "bi \<le> READ_BUF_INIT_SIZE" "e = foldl head_step 0 (take bi (unread io))"
    "head_len 0 (take bi (unread io)) = None" "force \<Longrightarrow> bi = length (unread io)"
    "\<not> force \<Longrightarrow> bi = 0 \<and> (bi_pending_rx io \<longrightarrow> head_len 0 (unread io) = None)" "crlf_loop f force e bi io = (r, io')"
  shows "((\<exists>a. r = Ok a) \<longrightarrow> \<not> bi_pending_rx io') \<and> (r = Pending \<longrightarrow> head_len 0 (unread io') = None)"
  using assms
proof (induction f force e bi io arbitrary: r io' rule: crlf_loop.induct)
  case (1 f force e bi io)
  have e: "e \<le> 4" using foldl_head_step_le[of 0 "take bi (unread io)"] "1.prems"(4,5) by simp
  obtain q io1 where q: "poll_fill_buf force io = (q, io1)" by fastforce
  note spec = poll_fill_buf_spec[OF "1.prems"(1) q]
  have same: "r = q' \<and> io' = io1" if "(case q of Pending \<Rightarrow> q' = Pending | Err x \<Rightarrow> q' = Err x | Panic p \<Rightarrow> q' = Panic p | _ \<Rightarrow> False)" for q'
    using "1.prems"(8) q that by (cases q) (auto simp: crlf_loop.simps[of f force e bi io])
  show ?case
  proof (cases q)
    case Pending
    have "head_len 0 (unread io) = None"
    proof (cases force)
      case True
      with "1.prems"(5,6) show ?thesis by simp
    next
      case False
      have "fb_len (bi_buf io) = 0" using q Pending False by (cases "fb_len (bi_buf io) = 0") (auto simp: poll_fill_buf_def Let_def)
      then show ?thesis by (simp add: unread_def fb_deref_def)
    qed
    with spec Pending same[of Pending] show ?thesis by simp
  next
    case (Ok buf)
    with spec have buf: "rx_ok io1" "buf = unread io1" "prefix (unread io) buf" by auto
    have bi: "bi \<le> length buf" "take bi buf = take bi (unread io)"
      using "1.prems"(2) prefix_length_le[OF buf(3)] buf(3) by (auto simp: prefix_def)
    have hl: "head_len 0 buf = map_option ((+) bi) (head_len e (drop bi buf))"
    proof -
      have "head_len 0 (take bi buf @ drop bi buf) = map_option ((+) bi) (head_len e (drop bi buf))"
        using "1.prems"(2,4,5) bi unfolding head_len_append by (simp del: append_take_drop_id)
      then show ?thesis by simp
    qed
    have flag: "head_len 0 buf = None" if "bi_pending_rx io1"
      using poll_fill_buf_flag[OF q[unfolded Ok]] that "1.prems"(7) buf(2) by auto
    have loop: "(case scan_head buf (length buf = bi) e bi of
         ScanFound n \<Rightarrow> ready (consume n io1) (\<lambda>_ io2. (Ok (f (take n buf) (length buf = bi)), io2))
       | ScanEof \<Rightarrow> (Err (IoError UnexpectedEof ''EOF and no header length''), io1)
       | ScanTooBig \<Rightarrow> (Err TOO_BIG, io1)
       | ScanMore ei bi \<Rightarrow> crlf_loop f True ei bi io1
       | ScanPanic \<Rightarrow> (Panic ''index out of bounds'', io1)) = (r, io')"
      using "1.prems"(8) q Ok unfolding crlf_loop.simps[of f force e bi io] Let_def TOO_BIG_def by simp
    have found: ?thesis if "scan_head buf (length buf = bi) e bi = ScanFound n" "\<not> bi_pending_rx io1" for n
      using loop that consume_flag[of n io1] by (cases "consume n io1"; cases "fst (consume n io1)") (auto simp: consume_def Let_def split: if_splits)
    show ?thesis
    proof (cases "length buf = bi")
      case True
      have arrived: "\<not> bi_pending_rx io1"
      proof
        assume p: "bi_pending_rx io1"
        then have "\<not> force" "fb_len (bi_buf io) \<noteq> 0" "buf = unread io" using poll_fill_buf_flag[OF q[unfolded Ok]] by auto
        with "1.prems"(1,7) True show False by (auto simp: rx_ok_def unread_nil_iff)
      qed
      from scan_head_eos[OF e, of buf bi] show ?thesis
      proof
        assume "scan_head buf True e bi = ScanFound bi"
        with found[of bi] True arrived show ?thesis by simp
      qed (use loop True in auto)
    next
      case go: False
      show ?thesis
      proof (cases "scan_head buf False e bi")
        case (ScanFound n)
        then have "head_len 0 buf \<noteq> None" using scan_head_eq[OF e bi(1) "1.prems"(3)] hl by (auto split: option.splits if_splits)
        with found[of n] ScanFound go flag show ?thesis by auto
      next
        case (ScanMore e1 b1)
        have m: "e1 = foldl head_step e (drop bi buf)" "b1 = length buf" "length buf < READ_BUF_INIT_SIZE" "head_len 0 buf = None"
          using ScanMore scan_head_eq[OF e bi(1) "1.prems"(3)] hl by (auto split: option.splits if_splits)
        have "foldl head_step 0 (take bi buf @ drop bi buf) = e1" using m(1) "1.prems"(4) bi(2) by (simp del: append_take_drop_id)
        then have e1: "e1 = foldl head_step 0 buf" by simp
        have rest: "crlf_loop f True e1 b1 io1 = (r, io')" using loop go ScanMore by simp
        show ?thesis
          by (rule "1.IH"[OF q[unfolded Ok] refl _ buf(1) _ _ _ _ _ _ rest]) (use m e1 buf(2) ScanMore go in simp_all)
      qed (use scan_head_eq[OF e bi(1) "1.prems"(3)] loop go in \<open>auto split: option.splits if_splits\<close>)
    qed
  next
    case (Err x)
    with same[of "Err x"] show ?thesis by simp
  next
    case (Panic x)
    with same[of "Panic x"] show ?thesis by simp
  qed
qed

lemma poll_for_crlfcrlf_flag:
  assumes "rx_ok io" "bi_pending_rx io \<Longrightarrow> head_len 0 (unread io) = None" "poll_for_crlfcrlf f io = (r, io')"
  shows "r = Ok a \<Longrightarrow> \<not> bi_pending_rx io'" "r = Pending \<Longrightarrow> head_len 0 (unread io') = None"
  using crlf_loop_flag[OF assms(1) _ _ _ _ _ _ assms(3)[unfolded poll_for_crlfcrlf_def]] assms(2) by auto

section \<open>The flag while a body is read\<close>

definition quiet :: "buf_io \<Rightarrow> bool" where
  "quiet io \<longleftrightarrow> (bi_pending_rx io \<longrightarrow> unread io = [])"

lemma read_body_quiet:
  assumes "rx_ok io" "quiet io" "sv_poll_read_body w (b, io, c) = (r, b1, io1, c1)" "r = Ok () \<or> r = Pending"
  shows "quiet io1"
proof (cases "sbi_tx_body b")
  case None
  with assms(3,4) show ?thesis by (auto simp: sv_poll_read_body_def)
next
  case (Some i)
  let ?io = "ensure_read_capacity (sbi_cur_read_size b) io"
  have io: "rx_ok ?io" "bi_pending_rx ?io = bi_pending_rx io" "unread ?io = unread io"
    using ensure_read_capacity_spec[OF assms(1)] by (simp_all add: ensure_read_capacity_def)
  obtain q qc where q: "sender_poll_ready w True (sc_in c i) = (q, qc)" by fastforce
  show ?thesis
  proof (cases q)
    case (Ok x)
    obtain f io2 where f: "poll_fill_buf False ?io = (f, io2)" by fastforce
    show ?thesis
    proof (cases f)
      case Pending
      with assms(3) Some q Ok f have "io1 = io2" by (auto simp: sv_poll_read_body_def Let_def)
      with poll_fill_buf_only(4)[OF f] Pending show ?thesis by (auto simp: quiet_def settled_def)
    next
      case buf: (Ok buf)
      have arrived: "\<not> bi_pending_rx io2"
        using poll_fill_buf_flag[OF f[unfolded buf]] io assms(2) by (auto simp: quiet_def unread_nil_iff rx_ok_def)
      obtain g l io3 where g: "read_chunk (length buf) (sbi_limit b, io2) = (g, l, io3)" by (metis prod_cases3)
      have "io1 = io3"
        using assms(3,4) Some q Ok f buf g by (cases g) (auto simp: sv_poll_read_body_def pass_chunk_def Let_def split: if_splits prod.splits)
      with read_chunk_only(4)[OF g] arrived show ?thesis by (auto simp: quiet_def settled_def)
    qed (use assms(3,4) Some q Ok f in \<open>auto simp: sv_poll_read_body_def Let_def\<close>)
  qed (use assms(2-4) Some q in \<open>auto simp: sv_poll_read_body_def\<close>)
qed

lemma quiet_same: "same_rx io io1 \<Longrightarrow> quiet io1 = quiet io"
  by (simp add: quiet_def same_rx_def unread_def)

lemma response_polled_quiet:
  assumes "response_polled w reg s r s1" "exchange_inv s" "\<forall>p. r \<noteq> Panic p" "quiet (fst (snd s))"
  shows "quiet (fst (snd s1))"
proof -
  obtain b io c b1 io1 c1 where s: "s = (b, io, c)" "s1 = (b1, io1, c1)" by (metis prod_cases3)
  show ?thesis
  proof (cases "sbi_rx_res b")
    case None
    with assms s show ?thesis by (auto simp: response_polled_def rx_res_waits_def)
  next
    case (Some j)
    then have sr: "poll_send_resp w reg (b, io, c) = (r, b1, io1, c1)" using assms(1) s by (simp add: response_polled_def rx_res_waits_def)
    have "rx_ok io" "tx_ok io" "exchange_ok b" "can_poll_write io" using assms(2) s Some by (auto simp: exchange_inv_def)
    with poll_send_resp_ok(2)[OF sr Some] assms(3,4) s quiet_same show ?thesis by auto
  qed
qed

lemma exchange_round_quiet:
  assumes "exchange_inv s" "exchange_round w reg s = (r, s2)" "r = Ok () \<or> r = Pending" "quiet (fst (snd s))"
  shows "quiet (fst (snd s2))"
  using assms(1,2)
proof (cases rule: exchange_round_cases)
  case Stops
  with response_polled_quiet[OF Stops(1) assms(1)] assms(3,4) show ?thesis by blast
next
  case (Reads q s1)
  then have "quiet (fst (snd s1))" using response_polled_quiet[OF Reads(1) assms(1)] assms(4) by blast
  with Reads(4,5) read_body_quiet[of "fst (snd s1)" w "fst s1" "snd (snd s1)" r "fst s2" "fst (snd s2)" "snd (snd s2)"] assms(3)
  show ?thesis by simp
qed

lemma sv_bidirect_loop_quiet:
  assumes "exchange_inv s" "sv_bidirect_loop w reg s = (r, s1)" "r = Ok () \<or> r = Pending" "quiet (fst (snd s))"
  shows "quiet (fst (snd s1))"
proof -
  let ?I = "\<lambda>s. exchange_inv s \<and> quiet (fst (snd s))"
  from assms(2) have "r = Ok () \<or> r = Pending \<longrightarrow> quiet (fst (snd s1))"
  proof (rule sv_bidirect_loop_rule[where I = ?I], goal_cases)
    case 1
    then show ?case using assms(1,4) by simp
  next
    case (2 s s1)
    then have "exchange_inv s1" using exchange_round_post[of "fst s" "fst (snd s)" "snd (snd s)" w reg "Ok ()" s1] by simp
    with 2 exchange_round_quiet[of s w reg "Ok ()" s1] show ?case by simp
  next
    case (3 s q s1)
    then show ?case using exchange_round_quiet[of s w reg q s1] by blast
  next
    case (4 s)
    then show ?case by simp
  qed
  with assms(3) show ?thesis by blast
qed

section \<open>The flag of a connection\<close>

text \<open>
  What is waiting in the read buffer while the transport is said to be pending: no complete head
  when a request is awaited, nothing at all while one is exchanged.
\<close>

definition flag_true :: "server \<Rightarrow> bool" where
  "flag_true self \<longleftrightarrow> (case sv_state self of
     RecvReq \<Rightarrow> bi_pending_rx (sv_io self) \<longrightarrow> head_len 0 (unread (sv_io self)) = None
   | Closed \<Rightarrow> True
   | _ \<Rightarrow> quiet (sv_io self))"

lemma quiet_flag: "quiet (sv_io self) \<Longrightarrow> flag_true self"
  by (auto simp: quiet_def flag_true_def split: server_state.split)

lemma flag_same:
  assumes "same_rx (sv_io self) io"
  shows "flag_true (self\<lparr>sv_io := io, sv_chans := c\<rparr>) = flag_true self"
  using assms quiet_same[OF assms] by (cases "sv_state self") (simp_all add: flag_true_def same_rx_def unread_def)

lemma flag_chans: "flag_true (self\<lparr>sv_chans := c\<rparr>) = flag_true self"
  using flag_same[of self "sv_io self" c] by simp

lemma server_round_flag:
  assumes "server_ok self" "flag_true self" "server_round api w want reg self = (r, self1)" "\<forall>p. r \<noteq> Panic p" "\<forall>e. r \<noteq> Err e"
  shows "flag_true self1" "r = Ok (Some (Some p)) \<Longrightarrow> \<not> bi_pending_rx (sv_io self1) \<and> can_poll_write (sv_io self1)"
proof -
  let ?c = "sv_chans self"
  have tx: "tx_ok (sv_io self)" and st: "server_state_ok (sv_state self)" and rx: "sv_state self \<noteq> Closed \<Longrightarrow> rx_ok (sv_io self)"
    using assms(1) by (auto simp: server_ok_def)
  note fin = poll_finish_pending_write_spec[OF tx]
  have "flag_true self1 \<and> (\<forall>p. r = Ok (Some (Some p)) \<longrightarrow> \<not> bi_pending_rx (sv_io self1) \<and> can_poll_write (sv_io self1))"
    using assms(3)
  proof (cases rule: server_round_cases)
    case (Write q io)
    with fin[OF Write(1)] flag_same assms(2) show ?thesis by simp
  next
    case (Idle io)
    with fin[OF Idle(1)] flag_same[of self io ?c] assms(2) show ?thesis by simp
  next
    case (Receive io q io1 c)
    have io: "rx_ok io" "same_rx (sv_io self) io" "can_poll_write io"
      using fin[OF Receive(1)] rx same_rx_ok(1)[of "sv_io self" io] Receive(2) by auto
    have head: "bi_pending_rx io \<Longrightarrow> head_len 0 (unread io) = None"
      using assms(2) Receive(2) io(2) by (simp add: flag_true_def same_rx_def unread_def)
    have np: "\<forall>p. q \<noteq> Panic p" "\<forall>e. q \<noteq> Err e" using Receive(5) assms(4,5) by (cases q; auto)+
    from Receive(4) show ?thesis
    proof (cases rule: poll_next_req_cases)
      case (Request req)
      from Request(2) obtain b p where b: "q = Ok (p, SendRes b)" by (rule new_request_spec) blast
      have "\<not> bi_pending_rx io1" using poll_for_crlfcrlf_flag(1)[OF io(1) head Request(1)] by blast
      moreover have "can_poll_write io1"
        using poll_for_crlfcrlf_safe(2)[OF io(1) Request(1)] io(3) same_txD by blast
      ultimately show ?thesis using Receive(6) b by (simp add: flag_true_def quiet_def)
    next
      case (Hangup x)
      with Receive(5,6) show ?thesis by (simp add: flag_true_def)
    next
      case Waiting
      with poll_for_crlfcrlf_flag(2)[OF io(1) head Waiting(1)] Receive(5,6) show ?thesis by (simp add: flag_true_def)
    qed (use np in auto)
  next
    case (Exchange io b q b1 io1 c)
    have io: "same_rx (sv_io self) io" using fin[OF Exchange(1)] by auto
    have inv: "exchange_inv (b, io, ?c)"
      using fin[OF Exchange(1)] rx st same_rx_ok(1)[OF io] Exchange(2) by (auto simp: exchange_inv_def server_state_ok_def)
    have q0: "quiet io" using assms(2) Exchange(2) quiet_same[OF io] by (simp add: flag_true_def)
    from inv Exchange(3) show ?thesis
    proof (cases rule: sv_poll_bidirect_cases)
      case (Over b2 c2)
      have "quiet io1" using sv_bidirect_loop_quiet[OF inv Over(1)] q0 by simp
      with Exchange(4,5) show ?thesis by (cases q) (auto intro: quiet_flag)
    next
      case (Stopped x)
      then have "x = Pending" using assms(4,5) Exchange(4) by (cases x) auto
      with sv_bidirect_loop_quiet[OF inv Stopped(1)] q0 Exchange(4,5) Stopped show ?thesis by (auto intro: quiet_flag)
    qed
  next
    case (Body io b q io1 c)
    have io: "tx_ok io" "can_poll_write io" "same_rx (sv_io self) io" using fin[OF Body(1)] by auto
    have "quiet io1" using send_body_loop_spec[OF Body(3) io(1,2)] quiet_same[OF io(3)] quiet_same[of io io1] assms(2) Body(2)
      by (auto simp: flag_true_def)
    with Body(4,5) show ?thesis by (cases q) (auto intro: quiet_flag)
  next
    case (End io)
    then show ?thesis by (simp add: flag_true_def)
  qed
  then show "flag_true self1" "r = Ok (Some (Some p)) \<Longrightarrow> \<not> bi_pending_rx (sv_io self1) \<and> can_poll_write (sv_io self1)" by blast+
qed

lemma sv_drive_flag:
  assumes "server_ok self" "flag_true self" "sv_drive api w want reg self = (r, self1)" "\<forall>p. r \<noteq> Panic p" "\<forall>e. r \<noteq> Err e"
  shows "flag_true self1 \<and> (\<forall>p. r = Ok (Some p) \<longrightarrow> \<not> bi_pending_rx (sv_io self1) \<and> can_poll_write (sv_io self1))"
proof -
  let ?Q = "\<lambda>r self1. (\<forall>p. r \<noteq> Panic p) \<longrightarrow> (\<forall>e. r \<noteq> Err e) \<longrightarrow> flag_true self1
    \<and> (\<forall>p. r = Ok (Some p) \<longrightarrow> \<not> bi_pending_rx (sv_io self1) \<and> can_poll_write (sv_io self1))"
  from assms(3) have "?Q r self1"
  proof (rule sv_drive_rule[where I = "\<lambda>s. server_ok s \<and> flag_true s" and Q = ?Q], goal_cases)
    case 1
    then show ?case using assms(1,2) by simp
  next
    case (2 s s1)
    then show ?case using server_round_post(1)[of s api w want reg "Ok None" s1] server_round_flag(1)[of s api w want reg "Ok None" s1] by simp
  next
    case (3 s s1 p)
    then show ?case using server_round_flag[of s api w want reg "Ok (Some p)" s1] by auto
  next
    case (5 s s1)
    then show ?case using server_round_flag(1)[of s api w want reg Pending s1] by auto
  qed simp_all
  with assms(4,5) show ?thesis by blast
qed

lemma poll_server_flag:
  assumes "server_ok self" "flag_true self" "poll_server api w want reg self = (r, self1)" "\<forall>p. r \<noteq> Panic p"
  shows "flag_true self1" "r = Ok (Some p) \<Longrightarrow> \<not> bi_pending_rx (sv_io self1) \<and> can_poll_write (sv_io self1)"
proof -
  obtain s where d: "sv_drive api w want reg self = (r, s)" "(\<forall>e. r \<noteq> Err e) \<longrightarrow> self1 = s"
    "(\<exists>e. r = Err e) \<longrightarrow> self1 = s\<lparr>sv_state := Closed, sv_chans := drop_server_state (sv_state s) (sv_chans s)\<rparr>"
    using assms(3) by (rule poll_server_drive)
  have "flag_true self1 \<and> (r = Ok (Some p) \<longrightarrow> \<not> bi_pending_rx (sv_io self1) \<and> can_poll_write (sv_io self1))"
  proof (cases "\<exists>e. r = Err e")
    case True
    with d(3) show ?thesis by (auto simp: flag_true_def)
  next
    case False
    with d(2) sv_drive_flag[OF assms(1,2) d(1) assms(4)] show ?thesis by blast
  qed
  then show "flag_true self1" "r = Ok (Some p) \<Longrightarrow> \<not> bi_pending_rx (sv_io self1) \<and> can_poll_write (sv_io self1)" by blast+
qed

interpretation flag: connection_invariant api flag_true for api
proof unfold_locales
  show "flag_true (sv_handshake t)" for t
    by (simp add: sv_handshake_def server_new_def flag_true_def bi_with_capacity_def)
qed (simp_all add: flag_chans poll_server_flag(1))

text \<open>A request is accepted with the flag down and the transport ready to be written to.\<close>

lemma accept_flag:
  assumes "server_reachable api (sv, hs)" "poll_accept api w sv = (Ok (Some p), sv1)"
  shows "flag_true sv" "\<not> bi_pending_rx (sv_io sv1)" "can_poll_write (sv_io sv1)"
proof -
  show "flag_true sv" using flag.reachable[OF assms(1)] by simp
  have "server_ok sv" "drives_are (all_drives hs) (sv_chans sv)" "0 < all_drives hs"
    using server_reachable_ok[OF assms(1)] by (simp_all add: system_ok_def all_drives_def)
  note ok = this
  have "poll_server api w True True (sv\<lparr>sv_chans := drive_clone (sv_chans sv)\<rparr>) = (Ok (Some p), sv1)"
    using assms(2) ok(2,3) by (cases rule: poll_accept_cases) simp_all
  from poll_server_flag(2)[OF _ _ this _ refl] ok(1) \<open>flag_true sv\<close> show "\<not> bi_pending_rx (sv_io sv1)" "can_poll_write (sv_io sv1)"
    by (simp_all add: flag_chans)
qed

section \<open>A handle that is told to wait\<close>

lemma sv_drive_pending:
  assumes "sv_drive api w False reg self = (Pending, self1)"
  shows "bi_pending_tx (sv_io self1) \<or> (\<exists>b. sv_state self1 = SendRes b) \<or> (\<exists>b. sv_state self1 = SendBody b)"
proof -
  let ?Q = "\<lambda>r self1. r = Pending \<longrightarrow> bi_pending_tx (sv_io self1) \<or> (\<exists>b. sv_state self1 = SendRes b) \<or> (\<exists>b. sv_state self1 = SendBody b)"
  from assms have "?Q (Pending :: package option res) self1"
  proof (rule sv_drive_rule[where I = "\<lambda>_. True" and Q = ?Q], goal_cases)
    case (5 s s1)
    from 5(2) show ?case
    proof (cases rule: server_round_cases)
      case (Write q io)
      then have "q = Pending" by (cases q) (auto simp: lift_io_def)
      with Write poll_finish_waits show ?thesis by simp
    next
      case (Exchange io b q b1 io1 c)
      then show ?thesis by (cases q) auto
    next
      case (Body io b q io1 c)
      then show ?thesis by (cases q) auto
    qed simp_all
  qed simp_all
  then show ?thesis by simp
qed

text \<open>
  C16. A handle is only told to wait when waiting is right. In every reachable state, when a handle that
  drives the connection gets \<^verbatim>\<open>Poll::Pending\<close>, a write to the transport is under way, or
  the transport has nothing to read and nothing that was received is left in the read buffer: no byte that could
  be passed on is held back by a flag that is out of date. And \<^verbatim>\<open>accept\<close> delivers a request with the
  flag for reading cleared and nothing left to write, so the first call on its handles is not told to wait for
  something that has happened already.
\<close>

theorem server_pending_true:
  assumes "server_reachable api (sv, hs)"
  shows "(\<forall>sv1. poll_drive_external api w sv = (Pending, sv1) \<longrightarrow>
        bi_pending_tx (sv_io sv1) \<or> bi_pending_rx (sv_io sv1) \<and> unread (sv_io sv1) = [])
    \<and> (\<forall>p sv1. poll_accept api w sv = (Ok (Some p), sv1) \<longrightarrow> \<not> bi_pending_rx (sv_io sv1) \<and> can_poll_write (sv_io sv1))"
proof -
  have ok: "server_ok sv" "flag_true sv"
    using server_reachable_ok[OF assms] flag.reachable[OF assms] by (simp_all add: system_ok_def)
  have "bi_pending_tx (sv_io sv1) \<or> bi_pending_rx (sv_io sv1) \<and> unread (sv_io sv1) = []"
    if p: "poll_drive_external api w sv = (Pending, sv1)" for sv1
  proof -
    obtain q where q: "poll_server api w False False sv = (q, sv1)"
      "Pending = (Pending :: unit res) \<longleftrightarrow> q = Pending \<and> (bi_pending_rx (sv_io sv1) \<or> bi_pending_tx (sv_io sv1))"
      using p by (rule poll_drive_external_cases) blast
    then have "sv_drive api w False False sv = (Pending, sv1)" using poll_server_drive[OF q(1)] by auto
    moreover have "flag_true sv1" using poll_server_flag(1)[OF ok q(1)] q(2) by simp
    ultimately show ?thesis using sv_drive_pending q(2) by (fastforce simp: flag_true_def quiet_def)
  qed
  with accept_flag(2,3)[OF assms] show ?thesis by blast
qed

definition wit_waiting :: server where
  "wit_waiting = snd (poll_drive_external wit_api 8 wit_accepted)"

theorem server_pending_true_witness:
  "poll_drive_external wit_api 8 wit_accepted = (Pending, wit_waiting) \<and> \<not> bi_pending_tx (sv_io wit_waiting)
     \<and> bi_pending_rx (sv_io wit_waiting) \<and> unread (sv_io wit_waiting) = []"
proof -
  have eq: "poll_drive_external wit_api 8 wit_accepted = (Pending, wit_waiting)"
    unfolding wit_waiting_def by (rule pending_pair) code_simp
  moreover have "\<not> bi_pending_tx (sv_io wit_waiting)" by code_simp
  ultimately show ?thesis using server_pending_true[OF wit_accepted_reachable, of 8] by blast
qed

end
