(* ===== verification/Server_Delivery.thy ===== *)
theory Server_Delivery
  imports Server_Flag
begin

text \<open>
  A body that arrives in full is delivered in full: while the user of the server does nothing but read
  the body of a request, every read gets something, reaches the end, or has used up something of
  what the transport will answer, so enough reads reach the end.
\<close>

section \<open>One chunk of a body that arrives\<close>

lemma fine_same:
  assumes "lr_fine (l, io)" "in_stream io1 = in_stream io" "io_clean io \<Longrightarrow> io_clean io1" "\<not> lr_is_read_to_end l"
  shows "lr_fine (l, io1)"
  using assms by (cases l) (auto simp: lr_fine_def lr_is_read_to_end_def)

lemma fine_more:
  assumes "lr_fine (l, io)" "\<not> lr_is_complete l" "\<not> lr_is_read_to_end l"
  shows "io_clean io" "in_stream io \<noteq> []"
  using assms by (cases l; auto simp: lr_fine_def lr_is_complete_def lr_is_read_to_end_def clr_left_zero)+

lemma poll_fill_buf_fine:
  assumes "rx_ok io" "poll_fill_buf False io = (r, io1)" "io_clean io" "in_stream io \<noteq> []" "\<forall>p. r \<noteq> Panic p"
  shows "io_clean io1" "r = Pending \<and> io_size io1 < io_size io \<or> (\<exists>buf. r = Ok buf \<and> buf \<noteq> [])"
proof -
  have "io_clean io1 \<and> (r = Pending \<and> io_size io1 < io_size io \<or> (\<exists>buf. r = Ok buf \<and> buf \<noteq> []))"
    using assms(1,2,5)
  proof (cases rule: poll_fill_buf_cases)
    case Kept
    with assms(3) show ?thesis by simp
  next
    case (Read n q t)
    have clean: "rx_clean (tr_rx t)" "q \<noteq> Ok []" "\<forall>e. q \<noteq> Err e"
      using tr_poll_read_clean[OF Read(2,1)] assms(3) by (auto simp: io_clean_def)
    have "q \<noteq> Panic p" for p using assms(5) Read(6) by (cases q) auto
    with clean consider bs where "q = Ok bs" "bs \<noteq> []" | "q = Pending" by (cases q) auto
    then show ?thesis
    proof cases
      case 1
      with Read clean show ?thesis by (simp add: io_clean_def)
    next
      case 2
      then have un: "unread io1 = unread io" "unread io = []" "r = Pending" using Read by simp_all
      have "tr_rx t \<noteq> []"
      proof
        assume "tr_rx t = []"
        then have "rx_bytes (tr_rx (bi_inner io)) = []" using tr_poll_read_stream(2) Read(2) 2 by fastforce
        with un assms(4) show False by (simp add: in_stream_def)
      qed
      with tr_poll_read_pending Read(2,3) 2 un clean show ?thesis by (fastforce simp: io_clean_def io_size_def)
    qed
  qed
  then show "io_clean io1" "r = Pending \<and> io_size io1 < io_size io \<or> (\<exists>buf. r = Ok buf \<and> buf \<noteq> [])" by blast+
qed

lemma take_read_buf_fine:
  assumes "rx_ok io" "can_take_read_buf io" "take_read_buf io = (bs, io1)" "unmixed (LR_ContentLength v, io)"
    "lr_fine (LR_ContentLength v, io)"
  shows "lr_fine (LR_ContentLength (v\<lparr>clr_total := clr_total v + of_nat (length bs)\<rparr>), io1)"
proof -
  have io1: "in_stream io = bs @ in_stream io1" "bi_inner io1 = bi_inner io"
    using take_read_buf_spec(3)[OF assms(1-3)] assms(3) by (auto simp: take_read_buf_def)
  have "length bs + length (in_stream io1) \<le> clr_left v" using assms(4) io1(1) by (simp add: unmixed_def)
  moreover from this have "clr_left (v\<lparr>clr_total := clr_total v + of_nat (length bs)\<rparr>) = clr_left v - length bs"
    by (intro lr_accept_left) simp
  ultimately show ?thesis using assms(5) io1 by (simp add: lr_fine_def io_clean_def)
qed

lemma read_chunk_fine:
  assumes "rx_ok io" "limit_ok l" "0 < n" "read_chunk n (l, io) = (r, l1, io1)" "unmixed (l, io)"
    and "lr_fine (l, io)" "\<not> lr_is_complete l" "unread io \<noteq> []"
  shows "lr_fine (l1, io1)" "r = Pending \<and> \<not> lr_is_complete l1 \<and> io_size io1 < io_size io
    \<or> (\<exists>bs. r = Ok bs \<and> (bs = [] \<longrightarrow> lr_is_complete l1))"
proof -
  have "lr_fine (l1, io1) \<and> (r = Pending \<and> \<not> lr_is_complete l1 \<and> io_size io1 < io_size io
      \<or> (\<exists>bs. r = Ok bs \<and> (bs = [] \<longrightarrow> lr_is_complete l1)))"
  proof (cases "lr_can_read_entire_vec l \<and> can_take_read_buf io")
    case True
    then obtain v where l: "l = LR_ContentLength v" by (auto simp: lr_can_read_entire_vec_def split: limit_read.splits)
    obtain bs io2 where t: "take_read_buf io = (bs, io2)" by fastforce
    have "r = Ok bs" "l1 = LR_ContentLength (v\<lparr>clr_total := clr_total v + of_nat (length bs)\<rparr>)" "io1 = io2"
      using assms(4) True t l by (simp_all add: read_chunk_def lr_accept_entire_vec_def)
    moreover have "bs \<noteq> []" using take_read_buf_only(1)[OF t] True assms(8) by simp
    ultimately show ?thesis using take_read_buf_fine[OF assms(1) _ t, of v] True assms(5,6) l by simp
  next
    case False
    obtain q l2 io2 where q: "lr_poll_read n (l, io) = (q, l2, io2)" by (metis prod_cases3)
    have ok: "lr_ok (l, io)" using assms(1,2) by (simp add: lr_ok_iff)
    note prog = lr_poll_progress[OF ok assms(3,6,7) q]
    show ?thesis
    proof (cases q)
      case (Ok bs)
      then have "length bs \<le> n" using lr_poll_read_stream[OF ok assms(3) q] by blast
      with fresh_borrow(1)[OF assms(3)] fresh_borrow(2)[OF assms(3), of bs] Ok assms(4) False q have "r = Ok bs" "l1 = l2" "io1 = io2"
        by (auto simp: read_chunk_def)
      with prog lr_poll_empty[OF ok assms(3,6)] q Ok show ?thesis by auto
    next
      case Pending
      with fresh_borrow(1)[OF assms(3)] assms(4) False q have "r = Pending" "l1 = l2" "io1 = io2" by (auto simp: read_chunk_def)
      with prog lr_poll_pending[OF ok assms(3,6,7)] q Pending show ?thesis by auto
    qed (use prog lr_poll_read_stream[OF ok assms(3) q] in auto)
  qed
  then show "lr_fine (l1, io1)" "r = Pending \<and> \<not> lr_is_complete l1 \<and> io_size io1 < io_size io
    \<or> (\<exists>bs. r = Ok bs \<and> (bs = [] \<longrightarrow> lr_is_complete l1))" by blast+
qed

section \<open>A connection that only receives\<close>

text \<open>
  The request \<open>i\<close> is exchanged, its user has not answered on the channel \<open>j\<close>, and what is left of
  the body will arrive. When the transport is said to be pending, nothing is left in the read buffer or on
  the way to the user.
\<close>

definition arriving :: "nat \<Rightarrow> nat \<Rightarrow> exchange \<Rightarrow> bool" where
  "arriving i j = (\<lambda>(b, io, c).
     sbi_rx_res b = Some j \<and> ch_queue (sc_res c j) = [] \<and> ch_senders (sc_res c j) \<noteq> 0
     \<and> rx_ok io \<and> tx_ok io \<and> can_poll_write io \<and> exchange_ok b
     \<and> stream_open (sc_in c i) (if sbi_tx_body b = None then 0 else 1) \<and> ch_bound (sc_in c i) = 1
     \<and> Inr [] \<notin> set (ch_queue (sc_in c i))
     \<and> (sbi_tx_body b \<noteq> None \<longrightarrow> sbi_tx_body b = Some i \<and> \<not> lr_is_complete (sbi_limit b)
          \<and> lr_fine (sbi_limit b, io) \<and> unmixed (sbi_limit b, io))
     \<and> (bi_pending_rx io \<longrightarrow> unread io = [] \<and> sbi_tx_body b \<noteq> None \<and> ch_queue (sc_in c i) = []))"

lemma arriving_channel_full:
  assumes "arriving i j (b, io, c)" "ch_queue (sc_in c i) \<noteq> []" "sbi_tx_body b = Some i"
    "sv_poll_read_body w (b, io, c) = (r, b1, io1, c1)"
  shows "r = Pending \<and> io1 = io \<and> arriving i j (b1, io1, c1) \<and> ch_queue (sc_in c1 i) \<noteq> []"
proof -
  have "sender_poll_ready w True (sc_in c i) = (Pending, (sc_in c i)\<lparr>ch_wakers := ch_wakers (sc_in c i) @ [w]\<rparr>)"
    using assms(1,2) by (auto simp: arriving_def stream_open_def chan_open_def sender_poll_ready_def inner_poll_ready_def Suc_le_eq)
  with assms(3,4) have "r = Pending" "b1 = b" "io1 = io"
    "c1 = upd_in i (\<lambda>_. (sc_in c i)\<lparr>ch_wakers := ch_wakers (sc_in c i) @ [w]\<rparr>) c"
    by (auto simp: sv_poll_read_body_def)
  with assms(1,2) show ?thesis by (auto simp: arriving_def stream_open_def chan_open_def)
qed

text \<open>What reading does when there is room in the channel.\<close>

lemma sv_poll_read_body_room:
  assumes "arriving i j (b, io, c)" "ch_queue (sc_in c i) = []" "sbi_tx_body b = Some i"
    "sv_poll_read_body w (b, io, c) = (r, b1, io1, c1)"
  shows "lr_fine (sbi_limit b1, io1) \<and> settled (r = Pending) io io1
    \<and> (r = Pending \<and> \<not> lr_is_complete (sbi_limit b1) \<and> io_size io1 < io_size io \<or> r = Ok () \<and> \<not> bi_pending_rx io1)
    \<and> io_size io1 \<le> io_size io"
proof -
  let ?io = "ensure_read_capacity (sbi_cur_read_size b) io"
  have inv: "rx_ok io" "limit_ok (sbi_limit b)" "\<not> lr_is_read_to_end (sbi_limit b)" "\<not> lr_is_complete (sbi_limit b)"
    "lr_fine (sbi_limit b, io)" "unmixed (sbi_limit b, io)" "bi_pending_rx io \<Longrightarrow> unread io = []"
    using assms(1,3) by (auto simp: arriving_def exchange_ok_def server_limit_ok_def)
  have ready: "sender_poll_ready w True (sc_in c i) = (Ok True, sc_in c i)"
    using assms(1,2) by (auto simp: arriving_def stream_open_def chan_open_def sender_poll_ready_def inner_poll_ready_def)
  have io: "rx_ok ?io" "in_stream ?io = in_stream io" "bi_inner ?io = bi_inner io" "bi_pending_rx ?io = bi_pending_rx io" "unread ?io = unread io"
    using ensure_read_capacity_spec[OF inv(1)] by (simp_all add: ensure_read_capacity_def)
  note more = fine_more[OF inv(5,4,3)]
  obtain f io2 where f: "poll_fill_buf False ?io = (f, io2)" by fastforce
  have np: "f \<noteq> Panic p" for p
  proof
    assume p: "f = Panic p"
    have "fb_len (bi_buf ?io) \<noteq> 0" using poll_fill_buf_spec[OF io(1) f] p io(1) by (auto simp: rx_ok_def)
    with f p show False by (simp add: poll_fill_buf_def)
  qed
  note fill = poll_fill_buf_fine[OF io(1) f _ _ allI[OF np]] and only = poll_fill_buf_only[OF f allI[OF np]]
    and spec = poll_fill_buf_spec[OF io(1) f]
  have clean: "io_clean ?io" "in_stream ?io \<noteq> []" using more io(2,3) by (simp_all add: io_clean_def)
  have set1: "settled (f = Pending) io io2" using only(4) io(4,5) by (simp add: settled_def)
  have size: "io_size ?io = io_size io" using io(3,5) by (simp add: io_size_def)
  from fill(2)[OF clean] show ?thesis
  proof (elim disjE exE conjE)
    assume pend: "f = Pending" "io_size io2 < io_size ?io"
    with assms(3,4) ready f have eq: "r = Pending" "b1 = b" "io1 = io2" by (auto simp: sv_poll_read_body_def Let_def)
    have "in_stream io2 = in_stream io" using spec pend(1) io(2) by simp
    then have "lr_fine (sbi_limit b, io2)" using fine_same[OF inv(5) _ _ inv(3)] fill(1)[OF clean] by blast
    with eq pend set1 inv(4) size show ?thesis by simp
  next
    fix buf
    assume buf: "f = Ok buf" "buf \<noteq> []"
    have io2: "rx_ok io2" "buf = unread io2" "in_stream io2 = in_stream io" using spec buf(1) io(2) by auto
    have np2: "\<not> bi_pending_rx io2"
    proof
      assume p: "bi_pending_rx io2"
      then have "bi_pending_rx io" using set1 buf(1) by (simp add: settled_def)
      then have "unread ?io = []" using inv(7) io(5) by simp
      with poll_fill_buf_flag[OF f[unfolded buf(1)]] p io(1) show False by (auto simp: unread_nil_iff rx_ok_def)
    qed
    have fine2: "lr_fine (sbi_limit b, io2)" "unmixed (sbi_limit b, io2)"
      using fine_same[OF inv(5) io2(3) _ inv(3)] fill(1)[OF clean] inv(6) io2(3) by (simp_all add: unmixed_def split: limit_read.splits)
    obtain g l io3 where g: "read_chunk (length buf) (sbi_limit b, io2) = (g, l, io3)" by (metis prod_cases3)
    have pos: "0 < length buf" "unread io2 \<noteq> []" using buf(2) io2(2) by auto
    note chunk = read_chunk_fine[OF io2(1) inv(2) pos(1) g fine2(2,1) inv(4) pos(2)] and set2 = read_chunk_only(4)[OF g]
    have size3: "io_size io3 \<le> io_size io2" using read_chunk_only(1)[OF g] by (simp add: reads_only_def)
    have size2: "io_size io2 \<le> io_size io" using only(1) size by (simp add: reads_only_def)
    have set3: "settled (g = Pending) io io3" using set1 buf(1) set2 settled_trans by fastforce
    from chunk(2) show ?thesis
    proof (elim disjE exE conjE)
      assume p: "g = Pending" "\<not> lr_is_complete l" "io_size io3 < io_size io2"
      with assms(3,4) ready f buf g have "r = Pending" "b1 = b\<lparr>sbi_limit := l\<rparr>" "io1 = io3"
        by (auto simp: sv_poll_read_body_def Let_def)
      with chunk(1) p set3 size2 size3 show ?thesis by simp
    next
      fix bs
      assume bs: "g = Ok bs" "bs = [] \<longrightarrow> lr_is_complete l"
      then have pass: "pass_chunk i bs (b\<lparr>sbi_limit := l\<rparr>, io3, c) = (r, b1, io1, c1)"
        using assms(3,4) ready f buf g by (simp add: sv_poll_read_body_def)
      then have "r = Ok () \<and> io1 = io3 \<and> sbi_limit b1 = l"
        using bs(2) by (cases rule: pass_chunk_cases) auto
      with chunk(1) set2 set3 np2 bs(1) size2 size3 show ?thesis by (simp add: settled_def)
    qed
  qed
qed

lemma arriving_channel_room:
  assumes "arriving i j (b, io, c)" "ch_queue (sc_in c i) = []" "sbi_tx_body b = Some i"
    "sv_poll_read_body w (b, io, c) = (r, b1, io1, c1)"
  shows "arriving i j (b1, io1, c1) \<and> io_size io1 \<le> io_size io
    \<and> (r = Pending \<and> io_size io1 < io_size io \<and> bi_pending_rx io1 \<or> r = Ok () \<and> \<not> bi_pending_rx io1)"
proof -
  note room = sv_poll_read_body_room[OF assms]
  have inv: "rx_ok io" "server_limit_ok (sbi_limit b)" "tx_ok io" "can_poll_write io" "stream_open (sc_in c i) 1" "unmixed (sbi_limit b, io)"
    using assms(1,3) by (auto simp: arriving_def exchange_ok_def)
  have good: "r = Ok () \<or> r = Pending" using room by blast
  obtain bs where bs: "same_tx io io1" "b1 = b\<lparr>sbi_limit := sbi_limit b1, sbi_tx_body := sbi_tx_body b1\<rparr>"
    "chunk_passed i bs (sbi_tx_body b1 = None) c c1" "rx_ok io1" "server_limit_ok (sbi_limit b1)" "unmixed (sbi_limit b1, io1)"
    "r \<noteq> Ok () \<longrightarrow> bs = [] \<and> sbi_tx_body b1 = Some i"
    "r = Ok () \<longrightarrow> sbi_tx_body b1 = (if lr_is_complete (sbi_limit b1) then None else Some i)"
    using sv_poll_read_body_spec[OF assms(4,3) inv(1,2)] good inv(6) by metis
  note frame = sv_poll_read_body_frame[OF assms(4)] and passed = stream_open_passed(1)[OF bs(3) inv(5)]
  have q: "ch_queue (sc_in c1 i) = (if bs = [] then [] else [Inr bs])" "ch_bound (sc_in c1 i) = ch_bound (sc_in c i)"
    using bs(3) inv(5) assms(2) by (simp_all add: chunk_passed_def stream_open_def)
  have tx: "tx_ok io1" "can_poll_write io1" using same_txD[OF bs(1)] inv(3,4) by simp_all
  have ok: "exchange_ok b1"
  proof -
    have "exchange_ok b" "sbi_rx_res b = Some j" using assms(1) by (auto simp: arriving_def)
    with bs(5) frame(1,2) show ?thesis unfolding exchange_ok_def by metis
  qed
  have pend: "bi_pending_rx io1 \<longleftrightarrow> r = Pending" "r = Pending \<Longrightarrow> unread io1 = []"
    using room by (auto simp: settled_def)
  have done_or: "sbi_tx_body b1 \<noteq> None \<longrightarrow> sbi_tx_body b1 = Some i \<and> \<not> lr_is_complete (sbi_limit b1)"
    using bs(7,8) room good by (auto split: if_splits)
  have res: "sbi_rx_res b1 = Some j" "ch_queue (sc_res c1 j) = []" "ch_senders (sc_res c1 j) \<noteq> 0" "ch_bound (sc_in c1 i) = 1"
    using assms(1) frame(1,4) q(2) by (auto simp: arriving_def)
  have queue: "Inr [] \<notin> set (ch_queue (sc_in c1 i))" using q(1) by simp
  have wait: "bi_pending_rx io1 \<longrightarrow> unread io1 = [] \<and> sbi_tx_body b1 \<noteq> None \<and> ch_queue (sc_in c1 i) = []"
    using pend bs(7) q(1) by simp
  have "arriving i j (b1, io1, c1)" unfolding arriving_def split_conv
    using res queue wait room bs(4,6) passed tx ok done_or by blast
  then show ?thesis using room pend by blast
qed

section \<open>Driving it\<close>

lemma response_not_there:
  assumes "arriving i j (b, io, c)"
  shows "exchange_round w False (b, io, c) = (if sbi_tx_body b = None then (Pending, b, io, c) else sv_poll_read_body w (b, io, c))"
proof -
  have j: "sbi_rx_res b = Some j" "ch_queue (sc_res c j) = []" "ch_senders (sc_res c j) \<noteq> 0" using assms by (auto simp: arriving_def)
  have "poll_recv w False (sc_res c j) = (Pending, sc_res c j)"
    using j(2,3) by (cases rule: poll_recv_reg_cases[of w False "sc_res c j"]) auto
  with j(1) have "poll_send_resp w False (b, io, c) = (Pending, b, io, c)" by (simp add: poll_send_resp_def upd_res_def)
  with j(1) show ?thesis by (simp add: exchange_round_def poll_if_def rx_res_waits_def tx_body_waits_def)
qed

lemma arriving_loop:
  assumes "sv_bidirect_loop w False (b, io, c) = (r, b1, io1, c1)" "arriving i j (b, io, c)"
  shows "r = Pending \<and> arriving i j (b1, io1, c1) \<and> io_size io1 \<le> io_size io
    \<and> (if bi_pending_rx io1 then io_size io1 < io_size io else ch_queue (sc_in c1 i) \<noteq> [] \<or> sbi_tx_body b1 = None)"
proof -
  let ?I = "\<lambda>(b1, io1, c1). arriving i j (b1, io1, c1) \<and> io_size io1 \<le> io_size io
    \<and> (bi_pending_rx io1 \<longrightarrow> (b1, io1, c1) = (b, io, c))"
  let ?Q = "\<lambda>r (b1, io1, c1). r = Pending \<and> arriving i j (b1, io1, c1) \<and> io_size io1 \<le> io_size io
    \<and> (if bi_pending_rx io1 then io_size io1 < io_size io else ch_queue (sc_in c1 i) \<noteq> [] \<or> sbi_tx_body b1 = None)"
  have round: "if r = Ok () then ?I (b2, io2, c2) else ?Q r (b2, io2, c2)"
    if I: "?I (b1, io1, c1)" and step: "exchange_round w False (b1, io1, c1) = (r, b2, io2, c2)" for r b1 io1 c1 b2 io2 c2
  proof -
    have arr: "arriving i j (b1, io1, c1)" using I by simp
    note eq = step[unfolded response_not_there[OF arr]]
    show ?thesis
    proof (cases "sbi_tx_body b1")
      case None
      then have "r = Pending" "b2 = b1" "io2 = io1" "c2 = c1" using eq by simp_all
      moreover have "\<not> bi_pending_rx io1" using arr None by (auto simp: arriving_def)
      ultimately show ?thesis using I None by simp
    next
      case (Some i1)
      then have i: "sbi_tx_body b1 = Some i" using arr by (auto simp: arriving_def)
      with eq have rd: "sv_poll_read_body w (b1, io1, c1) = (r, b2, io2, c2)" by simp
      show ?thesis
      proof (cases "ch_queue (sc_in c1 i) = []")
        case True
        from arriving_channel_room[OF arr True i rd] I show ?thesis by auto
      next
        case False
        then have "\<not> bi_pending_rx io1" using arr by (auto simp: arriving_def)
        with arriving_channel_full[OF arr False i rd] I show ?thesis by auto
      qed
    qed
  qed
  from assms(1) have "?Q r (b1, io1, c1)"
  proof (rule sv_bidirect_loop_rule[where I = ?I and Q = ?Q], goal_cases)
    case 1
    then show ?case using assms(2) by simp
  next
    case (2 s s1)
    obtain b1 io1 c1 b2 io2 c2 where s: "s = (b1, io1, c1)" "s1 = (b2, io2, c2)" by (metis prod_cases3)
    from round[OF 2(1)[unfolded s(1)] 2(3)[unfolded s]] s show ?case by simp
  next
    case (3 s q s1)
    obtain b1 io1 c1 b2 io2 c2 where s: "s = (b1, io1, c1)" "s1 = (b2, io2, c2)" by (metis prod_cases3)
    from round[OF 3(1)[unfolded s(1)] 3(3)[unfolded s]] s 3(4) show ?case by auto
  next
    case (4 s)
    then have False by (cases s) (auto simp: arriving_def rx_res_waits_def)
    then show ?case ..
  qed
  then show ?thesis by auto
qed

text \<open>The same for a connection.\<close>

definition receiving :: "nat \<Rightarrow> nat \<Rightarrow> server \<Rightarrow> bool" where
  "receiving i j sv \<longleftrightarrow> (case sv_state sv of SendRes b \<Rightarrow> arriving i j (b, sv_io sv, sv_chans sv) | _ \<Rightarrow> False)"

lemma receiving_drive:
  assumes "receiving i j sv" "poll_drive_external api w sv = (r, sv1)"
  shows "receiving i j sv1 \<and> io_size (sv_io sv1) \<le> io_size (sv_io sv)
    \<and> (r = Pending \<and> io_size (sv_io sv1) < io_size (sv_io sv)
       \<or> r = Ok () \<and> (ch_queue (sc_in (sv_chans sv1) i) \<noteq> [] \<or> ch_senders (sc_in (sv_chans sv1) i) = 0))"
proof -
  obtain b where b: "sv_state sv = SendRes b" "arriving i j (b, sv_io sv, sv_chans sv)"
    using assms(1) by (auto simp: receiving_def split: server_state.splits)
  obtain q b1 io1 c1 where q: "sv_bidirect_loop w False (b, sv_io sv, sv_chans sv) = (q, b1, io1, c1)" by (metis prod_cases4)
  note loop = arriving_loop[OF q b(2)]
  let ?sv = "\<lparr>sv_io = io1, sv_state = SendRes b1, sv_chans = c1\<rparr>"
  have io: "can_poll_write (sv_io sv)" "\<not> bi_pending_tx io1"
    using b(2) loop by (auto simp: arriving_def can_poll_write_def)
  have "sv_poll_bidirect w False (b, sv_io sv, sv_chans sv) = (Pending, b1, io1, c1)"
    using q loop by (simp add: sv_poll_bidirect_def)
  then have "poll_server api w False False sv = (Pending, ?sv)"
    using b(1) io(1) by (cases sv) (simp add: poll_server_def sv_drive.simps poll_finish_idle drop_want_def)
  then have "r = (if bi_pending_rx io1 then Pending else Ok ())" "sv1 = ?sv"
    using assms(2) io(2) by (auto simp: poll_drive_external_def Let_def split: if_splits)
  moreover have "ch_senders (sc_in c1 i) = 0" if "sbi_tx_body b1 = None"
    using loop that by (auto simp: arriving_def stream_open_def)
  ultimately show ?thesis using loop by (auto simp: receiving_def)
qed

section \<open>The reads of its user\<close>

definition reading_body :: "nat \<Rightarrow> nat \<Rightarrow> recv_stream \<times> server \<Rightarrow> bool" where
  "reading_body i j = (\<lambda>(rs, sv). receiving i j sv \<and> stream_ok i (rs, sv) \<and> \<not> rs_ended rs
     \<and> tidy (rs, sc_in (sv_chans sv) i))"

definition body_togo :: "nat \<Rightarrow> recv_stream \<times> server \<Rightarrow> nat" where
  "body_togo i = (\<lambda>(rs, sv). length (stream_due i (rs, sv)) + io_size (sv_io sv))"

lemma arriving_take:
  assumes "arriving i j (b, io, c)" "chan_open q" "set (ch_queue q) \<subseteq> set (ch_queue (sc_in c i))"
    "ch_senders q = ch_senders (sc_in c i)" "ch_bound q = ch_bound (sc_in c i)"
  shows "arriving i j (b, io, upd_in i (\<lambda>_. q) c)"
proof -
  have "ch_queue q = []" if "ch_queue (sc_in c i) = []" using that assms(3) by simp
  with assms show ?thesis by (auto simp: arriving_def stream_open_def)
qed

lemma server_read_progress:
  assumes "reading_body i j (rs, sv)" "0 < n" "server_read api w i n (rs, sv) = (r, rs1, sv1)"
  shows "(r = Pending \<or> (\<exists>bs. r = Ok bs))
    \<and> (rs_ended rs1 \<or> reading_body i j (rs1, sv1) \<and> body_togo i (rs1, sv1) < body_togo i (rs, sv))"
proof -
  have inv: "receiving i j sv" "stream_ok i (rs, sv)" "\<not> rs_ended rs" "tidy (rs, sc_in (sv_chans sv) i)"
    using assms(1) by (simp_all add: reading_body_def)
  obtain q t where q: "poll_drive_external api w sv = (q, t)" by fastforce
  note drive = receiving_drive[OF inv(1) q]
  obtain b where b: "sv_state t = SendRes b" "arriving i j (b, sv_io t, sv_chans t)"
    using drive by (auto simp: receiving_def split: server_state.splits)
  let ?q = "sc_in (sv_chans t) i"
  have chan: "chan_open ?q" "\<forall>m \<in> set (ch_queue ?q). \<exists>v. m = Inr v" "Inr [] \<notin> set (ch_queue ?q)"
    using b(2) by (auto simp: arriving_def stream_open_def)
  have rs: "rs_ok (rs, ?q)" "tidy (rs, ?q)" using inv(2,4) chan(3) rs_ok_chan by (auto simp: stream_ok_def tidy_def)
  show ?thesis
  proof (cases "q = Pending")
    case True
    then have eq: "r = Pending" "rs1 = rs" "sv1 = t" using assms(2,3) q by (simp_all add: server_read_def rs_poll_read_def poll_drive_server_def)
    have due: "stream_ok i (rs, t)" "stream_due i (rs, t) = stream_due i (rs, sv)"
      using server_read_body[OF inv(2) assms(3)] eq by simp_all
    have "reading_body i j (rs1, sv1)" using eq drive due rs(2) inv(3) by (simp add: reading_body_def)
    moreover have "body_togo i (rs1, sv1) < body_togo i (rs, sv)" using eq drive due True by (simp add: body_togo_def)
    ultimately show ?thesis using eq by simp
  next
    case False
    then have ok: "q = Ok ()" "ch_queue ?q \<noteq> [] \<or> ch_senders ?q = 0" using drive by auto
    obtain x rs2 rx where x: "poll_body_data w n (rs, ?q) = (x, rs2, rx)" by (metis prod_cases3)
    have eq: "r = x" "rs1 = rs2" "sv1 = t\<lparr>sv_chans := upd_in i (\<lambda>_. rx) (sv_chans t)\<rparr>"
      using assms(2,3) q ok(1) x by (simp_all add: server_read_def rs_poll_read_def poll_drive_server_def)
    note keeps = poll_body_data_keeps[OF rs(1) inv(3) chan(1,2) x] and gets = poll_body_data_gets[OF rs(1) inv(3) chan(2) rs(2) assms(2) x]
    have res: "r = Pending \<or> (\<exists>bs. r = Ok bs)" using keeps eq(1) by blast
    note due = server_read_body[OF inv(2) assms(3) res]
    show ?thesis
    proof (cases "rs_stream (rs, ?q) = []")
      case True
      with gets(3) ok(2) eq show ?thesis by auto
    next
      case more: False
      obtain bs where bs: "r = Ok bs" "bs \<noteq> []" using gets(2)[OF more] eq(1) by blast
      have "receiving i j sv1" using arriving_take[OF b(2), of rx] keeps poll_body_data_bound(1)[OF x] b(1) eq(3)
        by (simp add: receiving_def)
      then have "reading_body i j (rs1, sv1)" if "\<not> rs_ended rs1"
        using that due gets(1) eq by (simp add: reading_body_def)
      moreover have "body_togo i (rs1, sv1) < body_togo i (rs, sv)"
      proof -
        have "io_size (sv_io t) \<le> io_size (sv_io sv)" using drive by simp
        then show ?thesis using due bs eq(3) by (cases bs) (simp_all add: body_togo_def)
      qed
      ultimately show ?thesis using res by blast
    qed
  qed
qed

lemma read_after_end: "rs_ended rs \<Longrightarrow> server_read api w i n (rs, sv) = (r, rs1, sv1) \<Longrightarrow> rs_ended rs1"
  by (auto simp: server_read_def rs_poll_read_def poll_drive_server_def poll_body_data_def split: if_splits res.splits prod.splits)

lemma reads_after_end:
  "rs_ended (fst s) \<Longrightarrow> rs_ended (fst (snd (server_body_run api w i (replicate k (ReadBody n)) s)))"
proof (induction k arbitrary: s)
  case (Suc k)
  obtain rs sv where s: "s = (rs, sv)" by fastforce
  obtain r rs1 sv1 where r: "server_read api w i n (rs, sv) = (r, rs1, sv1)" by (metis prod_cases3)
  have "rs_ended rs1" using read_after_end[OF _ r] Suc.prems s by simp
  with Suc.IH[of "(rs1, sv1)"] r s show ?case by (cases r) (auto split: prod.splits)
qed simp

lemma server_reads_end:
  assumes "reading_body i j s" "0 < n" "body_togo i s < k"
  shows "rs_ended (fst (snd (server_body_run api w i (replicate k (ReadBody n)) s)))"
  using assms
proof (induction k arbitrary: s)
  case (Suc k)
  obtain rs sv where s: "s = (rs, sv)" by fastforce
  obtain r rs1 sv1 where r: "server_read api w i n (rs, sv) = (r, rs1, sv1)" by (metis prod_cases3)
  note step = server_read_progress[OF Suc.prems(1)[unfolded s] Suc.prems(2) r]
  let ?rest = "server_body_run api w i (replicate k (ReadBody n)) (rs1, sv1)"
  have run: "snd (server_body_run api w i (replicate (Suc k) (ReadBody n)) s) = snd ?rest"
    using step r s by (auto split: prod.splits)
  show ?case
  proof (cases "rs_ended rs1")
    case True
    have "rs_ended (fst (snd ?rest))"
      by (rule reads_after_end) (use True in simp)
    with run show ?thesis by simp
  next
    case False
    with step Suc.prems(3) s have "reading_body i j (rs1, sv1)" "body_togo i (rs1, sv1) < k" by auto
    with Suc.IH Suc.prems(2) run show ?thesis by simp
  qed
qed simp

section \<open>Delivery\<close>

lemma fresh_incomplete: "\<not> lr_is_no_body (lr_from_headers hs False) \<Longrightarrow> \<not> lr_is_complete (lr_from_headers hs False)"
  by (auto simp: lr_from_headers_def lr_is_no_body_def lr_is_complete_def clr_new_def clr_is_end_def cd_new_def cd_is_end_def
      split: option.splits if_splits)

lemma delivered_reading:
  assumes "delivered req rs i sr sv" "server_ok sv" "\<not> bi_pending_rx (sv_io sv)" "can_poll_write (sv_io sv)"
    and "unmixed (lr_from_headers (req_headers req) False, sv_io sv)" "lr_fine (lr_from_headers (req_headers req) False, sv_io sv)"
  shows "rs_ended rs \<or> reading_body i i (rs, sv)"
proof (cases "lr_is_no_body (lr_from_headers (req_headers req) False)")
  case True
  with assms(1) show ?thesis by (auto simp: delivered_def Let_def recv_stream_new_def)
next
  case False
  let ?l = "lr_from_headers (req_headers req) False" and ?c = "sv_chans sv"
  obtain b where b: "sv_state sv = SendRes b" "sbi_limit b = ?l" "sbi_tx_body b = Some i" "sbi_rx_res b = Some i"
    "rs = recv_stream_new False" "sc_in ?c i = receiver_new 1" "sc_res ?c i = receiver_new 1"
    using assms(1) False by (auto simp: delivered_def Let_def)
  have ok: "rx_ok (sv_io sv)" "tx_ok (sv_io sv)" "exchange_ok b"
    using assms(2) b(1) by (auto simp: server_ok_def server_state_ok_def)
  have "arriving i i (b, sv_io sv, ?c)" unfolding arriving_def
    using ok b assms(3-6) fresh_incomplete[OF False] by (simp add: stream_open_def receiver_new_def chan_open_def)
  then have "receiving i i sv" using b(1) by (simp add: receiving_def)
  moreover have "stream_ok i (rs, sv)" using delivered_stream(1)[OF assms(1,2,5)] .
  ultimately show ?thesis using b(5,6) by (simp add: reading_body_def tidy_def recv_stream_new_def receiver_new_def)
qed

lemma body_delivered:
  assumes "server_reachable api (sv0, hs)" "poll_accept api w sv0 = (Ok (Some ((req, rs, i), sr)), sv)"
    and "unmixed (lr_from_headers (req_headers req) False, sv_io sv)"
    and "lr_fine (lr_from_headers (req_headers req) False, sv_io sv)" "0 < n"
    and "length (lr_stream (lr_from_headers (req_headers req) False, sv_io sv)) + io_size (sv_io sv) < k"
  shows "\<exists>s1. server_body_run api w2 i (replicate k (ReadBody n)) (rs, sv)
      = (lr_stream (lr_from_headers (req_headers req) False, sv_io sv), s1) \<and> is_end_stream (fst s1)"
proof -
  have ok: "server_ok sv0" "drives_are (all_drives hs) (sv_chans sv0)"
    using server_reachable_ok[OF assms(1)] by (simp_all add: system_ok_def)
  have new: "server_ok sv" "delivered req rs i sr sv"
    using poll_accept_post(2)[OF assms(2) ok(2) _ ok(1)] poll_accept_post(4)[OF assms(2) ok(2) _ ok(1)] by auto
  note start = delivered_stream[OF new(2,1) assms(3)] and flag = accept_flag(2,3)[OF assms(1,2)]
  obtain out s1 where run: "server_body_run api w2 i (replicate k (ReadBody n)) (rs, sv) = (out, s1)" by (metis surj_pair)
  have "rs_ended (fst s1)"
    using delivered_reading[OF new(2,1) flag assms(3,4)]
  proof
    assume "rs_ended rs"
    then show ?thesis using reads_after_end[of "(rs, sv)" api w2 i k n] run by simp
  next
    assume "reading_body i i (rs, sv)"
    then show ?thesis using server_reads_end[OF _ assms(5), of i i "(rs, sv)" k api w2] assms(6) start(2) run
      by (simp add: body_togo_def)
  qed
  with server_body_run_spec[OF start(1) run] start(2) run show ?thesis by (simp add: is_end_stream_def)
qed

text \<open>
  C8. The body of a request that arrives in full, not mixed with the next request, is delivered, all of it and without
  help from elsewhere. Three things are asked of the transport: it delivers, after the head, the whole of what the
  headers announce as the body; it does not fail before that; and, if the body has a \<^verbatim>\<open>content-length\<close>, nothing
  follows it in the input, as with a client that waits for the response. (With a pipelined request or a peer that
  hangs up early the body is not delivered so: \<open>server_over_read\<close>, \<open>server_error_truncates\<close>.) Then a user who
  does nothing but read with buffers of any size, and does not answer before, reads exactly that body and is
  told its end, after no more reads than the body has bytes and the transport answers to give: driving the
  connection on behalf of the reader always gets it something or uses up one of those answers.
\<close>

theorem server_delivers_body:
  assumes "server_reachable api (sv0, hs)" "poll_accept api w sv0 = (Ok (Some ((req, rs, i), sr)), sv)"
    and "unmixed (lr_from_headers (req_headers req) False, sv_io sv)"
    and "lr_fine (lr_from_headers (req_headers req) False, sv_io sv)" "0 < n"
    and "length (lr_stream (lr_from_headers (req_headers req) False, sv_io sv)) + io_size (sv_io sv) < k"
  shows "\<exists>s1. server_body_run api w2 i (replicate k (ReadBody n)) (rs, sv)
      = (lr_stream (lr_from_headers (req_headers req) False, sv_io sv), s1) \<and> is_end_stream (fst s1)"
  using assms by (rule body_delivered)

theorem server_delivers_body_witness:
  "\<exists>s1. server_body_run wit_api 8 0 (replicate 20 (ReadBody 2)) (recv_stream_new False, wit_accepted) = (''hello'', s1)
     \<and> is_end_stream (fst s1)"
proof -
  have "case fst (poll_accept wit_api 7 wit_server) of
      Ok (Some ((req, rs, i), sr)) \<Rightarrow> (case (lr_from_headers (req_headers req) False, sv_io wit_accepted) of
        s \<Rightarrow> unmixed s \<and> lr_fine s \<and> lr_stream s = ''hello'' \<and> io_size (sv_io wit_accepted) < 15) | _ \<Rightarrow> False"
    by code_simp
  then obtain req where req: "poll_accept wit_api 7 wit_server = (Ok (Some ((req, recv_stream_new False, 0), wit_sr)), wit_accepted)"
    "unmixed (lr_from_headers (req_headers req) False, sv_io wit_accepted)"
    "lr_fine (lr_from_headers (req_headers req) False, sv_io wit_accepted)"
    "lr_stream (lr_from_headers (req_headers req) False, sv_io wit_accepted) = ''hello''" "io_size (sv_io wit_accepted) < 15"
    using wit_delivers by auto
  from server_delivers_body[OF wit_server_reachable req(1-3), of 2 20 8] req(4,5) show ?thesis by simp
qed

end
