(* ===== verification/End_To_End.thy ===== *)
theory End_To_End
  imports Server_Delivery
begin

text \<open>
  From one end of a connection to the other: the head of a request as the writer renders it and the
  messages a \<open>SendStream\<close> puts into its channel, cut and delayed by a transport in any way, are accepted by a
  server as that request with that body.
\<close>

section \<open>Accepting is polling for a head\<close>

definition awaiting :: "server \<Rightarrow> bool" where
  "awaiting sv \<longleftrightarrow> sv_state sv = RecvReq \<and> can_poll_write (sv_io sv) \<and> sc_drives (sv_chans sv) = 1"

lemma poll_accept_awaiting:
  assumes "awaiting sv"
  shows "poll_accept api w sv = (case poll_next_req api (sv_io sv, drive_clone (sv_chans sv)) of
      (Ok (next_req, next_state), io1, c) \<Rightarrow> (Ok next_req, \<lparr>sv_io = io1, sv_state = next_state, sv_chans = c\<rparr>)
    | (Err e, io1, c) \<Rightarrow> (Err e, \<lparr>sv_io = io1, sv_state = Closed, sv_chans = c\<rparr>)
    | (Pending, io1, c) \<Rightarrow> (Pending, \<lparr>sv_io = io1, sv_state = RecvReq, sv_chans = c\<rparr>)
    | (Panic p, io1, c) \<Rightarrow> (Panic p, \<lparr>sv_io = io1, sv_state = RecvReq, sv_chans = c\<rparr>))"
  using assms
  by (auto simp: awaiting_def poll_accept_def poll_pending_external_def count_external_def poll_server_def
      sv_drive.simps poll_finish_idle drop_server_state_def split: res.splits prod.splits)

lemma accept_waits:
  assumes "awaiting sv" "rx_ok (sv_io sv)" "poll_for_crlfcrlf (try_parse_req api) (sv_io sv) = (Pending, io1)"
  shows "\<exists>sv1. poll_accept api w sv = (Pending, sv1) \<and> awaiting sv1 \<and> sv_io sv1 = io1"
proof -
  have "same_tx (sv_io sv) io1" using poll_for_crlfcrlf_safe(2)[OF assms(2,3)] by simp
  with assms(1) have "can_poll_write io1" using same_txD by (auto simp: awaiting_def)
  with assms(1,3) show ?thesis unfolding poll_accept_awaiting[OF assms(1)]
    by (simp add: poll_next_req_def awaiting_def)
qed

lemma accept_gets:
  assumes "awaiting sv" "poll_for_crlfcrlf (try_parse_req api) (sv_io sv) = (Ok (Inr (Some req)), io1)"
  shows "\<exists>rs i sr sv1. poll_accept api w sv = (Ok (Some ((req, rs, i), sr)), sv1) \<and> sv_io sv1 = io1"
  unfolding poll_accept_awaiting[OF assms(1)] using assms(2) by (simp add: poll_next_req_def new_request_def Let_def)

lemma repoll_accept:
  assumes "server_reachable api (sv, [])" "awaiting sv" "rx_ok (sv_io sv)"
    "repoll m (poll_for_crlfcrlf (try_parse_req api)) (sv_io sv) = (Ok (Inr (Some req)), io1)"
  shows "\<exists>sv0 rs i sr sv1. server_reachable api (sv0, []) \<and> poll_accept api w sv0 = (Ok (Some ((req, rs, i), sr)), sv1)
    \<and> repoll m (poll_accept api w) sv = (Ok (Some ((req, rs, i), sr)), sv1) \<and> sv_io sv1 = io1"
  using assms
proof (induction m arbitrary: sv)
  case (Suc m)
  obtain r io2 where r: "poll_for_crlfcrlf (try_parse_req api) (sv_io sv) = (r, io2)" by fastforce
  show ?case
  proof (cases "r = Pending")
    case True
    then obtain sv2 where sv2: "poll_accept api w sv = (Pending, sv2)" "awaiting sv2" "sv_io sv2 = io2"
      using accept_waits[OF Suc.prems(2,3)] r by blast
    have "server_reachable api (sv2, [])"
      using server_reachable.step[OF Suc.prems(1) server_step.accept_nothing[OF sv2(1)]] by simp
    moreover have "rx_ok io2" using poll_for_crlfcrlf_safe(2)[OF Suc.prems(3) r] True by simp
    moreover have "repoll m (poll_for_crlfcrlf (try_parse_req api)) io2 = (Ok (Inr (Some req)), io1)" using Suc.prems(4) r True by simp
    ultimately show ?thesis using Suc.IH[of sv2] sv2 by simp
  next
    case False
    then have "r = Ok (Inr (Some req))" "io2 = io1" using Suc.prems(4) r by (cases r; simp)+
    with accept_gets[OF Suc.prems(2), of api req io1 w] r obtain rs i sr sv1
      where "poll_accept api w sv = (Ok (Some ((req, rs, i), sr)), sv1)" "sv_io sv1 = io1" by blast
    with Suc.prems(1) show ?thesis by fastforce
  qed
qed simp

section \<open>From end to end\<close>

lemma handshake_awaiting: "awaiting (sv_handshake t)" "rx_ok (sv_io (sv_handshake t))"
  "in_stream (sv_io (sv_handshake t)) = rx_bytes (tr_rx t)" "io_clean (sv_io (sv_handshake t)) = rx_clean (tr_rx t)"
  "tr_rx (bi_inner (sv_io (sv_handshake t))) = tr_rx t" "bi_pos (sv_io (sv_handshake t)) + READ_BUF_INIT_SIZE \<le> MAX_CAPACITY"
proof -
  let ?io = "bi_with_capacity READ_BUF_INIT_SIZE t"
  have io: "sv_io (sv_handshake t) = ?io" "bi_inner ?io = t" "bi_pos ?io = 0"
    by (simp_all add: sv_handshake_def server_new_def bi_with_capacity_def)
  then show "awaiting (sv_handshake t)" by (simp add: awaiting_def) (simp add: sv_handshake_def server_new_def)
  show "rx_ok (sv_io (sv_handshake t))" "in_stream (sv_io (sv_handshake t)) = rx_bytes (tr_rx t)"
    "io_clean (sv_io (sv_handshake t)) = rx_clean (tr_rx t)" "tr_rx (bi_inner (sv_io (sv_handshake t))) = tr_rx t"
    "bi_pos (sv_io (sv_handshake t)) + READ_BUF_INIT_SIZE \<le> MAX_CAPACITY"
    using io by (simp_all add: io_clean_def)
qed

lemma length_unread_stream: "length (unread io) \<le> length (in_stream io)"
  by (simp add: in_stream_def)

text \<open>
  C2. A request that is sent arrives, with its body. Let \<open>head\<close> be what \<^verbatim>\<open>write_http1x_req\<close> writes for a
  request that announces a body, and let the body be sent piece by piece through a \<open>SendStream\<close> made
  from its headers, with as many bytes as a \<^verbatim>\<open>content-length\<close> says. Let the transport of a new
  server connection deliver the head and the messages of the stream, in any cuts and with any delays, and
  let the parser read the head as a request whose headers frame the body in the same way. Polling
  \<^verbatim>\<open>accept\<close> delivers this request; and its user, who does nothing but read with a buffer of any size,
  reads exactly what was sent and is told the end.
\<close>

theorem request_crosses:
  assumes "plain_req req" "write_http1x_req req cap = Ok head" "cap \<le> READ_BUF_INIT_SIZE"
    and "try_parse_req api head False = Inr (Some req1)" "lr_from_headers (req_headers req1) False = lr_from_headers (req_headers req) False"
    and "ds \<noteq> []" "\<forall>d \<in> set ds. d \<noteq> EmptyData \<and> length (data_bytes d) < 16 ^ 10"
    and "is_chunked (req_headers req)
      \<or> get_as (req_headers req) ''content-length'' = Some N \<and> unat N = length (concat (map data_bytes ds)) \<and> rest = []"
    and "send_pieces w ds (send_stream_new (lw_from_headers (req_headers req)) False, receiver_new 1) = (Ok (Inr ()), ms, s)"
    and "rx_clean (tr_rx t)" "rx_bytes (tr_rx t) = head @ concat (map fst ms) @ rest"
    and "rx_size (tr_rx t) < m" "0 < n" "length (concat (map data_bytes ds)) + 2 * rx_size (tr_rx t) < k"
  shows "\<exists>rs i sr sv s1. repoll m (poll_accept api w1) (sv_handshake t) = (Ok (Some ((req1, rs, i), sr)), sv)
     \<and> server_body_run api w2 i (replicate k (ReadBody n)) (rs, sv) = (concat (map data_bytes ds), s1) \<and> is_end_stream (fst s1)"
proof -
  let ?hs = "req_headers req" and ?l = "lr_from_headers (req_headers req) False" and ?io = "sv_io (sv_handshake t)"
  note hd = written_req_head[OF assms(1,2)] and new = handshake_awaiting[of t]
  have "head_len 0 (in_stream ?io) = Some (length head)" using hd(2) new(3) assms(11) by simp
  then obtain io1 where io1: "repoll m (poll_for_crlfcrlf (try_parse_req api)) ?io = (Ok (Inr (Some req1)), io1)"
    "in_stream io1 = concat (map fst ms) @ rest" "rx_ok io1" "io_clean io1" "rx_size (tr_rx (bi_inner io1)) \<le> rx_size (tr_rx t)"
    using repoll_found[OF new(2) _ new(6), of "length head" m "try_parse_req api"] hd(1) new(3-5) assms(3,4,10-12) by auto
  obtain sv0 rs i sr sv where acc: "server_reachable api (sv0, [])" "poll_accept api w1 sv0 = (Ok (Some ((req1, rs, i), sr)), sv)"
    "repoll m (poll_accept api w1) (sv_handshake t) = (Ok (Some ((req1, rs, i), sr)), sv)" "sv_io sv = io1"
    using repoll_accept[OF server_reachable.start new(1,2) io1(1)] by blast
  have "is_chunked ?hs \<or> get_as ?hs ''content-length'' = Some N \<and> unat N = length (concat (map data_bytes ds))"
    using assms(8) by blast
  note body = sent_body[OF assms(6,7) this assms(9) io1(2-4), of False]
  have mixed: "unmixed (?l, io1)"
  proof (cases ?l)
    case (LR_ContentLength v)
    then have "\<not> is_chunked ?hs" by (auto simp: lr_from_headers_def)
    with assms(8) have "rest = []" by blast
    have "lr_stream (?l, io1) @ lr_beyond (?l, io1) = in_stream io1" using LR_ContentLength by (simp add: lr_defs)
    with body \<open>rest = []\<close> \<open>\<not> is_chunked ?hs\<close> have "in_stream io1 = lr_stream (?l, io1)" by simp
    then have "length (in_stream io1) \<le> clr_left v" using LR_ContentLength by (simp add: lr_stream_def) (metis length_take min.cobounded2)
    with LR_ContentLength show ?thesis by (simp add: unmixed_def)
  qed (simp_all add: unmixed_def)
  have "length (unread io1) \<le> rx_size (tr_rx t)"
    using length_unread_stream[of io1] io1(2) assms(11) length_rx_bytes[of "tr_rx t"] by simp
  then have size: "length (lr_stream (?l, io1)) + io_size io1 < k" using body io1(5) assms(14) by (simp add: io_size_def)
  obtain s1 where "server_body_run api w2 i (replicate k (ReadBody n)) (rs, sv) = (lr_stream (?l, io1), s1)" "is_end_stream (fst s1)"
    using body_delivered[OF acc(1,2), unfolded assms(5) acc(4), OF mixed _ assms(13) size, of w2] body by blast
  with acc(3) body show ?thesis by (intro exI[of _ rs] exI[of _ i] exI[of _ sr] exI[of _ sv] exI[of _ s1]) simp
qed

definition wit_post :: request where
  "wit_post = wit_req\<lparr>req_headers := hm_of [(''content-length'', ''5'')]\<rparr>"

definition wit_head :: bytes where
  "wit_head = ''GET /x HTTP/1.1'' @ CRLF @ ''host: h:8080'' @ CRLF @ ''content-length: 5'' @ CRLF @ CRLF"

definition wit_wire :: transport where
  "wit_wire = wit_transport [RxData (take 20 wit_head), RxPending, RxData (drop 20 wit_head @ ''h''), RxPending, RxData ''ello'']"

theorem request_crosses_witness:
  "\<exists>req1 rs i sr sv s1. repoll 100 (poll_accept wit_api 7) (sv_handshake wit_wire) = (Ok (Some ((req1, rs, i), sr)), sv)
     \<and> server_body_run wit_api 8 i (replicate 200 (ReadBody 2)) (rs, sv) = (''hello'', s1) \<and> is_end_stream (fst s1)"
proof -
  let ?ds = "[Shared ''hel'', Owned ''lo'']"
  let ?p = "send_pieces 3 ?ds (send_stream_new (lw_from_headers (req_headers wit_post)) False, receiver_new 1)"
  have a: "plain_req wit_post"
    by (simp add: plain_req_def wit_post_def wit_req_def plain_headers_def hm_of_def hv_of_def)
  have b: "write_http1x_req wit_post 8192 = Ok wit_head" "(8192::nat) \<le> READ_BUF_INIT_SIZE" by code_simp+
  have "case try_parse_req wit_api wit_head False of
      Inr (Some req1) \<Rightarrow> lr_from_headers (req_headers req1) False = LR_ContentLength (clr_new 5) | _ \<Rightarrow> False" by code_simp
  then obtain req1 where c: "try_parse_req wit_api wit_head False = Inr (Some req1)"
    "lr_from_headers (req_headers req1) False = LR_ContentLength (clr_new 5)" by (auto split: sum.splits option.splits)
  have d: "lr_from_headers (req_headers wit_post) False = LR_ContentLength (clr_new 5)" by code_simp
  have e: "?ds \<noteq> []" "\<forall>d \<in> set ?ds. d \<noteq> EmptyData \<and> length (data_bytes d) < 16 ^ 10" by simp_all
  have f: "is_chunked (req_headers wit_post)
      \<or> get_as (req_headers wit_post) ''content-length'' = Some 5 \<and> unat (5 :: 64 word) = length (concat (map data_bytes ?ds)) \<and> ([] :: bytes) = []"
  proof -
    have "get_as (req_headers wit_post) ''content-length'' = Some 5" by code_simp
    then show ?thesis by simp
  qed
  have g: "?p = (Ok (Inr ()), fst (snd ?p), snd (snd ?p))"
  proof -
    have "fst ?p = Ok (Inr ())" by code_simp
    then show ?thesis by (metis prod.collapse)
  qed
  have "concat (map fst (fst (snd ?p))) = ''hello''" by code_simp
  moreover have "rx_bytes (tr_rx wit_wire) = wit_head @ ''hello''" by code_simp
  ultimately have h: "rx_bytes (tr_rx wit_wire) = wit_head @ concat (map fst (fst (snd ?p))) @ []" by simp
  have i: "rx_clean (tr_rx wit_wire)" "rx_size (tr_rx wit_wire) < 90" by code_simp+
  from request_crosses[OF a b c(1) _ e f g i(1) h, of 100 2 200 7 8] c(2) d i(2) show ?thesis by fastforce
qed

end
