(* ===== verification/Buf_Safety.thy ===== *)
theory Buf_Safety
  imports Buf_Reader
begin

text \<open>
  Every call the connections make of their \<^verbatim>\<open>BufIo\<close>, in any order, on any transport: the
  buffer stays well-formed, and what can panic is known.
\<close>

section \<open>Calls of a buffered connection\<close>

datatype io_call =
    Input read_call
  | FinishWrite
  | WriteAll bytes bool

text \<open>\<open>None\<close> is a panic; the state after any other result goes on, errors and pending calls included.\<close>

fun do_call :: "io_call \<Rightarrow> buf_io \<Rightarrow> buf_io option" where
  "do_call (Input op) io = snd (do_read op io)"
| "do_call FinishWrite io = (case poll_finish_pending_write io of (Panic _, _) \<Rightarrow> None | (_, io') \<Rightarrow> Some io')"
| "do_call (WriteAll b flush) io = (case poll_write_all (Some b) flush io of (Panic _, _, _) \<Rightarrow> None | (_, _, io') \<Rightarrow> Some io')"

fun io_calls :: "io_call list \<Rightarrow> buf_io \<Rightarrow> buf_io option" where
  "io_calls [] io = Some io"
| "io_calls (c # cs) io = (case do_call c io of None \<Rightarrow> None | Some io1 \<Rightarrow> io_calls cs io1)"

definition io_ok :: "buf_io \<Rightarrow> bool" where
  "io_ok io \<longleftrightarrow> rx_ok io \<and> tx_ok io"

lemma io_ok_same: "same_tx io io' \<Longrightarrow> rx_ok io' \<Longrightarrow> io_ok io \<Longrightarrow> io_ok io'"
  "same_rx io io' \<Longrightarrow> tx_ok io' \<Longrightarrow> io_ok io \<Longrightarrow> io_ok io'"
  by (auto simp: io_ok_def same_tx_def same_rx_def rx_ok_def tx_ok_def split: option.splits)

text \<open>The two calls that can panic, on a well-formed connection.\<close>

definition overdraws :: "io_call \<Rightarrow> buf_io \<Rightarrow> bool" where
  "overdraws c io \<longleftrightarrow> (case c of
      Input (OpConsume n) \<Rightarrow> length (unread io) < n
    | Input (OpFill force) \<Rightarrow> force \<and> fb_len (bi_buf io) = fb_cap (bi_buf io) \<and> MAX_CAPACITY \<le> fb_cap (bi_buf io)
    | _ \<Rightarrow> False)"

lemma do_call_ok:
  assumes "io_ok io" "do_call c io = Some io'"
  shows "io_ok io'"
proof (cases c)
  case (Input op)
  then obtain bs where "do_read op io = (bs, Some io')" using assms(2) by (cases "do_read op io") auto
  with read_op_stream[of io op bs io'] assms(1) io_ok_same(1) show ?thesis by (auto simp: io_ok_def)
next
  case FinishWrite
  obtain r io1 where r: "poll_finish_pending_write io = (r, io1)" by fastforce
  with poll_finish_pending_write_spec[OF _ r] assms FinishWrite io_ok_same(2)[of io io1] show ?thesis
    by (cases r) (auto simp: io_ok_def)
next
  case (WriteAll b flush)
  obtain r rest io1 where r: "poll_write_all (Some b) flush io = (r, rest, io1)" by (metis prod_cases3)
  with poll_write_all_spec[OF _ r] assms WriteAll io_ok_same(2)[of io io1] show ?thesis
    by (cases r) (auto simp: io_ok_def)
qed

lemma do_call_panics:
  assumes "io_ok io" "do_call c io = None"
  shows "overdraws c io"
proof -
  have ok: "rx_ok io" "tx_ok io" using assms(1) by (simp_all add: io_ok_def)
  show ?thesis
  proof (cases c)
    case (Input op)
    show ?thesis
    proof (cases op)
      case (OpRead n)
      obtain r io1 where "poll_read n io = (r, io1)" by fastforce
      with poll_read_buf_spec[OF ok(1), of n r io1, folded poll_read_def] assms(2) Input OpRead show ?thesis by (cases r) auto
    next
      case (OpFill force)
      obtain r io1 where r: "poll_fill_buf force io = (r, io1)" by fastforce
      with assms(2) Input OpFill obtain p where p: "r = Panic p" by (cases r) auto
      with poll_fill_buf_spec[OF ok(1) r] have full: "fb_len (bi_buf io) = fb_cap (bi_buf io)" "MAX_CAPACITY \<le> fb_cap (bi_buf io)" by auto
      moreover have force
        using r p full ok(1) by (cases force) (auto simp: poll_fill_buf_def Let_def rx_ok_def)
      ultimately show ?thesis using Input OpFill by (simp add: overdraws_def)
    next
      case (OpConsume n)
      have "\<not> n \<le> length (unread io)"
      proof
        assume "n \<le> length (unread io)"
        then obtain io1 where "consume n io = (Ok (), io1)" by (rule consume_spec[OF ok(1)])
        with assms(2) Input OpConsume show False by simp
      qed
      with Input OpConsume show ?thesis by (simp add: overdraws_def)
    next
      case OpTake
      with assms(2) Input show ?thesis by (auto split: if_splits prod.splits)
    next
      case (OpEnsure n)
      with assms(2) Input show ?thesis by simp
    qed
  next
    case FinishWrite
    obtain r io1 where r: "poll_finish_pending_write io = (r, io1)" by fastforce
    with poll_finish_pending_write_spec[OF ok(2) r] assms(2) FinishWrite show ?thesis by (cases r) auto
  next
    case (WriteAll b flush)
    obtain r rest io1 where r: "poll_write_all (Some b) flush io = (r, rest, io1)" by (metis prod_cases3)
    with poll_write_all_spec[OF ok(2) r] assms(2) WriteAll show ?thesis by (cases r) auto
  qed
qed

lemma io_calls_ok: "io_calls cs io = Some io' \<Longrightarrow> io_ok io \<Longrightarrow> io_ok io'"
  by (induction cs arbitrary: io) (auto intro: do_call_ok split: option.splits)

section \<open>Property\<close>

text \<open>
  C27. A buffered connection is well-formed, always. Start with a new connection over any transport, and make
  any calls on it that the client and the server make, in any order, with any arguments and whatever the
  transport answers. As long as none panics, the read position is inside the buffer, what is initialised is
  what is claimed to be, and a write is pending only while something is left to write or to flush. The next
  call, whichever it is, panics only if it consumes more than is buffered or asks for
  more room than the largest buffer has.
\<close>

theorem buf_io_type_safe:
  assumes "0 < n" "io_calls cs (bi_with_capacity n t) = Some io"
  shows "rx_ok io \<and> tx_ok io \<and> (\<forall>c. do_call c io = None \<longrightarrow> overdraws c io)"
proof -
  have "io_ok (bi_with_capacity n t)" using assms(1) by (simp add: io_ok_def)
  with io_calls_ok[OF assms(2)] have "io_ok io" by blast
  with do_call_panics show ?thesis by (auto simp: io_ok_def)
qed

definition wit_calls :: "io_call list" where
  "wit_calls = [Input (OpFill False), WriteAll ''abc'' True, Input (OpConsume 2), FinishWrite, Input (OpRead 5)]"

theorem buf_io_type_safe_witness:
  "\<exists>io. io_calls wit_calls (bi_with_capacity 4 \<lparr>tr_rx = [RxData ''hello''], tr_tx = [TxAccept 1, TxPending], tr_flush = [CtlPending],
        tr_close = [], tr_sent = [], tr_flushed = 0, tr_closed = False\<rparr>) = Some io \<and> rx_ok io \<and> tx_ok io"
proof -
  let ?io = "bi_with_capacity 4 \<lparr>tr_rx = [RxData ''hello''], tr_tx = [TxAccept 1, TxPending], tr_flush = [CtlPending],
        tr_close = [], tr_sent = [], tr_flushed = 0, tr_closed = False\<rparr>"
  have "io_calls wit_calls ?io \<noteq> None" by code_simp
  then obtain io where io: "io_calls wit_calls ?io = Some io" by blast
  with buf_io_type_safe[OF _ io] show ?thesis by simp
qed

end
