(* ===== verification/Spec2Isabelle.thy ===== *)
theory Spec2Isabelle
  imports Client_Delivery Server_Faults End_To_End Buf_Safety
begin

text \<open>
  A model of \<^verbatim>\<open>hreq-h1\<close>, an HTTP/1.x client and server over any asynchronous byte transport, and the
  properties that make it correct. Every definition is translated from a file under
  \<^verbatim>\<open>src/src\<close>, which the text at the head of each theory names.

  \<^bold>\<open>The program.\<close> A connection of either side is a state machine polled over a \<^verbatim>\<open>BufIo\<close>, a transport
  with a read buffer and a half-written buffer. The user never touches it: heads and pieces of
  bodies pass through small channels (\<^verbatim>\<open>mpsc.rs\<close>) between the connection and handles
  (\<^verbatim>\<open>SendRequest\<close>, \<^verbatim>\<open>ResponseFuture\<close>, \<^verbatim>\<open>SendResponse\<close>, \<^verbatim>\<open>SendStream\<close>, \<^verbatim>\<open>RecvStream\<close>). A
  client connection is a future a runtime polls; a server connection is driven by whoever calls it,
  \<^verbatim>\<open>accept\<close>, \<^verbatim>\<open>close\<close>, a read of a body or a send of a response, under one lock. The end of a body is
  found by a limiter chosen from the headers: a length, chunks, or the end of the connection.

  \<^bold>\<open>The theories.\<close> Each imports the ones it calls.
  \<^item> \<open>Prelude\<close>, \<open>Rust_Std\<close>, \<open>Errors\<close>: the result of a poll (\<open>Ok\<close>, \<open>Err\<close>, \<open>Pending\<close>, \<open>Panic\<close>) and
    the combinators for \<^verbatim>\<open>ready!(..)?\<close>; numbers as the standard library prints and parses them;
    \<^verbatim>\<open>error.rs\<close> and \<^verbatim>\<open>err_closed\<close> of \<^verbatim>\<open>lib.rs\<close>.
  \<^item> \<open>Transport\<close>: the transport, a parameter: the answers it will give to reads, writes and flushes. The
    locales \<open>byte_source\<close>, \<open>draining_source\<close> and \<open>byte_sink\<close> state what its clients rely on; \<open>BufIo\<close>, the
    chunked decoder, the limiter and \<open>RecvStream\<close> are interpretations of them, so that reading
    to the end however the bytes are cut is proved once.
  \<^item> \<open>Fast_Buf\<close> (\<^verbatim>\<open>fast_buf.rs\<close>), \<open>Buf_Reader\<close> (\<^verbatim>\<open>buf_reader.rs\<close>), \<open>Chunked\<close> (\<^verbatim>\<open>chunked.rs\<close>),
    \<open>Limit\<close> (\<^verbatim>\<open>limit.rs\<close>), \<open>Http11\<close> (\<^verbatim>\<open>http11.rs\<close>), \<open>Mpsc\<close> (\<^verbatim>\<open>mpsc.rs\<close>), \<open>Share\<close> (\<^verbatim>\<open>share.rs\<close>): one
    record per structure, one datatype per enum, one function per method, with the names of the source.
    \<open>Buf_Safety\<close>: every sequence of calls on a \<^verbatim>\<open>BufIo\<close>.
  \<^item> \<open>Http_Api\<close>: the values of the \<^verbatim>\<open>http\<close> crate by what the source observes of them; \<^verbatim>\<open>httparse\<close> and the
    builders are the record \<open>http_api\<close>, over which the properties quantify.
  \<^item> \<open>Connection\<close>: what both sides share. \<open>Client\<close> (\<^verbatim>\<open>client.rs\<close>) and its proofs, \<open>Client_Proofs\<close>,
    \<open>Client_Body\<close>, \<open>Client_Properties\<close>; \<open>Client_Delivery\<close> runs a connection and its user to the end of a
    response.
  \<^item> \<open>Server\<close> (\<^verbatim>\<open>server.rs\<close>) and its proofs: \<open>Server_Proofs\<close> (well-formed states, no panic),
    \<open>Server_Drive\<close> (one round and the loop of \<^verbatim>\<open>drive\<close>), \<open>Server_Answer\<close> (what is written),
    \<open>Server_Body\<close> (what is received), \<open>Server_System\<close> (the connection with its handles as a transition
    system), \<open>Server_Properties\<close>, \<open>Server_Invariant\<close> (the locales \<open>connection_fact\<close> and \<open>connection_invariant\<close>: what
    every access to the connection keeps, every call keeps and every reachable state has), \<open>Server_Protocol\<close>
    (the abstract protocol, with the output and the body passed on as its data, and the locale
    \<open>simulation\<close>), \<open>Server_Flag\<close> (the flag of a pending read), \<open>Server_Delivery\<close> (a body
    read to its end), \<open>Server_Faults\<close> (behaviours that are not as they should be).
  \<^item> \<open>End_To_End\<close>: what a client writes, read by a server.

  \<^bold>\<open>State and operations.\<close> \<open>client\<close> and \<open>server\<close> are the two \<^verbatim>\<open>Codec\<close>s. What the source shares by
  \<^verbatim>\<open>Arc\<close> is a store of channels, \<open>client_chans\<close> and \<open>server_chans\<close>, and an end of a channel is its
  number; dropping an end is a step on the store. \<open>poll_client\<close> and \<open>poll_server\<close> poll a connection,
  \<open>send_request\<close>, \<open>response_future_poll\<close>, \<open>poll_accept\<close>, \<open>sv_poll_close\<close>, \<open>send_response_start\<close>,
  \<open>server_read\<close> and \<open>server_send\<close> are calls of the user. \<open>client_reachable\<close> and \<open>server_reachable\<close> are the
  states after any sequence of such calls with any arguments.

  \<^bold>\<open>What is shown.\<close>
  \<^item> Bodies: the chunked coding and the lengths round-trip over a transport that cuts the bytes anywhere;
    the limiter's own reads never go past a content-length (the server also passes on whole read buffers, and then can:
    \<open>server_over_read\<close>); what is sent by a \<open>SendStream\<close> is read by a limiter
    made from the same headers.
  \<^item> Heads: the writers produce a reference rendering, the scanner finds exactly a written head.
  \<^item> Connections: a poll of a reachable state panics only where the theorems name it: a buffer filled to its bound, a version
    that is none of HTTP/1.x, and, on the client, a response head of empty lines; a pending one is waiting for the
    transport or registered with the channel it needs; what is written is in order, once; the bodies
    received reach the user in order, once, and to their end, as long as they arrive, and on the server as long as the
    next request is not pipelined behind a content-length body; the error of a client connection reaches the user
    who waits for a response or reads a body, but not one whose response came before the request was sent;
    every call on a server is a run of an abstract protocol, which takes one request at a time, writes what the user
    sends, passes on what arrives and answers in full before the next request; a handle of a
    server that is told to wait is waiting for the transport or for another handle that is still held.
  \<^item> Memory: a buffer borrowed for reading does expose uninitialised places until the reader has written them, and never
    any after the borrow.
  \<^item> End to end: a request written by the client reaches the user of a server with the whole of its body, and a
    response written by the server reaches the user of a client, over a transport that cuts the bytes anywhere.
  \<^item> The remaining theorems show where the code does something else than it means to.

  \<^bold>\<open>Bounds and termination.\<close> \<^verbatim>\<open>usize\<close> values are natural numbers, as they count bytes in memory;
  the \<^verbatim>\<open>u64\<close> counters of the limiters are 64-bit words and wrap as in a release build. Every loop of the
  source but one is a total function, with a measure on the answers the transport has left, the
  queues of the channels or the bytes to scan; no fuel is used. Where a property polls until something is
  there, the number of polls is bounded by the number of answers the transport has. The exception is \<open>flush_loop\<close>, the loop at
  the end of \<^verbatim>\<open>do_send\<close>, which may run for ever: its result is an option and \<open>None\<close> is not returning.

  \<^bold>\<open>Not modelled.\<close> The \<^verbatim>\<open>Debug\<close> implementations, logging and the re-exports of \<^verbatim>\<open>lib.rs\<close>; the \<^verbatim>\<open>async\<close>
  wrappers that only turn a poll function into a future; executors and wakers beyond which waker is
  registered and which is woken; a poisoned mutex; calls on a server connection that run in parallel, as the
  lock makes each of them one step. The crates \<^verbatim>\<open>http\<close> and \<^verbatim>\<open>httparse\<close> and the transport are
  parameters. Tests, the example and the fuzz targets hold no logic of the crate.
\<close>

end
